(* ===== verification/C_Prelude.thy ===== *)
theory C_Prelude
  imports Main "HOL-Library.Word" "HOL-Library.Monad_Syntax"
begin

text \<open>
  Shared vocabulary of the development: the C integer types of the kernel as fixed-width words,
  the lemma collections of the component theories, C strings as byte lists, and the generic facts
  on words, lists and options that several components use.
\<close>

unbundle bit_operations_syntax

type_synonym u8 = "8 word"
type_synonym u16 = "16 word"
type_synonym u32 = "32 word"

named_theorems word_nat \<open>unsigned values of word expressions that do not wrap\<close>
named_theorems mem_simps \<open>reading memory or a structure field after a write\<close>
named_theorems inv_intros \<open>every operation of a component keeps the component's invariant\<close>

text \<open>The kernel's loops run over long index ranges: they are not unrolled by the simplifier.\<close>

declare upt_rec_numeral [simp del]

subsection \<open>C strings\<close>

text \<open>
  A C string is a list of bytes; the terminating NUL is the end of the list. A pointer into the
  string is the suffix it points to, \<open>deref s\<close> is the byte \<open>*s\<close> (0 at the end).
  The functions stop at an embedded 0 as well, as the C loops do.
\<close>

type_synonym cstring = "u8 list"

fun deref :: "cstring \<Rightarrow> u8" where
  "deref [] = 0"
| "deref (c # s) = c"

definition ord_c :: "char \<Rightarrow> u8" where
  "ord_c c = of_char c"

definition str :: "string \<Rightarrow> cstring" where
  "str s = map ord_c s"

definition is_cstring :: "cstring \<Rightarrow> bool" where
  "is_cstring s \<longleftrightarrow> 0 \<notin> set s"

lemma is_cstring_Nil [simp]: "is_cstring []"
  by (simp add: is_cstring_def)

lemma is_cstring_Cons [simp]: "is_cstring (c # s) \<longleftrightarrow> c \<noteq> 0 \<and> is_cstring s"
  by (auto simp: is_cstring_def)

lemma is_cstring_append [simp]: "is_cstring (s @ t) \<longleftrightarrow> is_cstring s \<and> is_cstring t"
  by (auto simp: is_cstring_def)

lemma deref_eq_0: "is_cstring s \<Longrightarrow> deref s = 0 \<longleftrightarrow> s = []"
  by (cases s) auto

subsection \<open>Words\<close>

lemma unat_add_small [word_nat]:
  fixes a b :: "'a::len word"
  assumes "unat a + unat b < 2 ^ LENGTH('a)"
  shows "unat (a + b) = unat a + unat b"
  using assms by (simp add: unat_word_ariths)

lemma unat_of_nat_u32 [word_nat]: "n < 2 ^ 32 \<Longrightarrow> unat (of_nat n :: u32) = n"
  by (simp add: unat_of_nat)

lemma unat_u32_less [simp]: "unat (a :: u32) < 4294967296"
  using unsigned_less [of a] by simp

lemma u32_eq_unat: "(a :: u32) = b \<longleftrightarrow> unat a = unat b"
  by (simp add: word_unat_eq_iff)

lemma unat_u8_less [simp]: "unat (a :: u8) < 256"
  using unsigned_less [of a] by simp

lemma and_single_bit_eq_0: "(b AND 2 ^ k = 0) = (\<not> bit b k)"
  if "k < LENGTH('a)" for b :: "'a::len word"
proof
  assume "b AND 2 ^ k = 0"
  then have "bit (b AND 2 ^ k) k = bit (0 :: 'a word) k" by simp
  with that show "\<not> bit b k" by (simp add: bit_simps)
next
  assume "\<not> bit b k"
  then show "b AND 2 ^ k = 0"
    by (intro bit_word_eqI) (auto simp: bit_simps)
qed

lemma unat_and_not_mask [word_nat]:
  fixes a :: "'a::len word"
  shows "unat (a AND NOT (mask k)) = 2 ^ k * (unat a div 2 ^ k)"
proof -
  have "a AND NOT (mask k) = push_bit k (drop_bit k a)"
    by (rule bit_word_eqI) (auto simp: bit_simps)
  then have "unat (a AND NOT (mask k)) = take_bit LENGTH('a) (push_bit k (unat (drop_bit k a)))"
    by (simp add: unsigned_push_bit_eq)
  also have "\<dots> = take_bit LENGTH('a) (2 ^ k * (unat a div 2 ^ k))"
    by (simp only: push_bit_eq_mult unat_drop_bit_eq drop_bit_eq_div [of k "unat a"] mult.commute)
  also have "\<dots> = 2 ^ k * (unat a div 2 ^ k)"
    using le_less_trans [OF times_div_less_eq_dividend unsigned_less, of "2 ^ k" a]
    by (simp add: take_bit_nat_eq_self)
  finally show ?thesis .
qed

end
