(* ===== verification/Machine.thy ===== *)
theory Machine
  imports C_Prelude
begin

text \<open>
  The memory every component shares: 32-bit byte addresses, little-endian 32-bit loads and stores
  (the x86 accesses behind the kernel's \<open>uint32_t *\<close> dereferences), and the \<open>memcpy\<close> and
  \<open>memset\<close> loops that fat32.c and elf.c define for themselves. The state of the kernel is one
  record: each component theory extends it with the static variables of its C file.
  The interface \<open>word_memory\<close> is what the components use of the loads and stores.
\<close>

type_synonym memory = "u32 \<Rightarrow> u8"

record machine =
  mem :: memory

subsection \<open>Loads and stores\<close>

definition ld32 :: "memory \<Rightarrow> u32 \<Rightarrow> u32" where
  "ld32 m a = ucast (m a) OR push_bit 8 (ucast (m (a + 1)))
     OR push_bit 16 (ucast (m (a + 2))) OR push_bit 24 (ucast (m (a + 3)))"

definition st32 :: "memory \<Rightarrow> u32 \<Rightarrow> u32 \<Rightarrow> memory" where
  "st32 m a v = m(a := ucast v, a + 1 := ucast (drop_bit 8 v),
     a + 2 := ucast (drop_bit 16 v), a + 3 := ucast (drop_bit 24 v))"

definition aligned4 :: "u32 \<Rightarrow> bool" where
  "aligned4 a \<longleftrightarrow> 4 dvd unat a"

lemma ld32_st32_same: "ld32 (st32 m a v) a = v"
proof -
  have "ld32 (st32 m a v) a = ucast (ucast v :: u8) OR push_bit 8 (ucast (ucast (drop_bit 8 v) :: u8))
      OR push_bit 16 (ucast (ucast (drop_bit 16 v) :: u8))
      OR push_bit 24 (ucast (ucast (drop_bit 24 v) :: u8))"
    by (simp add: ld32_def st32_def)
  also have "\<dots> = v"
  proof (rule bit_word_eqI)
    fix n assume "n < LENGTH(32)"
    then consider "n < 8" | "8 \<le> n" "n < 16" | "16 \<le> n" "n < 24" | "24 \<le> n" "n < 32"
      by fastforce
    then show "bit (ucast (ucast v :: u8) OR push_bit 8 (ucast (ucast (drop_bit 8 v) :: u8))
        OR push_bit 16 (ucast (ucast (drop_bit 16 v) :: u8))
        OR push_bit 24 (ucast (ucast (drop_bit 24 v) :: u8)) :: u32) n = bit v n"
      by cases (auto simp: bit_simps)
  qed
  finally show ?thesis .
qed

lemma st32_other: "4 \<le> x - a \<Longrightarrow> st32 m a v x = m x"
  by (auto simp: st32_def fun_upd_def word_le_nat_alt)

lemma aligned4_diff:
  assumes "aligned4 a" and "aligned4 b"
  shows "4 dvd unat (a - b)"
proof -
  have "unat (a - b) = (if unat b \<le> unat a then unat a - unat b
      else unat a + 2 ^ 32 - unat b)"
    by (simp add: unat_sub_if' word_le_nat_alt)
  moreover have "4 dvd unat a + 2 ^ 32" using assms by (simp add: aligned4_def)
  ultimately show ?thesis using assms by (auto simp: aligned4_def intro!: dvd_diff_nat)
qed

lemma aligned4_distance:
  assumes "aligned4 a" and "aligned4 b" and "a \<noteq> b" and "k < 4"
  shows "4 \<le> a + k - b"
proof -
  have d: "4 dvd unat (a - b)" using assms(1,2) by (rule aligned4_diff)
  have n: "unat (a - b) \<noteq> 0" using assms(3) by (simp add: unat_eq_0)
  have k: "unat k < 4" using assms(4) by (simp add: word_less_nat_alt)
  have "unat (a - b) + unat k < 2 ^ 32"
    using d k unat_u32_less [of "a - b"] by (elim dvdE) simp
  then have "unat (a - b + k) = unat (a - b) + unat k"
    by (intro unat_add_small) simp
  with d n have "4 \<le> unat (a - b + k)" by presburger
  moreover have "a - b + k = a + k - b" by simp
  ultimately show ?thesis by (simp add: word_le_nat_alt)
qed

lemma ld32_st32_other:
  assumes "aligned4 a" and "aligned4 b" and "a \<noteq> b"
  shows "ld32 (st32 m b v) a = ld32 m a"
proof -
  have "st32 m b v (a + k) = m (a + k)" if "k < 4" for k
    using st32_other aligned4_distance [OF assms that] by blast
  from this [of 0] this [of 1] this [of 2] this [of 3] show ?thesis
    by (simp add: ld32_def)
qed

subsection \<open>Copying and filling bytes\<close>

text \<open>\<open>while (n--) *d++ = *s++;\<close> and \<open>while (n--) *p++ = c;\<close>, one byte per round, lowest address first.\<close>

fun memcpy_loop :: "memory \<Rightarrow> u32 \<Rightarrow> u32 \<Rightarrow> nat \<Rightarrow> memory" where
  "memcpy_loop m d s 0 = m"
| "memcpy_loop m d s (Suc n) = memcpy_loop (m(d := m s)) (d + 1) (s + 1) n"

definition memcpy :: "memory \<Rightarrow> u32 \<Rightarrow> u32 \<Rightarrow> u32 \<Rightarrow> memory" where
  "memcpy m dest src n = memcpy_loop m dest src (unat n)"

fun memset_loop :: "memory \<Rightarrow> u32 \<Rightarrow> u8 \<Rightarrow> nat \<Rightarrow> memory" where
  "memset_loop m p c 0 = m"
| "memset_loop m p c (Suc n) = memset_loop (m(p := c)) (p + 1) c n"

definition memset :: "memory \<Rightarrow> u32 \<Rightarrow> u32 \<Rightarrow> u32 \<Rightarrow> memory" where
  "memset m s c n = memset_loop m s (ucast c) (unat n)"

text \<open>Storing a list of bytes, and of words, at increasing addresses.\<close>

fun store_bytes :: "memory \<Rightarrow> u32 \<Rightarrow> u8 list \<Rightarrow> memory" where
  "store_bytes m a [] = m"
| "store_bytes m a (v # vs) = store_bytes (m(a := v)) (a + 1) vs"

fun store_words :: "('m \<Rightarrow> u32 \<Rightarrow> u32 \<Rightarrow> 'm) \<Rightarrow> 'm \<Rightarrow> u32 \<Rightarrow> u32 list \<Rightarrow> 'm" where
  "store_words st m a [] = m"
| "store_words st m a (v # vs) = store_words st (st m a v) (a + 4) vs"

lemma memset_loop_store_bytes: "memset_loop m p c n = store_bytes m p (replicate n c)"
  by (induction n arbitrary: m p) auto

lemma unat_add_le: "unat (a :: u32) + k \<le> 2 ^ 32 \<Longrightarrow> n < k \<Longrightarrow> unat (a + of_nat n) = unat a + n"
  by (subst unat_add_small) (simp_all add: unat_of_nat)

lemma store_bytes_apply:
  assumes "unat a + length vs \<le> 2 ^ 32"
  shows "store_bytes m a vs x =
    (if unat a \<le> unat x \<and> unat x < unat a + length vs then vs ! (unat x - unat a) else m x)"
  using assms
proof (induction vs arbitrary: m a)
  case Nil
  then show ?case by auto
next
  case (Cons v vs)
  show ?case
  proof (cases "vs = []")
    case True
    then show ?thesis by (auto simp: u32_eq_unat)
  next
    case False
    with Cons.prems have a: "unat (a + 1) = unat a + 1"
      by (cases vs) (simp_all add: unat_add_small)
    have IH: "store_bytes (m(a := v)) (a + 1) vs x =
        (if unat a + 1 \<le> unat x \<and> unat x < unat a + 1 + length vs
         then vs ! (unat x - (unat a + 1)) else (m(a := v)) x)"
      using Cons.IH [of "a + 1" "m(a := v)"] Cons.prems a by (simp del: fun_upd_apply)
    consider "x = a" | "unat x < unat a" | "unat a < unat x" by (metis linorder_less_linear u32_eq_unat)
    then show ?thesis
      by cases (use IH in \<open>auto simp: nth_Cons'\<close>)
  qed
qed

lemma memcpy_loop_apply:
  assumes "unat d + n \<le> 2 ^ 32" and "unat s + n \<le> 2 ^ 32"
    and "unat d + n \<le> unat s \<or> unat s + n \<le> unat d"
  shows "memcpy_loop m d s n x =
    (if unat d \<le> unat x \<and> unat x < unat d + n then m (s + of_nat (unat x - unat d)) else m x)"
  using assms
proof (induction n arbitrary: m d s)
  case 0
  then show ?case by auto
next
  case (Suc n)
  show ?case
  proof (cases "n = 0")
    case True
    then show ?thesis by (auto simp: u32_eq_unat)
  next
    case False
    with Suc.prems have d: "unat (d + 1) = unat d + 1" and s: "unat (s + 1) = unat s + 1"
      by (simp_all add: unat_add_small)
    have IH: "memcpy_loop (m(d := m s)) (d + 1) (s + 1) n x =
        (if unat d + 1 \<le> unat x \<and> unat x < unat d + 1 + n
         then (m(d := m s)) (s + 1 + of_nat (unat x - (unat d + 1))) else (m(d := m s)) x)"
      using Suc.IH [of "d + 1" "s + 1" "m(d := m s)"] Suc.prems d s by (auto simp del: fun_upd_apply)
    have off: "s + 1 + of_nat (unat x - (unat d + 1)) = s + of_nat (unat x - unat d)"
      if "unat d + 1 \<le> unat x"
      using that by (simp add: of_nat_diff)
    have frame: "s + of_nat k \<noteq> d" if "k < Suc n" for k
      using Suc.prems that unat_add_le [of s "Suc n" k] by (auto simp: u32_eq_unat)
    consider "x = d" | "unat x < unat d" | "unat d < unat x" by (metis linorder_less_linear u32_eq_unat)
    then show ?thesis
    proof cases
      case 3
      then show ?thesis using IH off frame [of "unat x - unat d"] by auto
    qed (use IH in auto)
  qed
qed

subsection \<open>The interface of word-wise memory\<close>

text \<open>
  What the components rely on: a load returns the last aligned store to its address. From this one
  law follow the facts on whole arrays that zeroing a page, filling a page table and building a
  stack frame need.
\<close>

locale word_memory =
  fixes ld :: "'m \<Rightarrow> u32 \<Rightarrow> u32"
    and st :: "'m \<Rightarrow> u32 \<Rightarrow> u32 \<Rightarrow> 'm"
  assumes ld_st: "aligned4 a \<Longrightarrow> aligned4 b \<Longrightarrow> ld (st m b v) a = (if a = b then v else ld m a)"
begin

lemma ld_store_words:
  assumes "aligned4 a" and "aligned4 b" and "unat a + 4 * length vs \<le> 2 ^ 32"
  shows "ld (store_words st m a vs) b =
    (if unat a \<le> unat b \<and> unat b < unat a + 4 * length vs
     then vs ! ((unat b - unat a) div 4) else ld m b)"
  using assms
proof (induction vs arbitrary: m a)
  case Nil
  then show ?case by auto
next
  case (Cons v vs)
  have near: "unat b = unat a" if "unat a \<le> unat b" "unat b < unat a + 4"
    using Cons.prems(1,2) that by (auto simp: aligned4_def elim!: dvdE)
  show ?case
  proof (cases "vs = []")
    case True
    then show ?thesis
      using near Cons.prems by (auto simp: ld_st u32_eq_unat)
  next
    case False
    with Cons.prems have a4: "unat (a + 4) = unat a + 4"
      by (cases vs) (simp_all add: unat_add_small)
    then have al: "aligned4 (a + 4)" using Cons.prems(1) by (simp add: aligned4_def)
    have "(unat b - unat a) div 4 = Suc ((unat b - (unat a + 4)) div 4)"
      if "unat a + 4 \<le> unat b"
      using that le_div_geq [of 4 "unat b - unat a"] by simp
    then show ?thesis
      using Cons.IH [of "a + 4" "st m a v"] Cons.prems al a4 near
      by (auto simp: ld_st u32_eq_unat)
  qed
qed

end

interpretation ram: word_memory ld32 st32
  by unfold_locales (simp add: ld32_st32_same ld32_st32_other)

lemma store_words_bytes_other:
  assumes "unat a + 4 * length vs \<le> 2 ^ 32"
    and "unat x < unat a \<or> unat a + 4 * length vs \<le> unat x"
  shows "store_words st32 m a vs x = m x"
  using assms
proof (induction vs arbitrary: m a)
  case Nil
  then show ?case by auto
next
  case (Cons v vs)
  have "4 \<le> unat (x - a)"
    using Cons.prems unat_u32_less [of x] by (auto simp: unat_sub_if' word_le_nat_alt)
  then have st: "st32 m a v x = m x"
    by (intro st32_other) (simp add: word_le_nat_alt)
  show ?case
  proof (cases "vs = []")
    case True
    with st show ?thesis by simp
  next
    case False
    with Cons.prems have "unat (a + 4) = unat a + 4"
      by (cases vs) (simp_all add: unat_add_small)
    with Cons st show ?thesis by auto
  qed
qed

end
