(* ===== verification/Pmm.thy ===== *)
theory Pmm
  imports Machine
begin

text \<open>
  The physical memory manager (kernel/pmm.c): a bitmap with one bit per 4 KB page of the 16 MB of
  memory, 1 for a used page. The abstract view of a state is the set of its free page numbers; the
  interface \<open>page_allocator\<close> is the contract the heap, paging and the process table rely on.
\<close>

subsection \<open>State and operations\<close>

abbreviation (input) PAGE_SIZE :: u32 where "PAGE_SIZE \<equiv> 4096"
abbreviation (input) TOTAL_PAGES :: u32 where "TOTAL_PAGES \<equiv> 4096"

record pmm = machine +
  bitmap :: "u8 list" \<comment> \<open>static uint8_t bitmap[TOTAL_PAGES / 8]\<close>

definition BITMAP_SET :: "nat \<Rightarrow> u8 list \<Rightarrow> u8 list" where
  "BITMAP_SET p bm = bm[p div 8 := bm ! (p div 8) OR push_bit (p mod 8) 1]"

definition BITMAP_CLEAR :: "nat \<Rightarrow> u8 list \<Rightarrow> u8 list" where
  "BITMAP_CLEAR p bm = bm[p div 8 := bm ! (p div 8) AND NOT (push_bit (p mod 8) 1)]"

definition BITMAP_TEST :: "nat \<Rightarrow> u8 list \<Rightarrow> bool" where
  "BITMAP_TEST p bm \<longleftrightarrow> bm ! (p div 8) AND push_bit (p mod 8) 1 \<noteq> 0"

text \<open>The address of a page, given its number.\<close>

definition page_addr :: "nat \<Rightarrow> u32" where
  "page_addr p = of_nat (4096 * p)"

lemma unat_page_addr: "p < 4096 \<Longrightarrow> unat (page_addr p) = 4096 * p"
  unfolding page_addr_def by (subst unat_of_nat) simp

text \<open>\<open>kernel_end\<close> is the address of the linker symbol \<open>_kernel_end\<close>.\<close>

definition pmm_init :: "u32 \<Rightarrow> 'z pmm_scheme \<Rightarrow> 'z pmm_scheme" where
  "pmm_init kernel_end s =
    (let bm = replicate 512 0xFF;
         kend_page = (kernel_end + PAGE_SIZE - 1) div PAGE_SIZE;
         bm = fold (\<lambda>p bm. if 0xA0 \<le> p \<and> p \<le> 0xFF then bm else BITMAP_CLEAR p bm)
                [unat kend_page ..< 0x1F0] bm;
         bm = fold BITMAP_CLEAR [0x300 ..< 0x1000] bm
     in s\<lparr>bitmap := bm\<rparr>)"

fun pmm_alloc_loop :: "nat list \<Rightarrow> u8 list \<Rightarrow> u32 \<times> u8 list" where
  "pmm_alloc_loop [] bm = (0, bm)"
| "pmm_alloc_loop (i # is) bm =
     (if bm ! i = 0xFF then pmm_alloc_loop is bm
      else case find (\<lambda>k. bm ! i AND push_bit k 1 = 0) [0 ..< 8] of
          Some k \<Rightarrow> ((of_nat i * 8 + of_nat k) * PAGE_SIZE, bm[i := bm ! i OR push_bit k 1])
        | None \<Rightarrow> pmm_alloc_loop is bm)"

definition pmm_alloc :: "'z pmm_scheme \<Rightarrow> u32 \<times> 'z pmm_scheme" where
  "pmm_alloc s =
    (let (addr, bm) = pmm_alloc_loop [0 ..< length (bitmap s)] (bitmap s)
     in (addr, s\<lparr>bitmap := bm\<rparr>))"

definition pmm_free :: "u32 \<Rightarrow> 'z pmm_scheme \<Rightarrow> 'z pmm_scheme" where
  "pmm_free addr s =
    (let page = addr div PAGE_SIZE
     in if page > 0 \<and> page < TOTAL_PAGES then s\<lparr>bitmap := BITMAP_CLEAR (unat page) (bitmap s)\<rparr>
        else s)"

definition pmm_get_free_count :: "'z pmm_scheme \<Rightarrow> u32" where
  "pmm_get_free_count s =
    fold (\<lambda>b count. fold (\<lambda>k count. if b AND push_bit k 1 = 0 then count + 1 else count) [0 ..< 8] count)
      (bitmap s) 0"

definition pmm_get_total_count :: "u32" where
  "pmm_get_total_count = TOTAL_PAGES"

subsection \<open>Abstract view\<close>

definition page_used :: "u8 list \<Rightarrow> nat \<Rightarrow> bool" where
  "page_used bm p \<longleftrightarrow> bit (bm ! (p div 8)) (p mod 8)"

definition pmm_free_pages :: "'z pmm_scheme \<Rightarrow> nat set" where
  "pmm_free_pages s = {p. p < 4096 \<and> \<not> page_used (bitmap s) p}"

definition pmm_wf :: "'z pmm_scheme \<Rightarrow> bool" where
  "pmm_wf s \<longleftrightarrow> length (bitmap s) = 512 \<and> 0 \<notin> pmm_free_pages s"

lemma pmm_view_mem [simp]:
  "pmm_free_pages (s\<lparr>mem := m\<rparr>) = pmm_free_pages s" "pmm_wf (s\<lparr>mem := m\<rparr>) = pmm_wf s"
  by (simp_all add: pmm_free_pages_def pmm_wf_def)

lemma length_BITMAP_SET [simp]: "length (BITMAP_SET p bm) = length bm"
  by (simp add: BITMAP_SET_def)

lemma length_BITMAP_CLEAR [simp]: "length (BITMAP_CLEAR p bm) = length bm"
  by (simp add: BITMAP_CLEAR_def)

lemma same_page: "p div 8 = q div 8 \<Longrightarrow> p mod 8 = q mod 8 \<Longrightarrow> p = (q :: nat)"
  by (metis mult_div_mod_eq)

lemma BITMAP_TEST_page_used: "BITMAP_TEST p bm = page_used bm p"
  by (simp add: BITMAP_TEST_def page_used_def and_single_bit_eq_0)

lemma page_used_BITMAP_SET:
  "p < 8 * length bm \<Longrightarrow> page_used (BITMAP_SET p bm) q \<longleftrightarrow> page_used bm q \<or> q = p"
  by (cases "q div 8 = p div 8")
    (auto simp: page_used_def BITMAP_SET_def bit_simps less_mult_imp_div_less mult.commute
      dest: same_page)

lemma page_used_BITMAP_CLEAR:
  "p < 8 * length bm \<Longrightarrow> page_used (BITMAP_CLEAR p bm) q \<longleftrightarrow> page_used bm q \<and> q \<noteq> p"
  by (cases "q div 8 = p div 8")
    (auto simp: page_used_def BITMAP_CLEAR_def bit_simps less_mult_imp_div_less mult.commute
      dest: same_page)

lemma bit_full_byte: "k < 8 \<Longrightarrow> bit (0xFF :: u8) k"
proof -
  assume "k < 8"
  then have "k \<in> {0, 1, 2, 3, 4, 5, 6, 7}" by auto
  then show ?thesis by auto
qed

lemma pmm_alloc_loop_spec:
  assumes "length bm = 512" and "k \<le> 512" and "\<And>q. q < 8 * k \<Longrightarrow> page_used bm q"
    and "pmm_alloc_loop [k ..< 512] bm = (a, bm')"
  shows "if \<forall>q < 4096. page_used bm q then a = 0 \<and> bm' = bm
    else \<exists>p < 4096. \<not> page_used bm p \<and> (\<forall>q < p. page_used bm q)
           \<and> a = page_addr p \<and> bm' = BITMAP_SET p bm"
  using assms
proof (induction "512 - k" arbitrary: k)
  case 0
  then show ?case by auto
next
  case (Suc n)
  then have k: "k < 512" and upt: "[k ..< 512] = k # [Suc k ..< 512]"
    by (simp_all add: upt_conv_Cons)
  have unused: "bm ! k AND push_bit j 1 = 0 \<longleftrightarrow> \<not> page_used bm (8 * k + j)" if "j < 8" for j
    using that by (simp add: page_used_def and_single_bit_eq_0)
  have full: "page_used bm (8 * k + j)" if "bm ! k = 0xFF" "j < 8" for j
  proof -
    have "page_used bm (8 * k + j) = bit (bm ! k) j" using that(2) by (simp add: page_used_def)
    with that show ?thesis by (simp only: bit_full_byte)
  qed
  show ?case
  proof (cases "\<forall>j < 8. page_used bm (8 * k + j)")
    case True
    then have "find (\<lambda>j. bm ! k AND push_bit j 1 = 0) [0 ..< 8] = None"
      using unused by (auto simp: find_None_iff)
    with Suc.prems upt have rest: "pmm_alloc_loop [Suc k ..< 512] bm = (a, bm')"
      by (auto split: if_splits)
    have "page_used bm q" if "q < 8 * Suc k" for q
    proof (cases "q < 8 * k")
      case False
      then have "page_used bm (8 * k + (q - 8 * k))" using True that by (intro True [rule_format]) simp
      with False show ?thesis by simp
    qed (use Suc.prems(3) in blast)
    with Suc.hyps k rest Suc.prems(1) show ?thesis by (intro Suc.hyps(1) [of "Suc k"]) auto
  next
    case False
    then obtain j where j: "j < 8" "\<not> page_used bm (8 * k + j)"
        "\<And>i. i < j \<Longrightarrow> page_used bm (8 * k + i)"
      using exists_least_iff [of "\<lambda>j. j < 8 \<and> \<not> page_used bm (8 * k + j)"] by fastforce
    have "find (\<lambda>j. bm ! k AND push_bit j 1 = 0) [0 ..< 8] = Some j"
      using j unused by (subst find_Some_iff) (intro exI [of _ j], auto)
    moreover have "bm ! k \<noteq> 0xFF" using full j by blast
    ultimately have res: "a = (of_nat k * 8 + of_nat j) * PAGE_SIZE"
        "bm' = bm[k := bm ! k OR push_bit j 1]"
      using Suc.prems(4) upt by auto
    have "a = page_addr (8 * k + j)" by (simp add: res page_addr_def algebra_simps)
    moreover have "bm' = BITMAP_SET (8 * k + j) bm" using j(1) by (simp add: res BITMAP_SET_def)
    moreover have "page_used bm q" if "q < 8 * k + j" for q
      using Suc.prems(3) [of q] j(3) [of "q - 8 * k"] that by (cases "q < 8 * k") auto
    moreover have "8 * k + j < 4096" using k j(1) by linarith
    ultimately show ?thesis using j(2) by auto
  qed
qed

lemma pmm_free_pages_bound: "pmm_free_pages s \<subseteq> {..< 4096}"
  by (auto simp: pmm_free_pages_def)

lemma finite_pmm_free_pages [simp]: "finite (pmm_free_pages s)"
  using pmm_free_pages_bound finite_subset by blast

lemma pmm_alloc_empty:
  assumes "pmm_wf s" and "pmm_free_pages s = {}"
  shows "pmm_alloc s = (0, s)"
proof -
  obtain a bm where eq: "pmm_alloc_loop [0 ..< 512] (bitmap s) = (a, bm)" by force
  have "a = 0 \<and> bm = bitmap s"
    using pmm_alloc_loop_spec [OF _ _ _ eq] assms
    by (auto simp: pmm_wf_def pmm_free_pages_def split: if_splits)
  with eq assms(1) show ?thesis by (simp add: pmm_alloc_def pmm_wf_def)
qed

lemma pmm_alloc_least:
  assumes "pmm_wf s" and "pmm_free_pages s \<noteq> {}"
  shows "pmm_alloc s = (page_addr (Min (pmm_free_pages s)),
    s\<lparr>bitmap := BITMAP_SET (Min (pmm_free_pages s)) (bitmap s)\<rparr>)"
proof -
  obtain a bm where eq: "pmm_alloc_loop [0 ..< 512] (bitmap s) = (a, bm)" by force
  obtain p where p: "p < 4096" "\<not> page_used (bitmap s) p" "\<forall>q < p. page_used (bitmap s) q"
      "a = page_addr p" "bm = BITMAP_SET p (bitmap s)"
    using pmm_alloc_loop_spec [OF _ _ _ eq] assms
    by (auto simp: pmm_wf_def pmm_free_pages_def split: if_splits)
  then have "Min (pmm_free_pages s) = p"
    by (intro Min_eqI) (auto simp: pmm_free_pages_def not_less [symmetric])
  with eq p assms(1) show ?thesis by (simp add: pmm_alloc_def pmm_wf_def)
qed

lemma pmm_free_pages_BITMAP_SET:
  assumes "length (bitmap s) = 512" and "p < 4096"
  shows "pmm_free_pages (s\<lparr>bitmap := BITMAP_SET p (bitmap s)\<rparr>) = pmm_free_pages s - {p}"
  using assms by (auto simp: pmm_free_pages_def page_used_BITMAP_SET)

lemma pmm_free_pages_BITMAP_CLEAR:
  assumes "length (bitmap s) = 512" and "p < 4096"
  shows "pmm_free_pages (s\<lparr>bitmap := BITMAP_CLEAR p (bitmap s)\<rparr>) = insert p (pmm_free_pages s)"
  using assms by (auto simp: pmm_free_pages_def page_used_BITMAP_CLEAR)

lemma pmm_alloc_free_pages:
  assumes "pmm_wf s" and "pmm_free_pages s \<noteq> {}"
  shows "pmm_free_pages (snd (pmm_alloc s)) = pmm_free_pages s - {Min (pmm_free_pages s)}"
proof -
  have "Min (pmm_free_pages s) \<in> pmm_free_pages s" using assms(2) by (intro Min_in) auto
  then have "Min (pmm_free_pages s) < 4096" by (simp add: pmm_free_pages_def)
  with assms show ?thesis
    by (simp add: pmm_alloc_least pmm_wf_def pmm_free_pages_BITMAP_SET)
qed

lemma pmm_alloc_wf [inv_intros]: "pmm_wf s \<Longrightarrow> pmm_wf (snd (pmm_alloc s))"
proof (cases "pmm_free_pages s = {}")
  case False
  assume s: "pmm_wf s"
  have "0 \<notin> pmm_free_pages (snd (pmm_alloc s))"
    using s by (simp add: pmm_alloc_free_pages [OF s False] pmm_wf_def)
  moreover have "length (bitmap (snd (pmm_alloc s))) = 512"
    using s by (simp add: pmm_alloc_least [OF s False] pmm_wf_def)
  ultimately show ?thesis by (simp add: pmm_wf_def)
qed (simp add: pmm_alloc_empty)

lemma pmm_free_pages_free:
  assumes "pmm_wf s"
  shows "pmm_free_pages (pmm_free addr s) =
    (if 0 < unat addr div 4096 \<and> unat addr div 4096 < 4096
     then insert (unat addr div 4096) (pmm_free_pages s) else pmm_free_pages s)"
  using assms
  by (auto simp: pmm_free_def Let_def pmm_wf_def pmm_free_pages_BITMAP_CLEAR word_less_nat_alt unat_div)

lemma pmm_free_wf [inv_intros]: "pmm_wf s \<Longrightarrow> pmm_wf (pmm_free addr s)"
  using pmm_free_pages_free [of s addr]
  by (simp add: pmm_wf_def) (simp add: pmm_free_def Let_def)

subsection \<open>The page allocator interface\<close>

text \<open>
  The contract of the manager for its clients. \<open>alloc_many\<close> is a client that takes \<open>n\<close>
  pages one after the other, as heap\_init and paging\_init do.
\<close>

fun alloc_many :: "('s \<Rightarrow> u32 \<times> 's) \<Rightarrow> nat \<Rightarrow> 's \<Rightarrow> u32 list \<times> 's" where
  "alloc_many alloc 0 s = ([], s)"
| "alloc_many alloc (Suc n) s =
     (let (a, s') = alloc s; (as, s'') = alloc_many alloc n s' in (a # as, s''))"

locale page_allocator =
  fixes alloc :: "'s \<Rightarrow> u32 \<times> 's"
    and release :: "u32 \<Rightarrow> 's \<Rightarrow> 's"
    and free_pages :: "'s \<Rightarrow> nat set"
    and wf :: "'s \<Rightarrow> bool"
  assumes free_pages_range: "wf s \<Longrightarrow> free_pages s \<subseteq> {0 <..< 4096}"
    and alloc_empty: "wf s \<Longrightarrow> free_pages s = {} \<Longrightarrow> alloc s = (0, s)"
    and alloc_addr: "wf s \<Longrightarrow> free_pages s \<noteq> {} \<Longrightarrow> fst (alloc s) = page_addr (Min (free_pages s))"
    and alloc_free_pages: "wf s \<Longrightarrow> free_pages s \<noteq> {} \<Longrightarrow>
      free_pages (snd (alloc s)) = free_pages s - {Min (free_pages s)}"
    and alloc_wf: "wf s \<Longrightarrow> wf (snd (alloc s))"
    and release_free_pages: "wf s \<Longrightarrow> 0 < p \<Longrightarrow> p < 4096 \<Longrightarrow>
      free_pages (release (page_addr p) s) = insert p (free_pages s)"
    and release_wf: "wf s \<Longrightarrow> wf (release a s)"
begin

lemma finite_free_pages: "wf s \<Longrightarrow> finite (free_pages s)"
  using free_pages_range finite_subset by blast

lemma alloc_page:
  assumes "wf s" and "alloc s = (a, s')" and "a \<noteq> 0"
  obtains p where "p \<in> free_pages s" "0 < p" "p < 4096" "a = page_addr p" "unat a = 4096 * p"
    "free_pages s' = free_pages s - {p}" "wf s'"
proof -
  have ne: "free_pages s \<noteq> {}" using assms alloc_empty by auto
  have p: "Min (free_pages s) \<in> free_pages s"
    using ne assms(1) finite_free_pages by (intro Min_in) auto
  then have range: "0 < Min (free_pages s)" "Min (free_pages s) < 4096"
    using free_pages_range [OF assms(1)] by auto
  have a: "a = page_addr (Min (free_pages s))"
    using alloc_addr [OF assms(1) ne] assms(2) by simp
  then have "unat a = 4096 * Min (free_pages s)" using range by (simp add: unat_page_addr)
  then show ?thesis
    using that [OF p range a] alloc_free_pages [OF assms(1) ne] alloc_wf [OF assms(1)] assms(2) by simp
qed

lemma alloc_zero_iff: "wf s \<Longrightarrow> fst (alloc s) = 0 \<longleftrightarrow> free_pages s = {}"
proof
  assume s: "wf s" and a: "fst (alloc s) = 0"
  show "free_pages s = {}"
  proof (rule ccontr)
    assume ne: "free_pages s \<noteq> {}"
    then have "Min (free_pages s) \<in> {0 <..< 4096}"
      using Min_in [OF finite_free_pages [OF s] ne] free_pages_range [OF s] by blast
    then have "unat (page_addr (Min (free_pages s))) = 4096 * Min (free_pages s)"
      "0 < Min (free_pages s)"
      by (simp_all add: unat_page_addr)
    with alloc_addr [OF s ne] a show False by simp
  qed
qed (simp add: alloc_empty)

lemma alloc_release:
  assumes "wf s" and "alloc s = (a, s')" and "a \<noteq> 0"
  shows "free_pages (release a s') = free_pages s"
  by (rule alloc_page [OF assms]) (simp add: release_free_pages insert_absorb)

lemma alloc_many_pages:
  assumes "wf s" and "n \<le> card (free_pages s)" and "alloc_many alloc n s = (as, s')"
  shows "\<exists>ps. as = map page_addr ps \<and> distinct ps \<and> length ps = n
    \<and> set ps \<subseteq> free_pages s \<and> free_pages s' = free_pages s - set ps \<and> wf s'"
  using assms
proof (induction n arbitrary: s as)
  case 0
  then show ?case by auto
next
  case (Suc n)
  obtain a t where a: "alloc s = (a, t)" by force
  obtain bs where bs: "alloc_many alloc n t = (bs, s')" "as = a # bs"
    using Suc.prems(3) a by (auto split: prod.splits)
  have "a \<noteq> 0"
    using alloc_zero_iff [OF Suc.prems(1)] Suc.prems(2) a by auto
  with Suc.prems(1) a obtain p where p: "p \<in> free_pages s" "a = page_addr p"
      "free_pages t = free_pages s - {p}" "wf t"
    by (rule alloc_page)
  then have "n \<le> card (free_pages t)" using Suc.prems(2) by simp
  from Suc.IH [OF p(4) this bs(1)] obtain ps where
    "bs = map page_addr ps \<and> distinct ps \<and> length ps = n \<and> set ps \<subseteq> free_pages t
      \<and> free_pages s' = free_pages t - set ps \<and> wf s'" by blast
  then show ?case using p bs by (intro exI [of _ "p # ps"]) auto
qed

end

interpretation pages: page_allocator pmm_alloc pmm_free pmm_free_pages pmm_wf
proof unfold_locales
  fix s :: "'a pmm_scheme" and a :: u32 and p :: nat
  assume s: "pmm_wf s"
  show "pmm_free_pages s \<subseteq> {0 <..< 4096}"
    using s pmm_free_pages_bound [of s] by (auto simp: pmm_wf_def intro: gr0I)
  show "pmm_free_pages s = {} \<Longrightarrow> pmm_alloc s = (0, s)" using s by (rule pmm_alloc_empty)
  show "pmm_free_pages s \<noteq> {} \<Longrightarrow> fst (pmm_alloc s) = page_addr (Min (pmm_free_pages s))"
    using s by (simp add: pmm_alloc_least)
  show "pmm_free_pages s \<noteq> {} \<Longrightarrow>
      pmm_free_pages (snd (pmm_alloc s)) = pmm_free_pages s - {Min (pmm_free_pages s)}"
    using s by (rule pmm_alloc_free_pages)
  show "0 < p \<Longrightarrow> p < 4096 \<Longrightarrow> pmm_free_pages (pmm_free (page_addr p) s) = insert p (pmm_free_pages s)"
    using s by (simp add: pmm_free_pages_free unat_page_addr)
  show "pmm_wf (snd (pmm_alloc s))" using s by (rule pmm_alloc_wf)
  show "pmm_wf (pmm_free a s)" using s by (rule pmm_free_wf)
qed

subsection \<open>Initialisation and counting\<close>

lemma page_used_fold_clear:
  assumes "\<forall>p \<in> set ps. p < 8 * length bm"
  shows "page_used (fold (\<lambda>p bm. if skip p then bm else BITMAP_CLEAR p bm) ps bm) q
      \<longleftrightarrow> page_used bm q \<and> \<not> (q \<in> set ps \<and> \<not> skip q)"
  using assms
  by (induction ps arbitrary: bm) (auto simp: page_used_BITMAP_CLEAR)

lemma length_fold_clear [simp]:
  "length (fold (\<lambda>p bm. if skip p then bm else BITMAP_CLEAR p bm) ps bm) = length bm"
  by (induction ps arbitrary: bm) auto

lemma length_fold_CLEAR [simp]: "length (fold BITMAP_CLEAR ps bm) = length bm"
  by (induction ps arbitrary: bm) auto

lemma page_used_replicate: "q < 4096 \<Longrightarrow> page_used (replicate 512 0xFF) q"
proof -
  assume "q < 4096"
  then have "replicate 512 0xFF ! (q div 8) = (0xFF :: u8)" by (simp add: less_mult_imp_div_less)
  moreover have "q mod 8 < 8" by simp
  ultimately show ?thesis by (simp only: page_used_def bit_full_byte)
qed

lemma fold_count: "fold (\<lambda>k c. if P k then c + 1 else c) ks (c :: u32) = c + of_nat (length (filter P ks))"
  by (induction ks arbitrary: c) (auto simp: add.assoc)

lemma card_free_snoc:
  "card {p. p < 8 * length (bm @ [b]) \<and> \<not> page_used (bm @ [b]) p} =
    card {p. p < 8 * length bm \<and> \<not> page_used bm p} + length (filter (\<lambda>k. b AND push_bit k 1 = 0) [0 ..< 8])"
proof -
  let ?A = "{p. p < 8 * length bm \<and> \<not> page_used bm p}"
  let ?B = "(+) (8 * length bm) ` {k. k < 8 \<and> \<not> bit b k}"
  have low: "page_used (bm @ [b]) p = page_used bm p" if "p < 8 * length bm" for p
    using that by (simp add: page_used_def nth_append less_mult_imp_div_less mult.commute)
  have high: "page_used (bm @ [b]) (8 * length bm + k) = bit b k" if "k < 8" for k
    using that by (simp add: page_used_def)
  have "{p. p < 8 * length (bm @ [b]) \<and> \<not> page_used (bm @ [b]) p} = ?A \<union> ?B"
  proof (intro equalityI subsetI)
    fix p assume p: "p \<in> {p. p < 8 * length (bm @ [b]) \<and> \<not> page_used (bm @ [b]) p}"
    show "p \<in> ?A \<union> ?B"
    proof (cases "p < 8 * length bm")
      case False
      then have "p = 8 * length bm + (p - 8 * length bm)" "p - 8 * length bm < 8" using p by auto
      then show ?thesis using p high by (metis (mono_tags, lifting) CollectD CollectI UnI2 imageI)
    qed (use p low in auto)
  qed (use low high in auto)
  moreover have "?A \<inter> ?B = {}" by auto
  moreover have "card ?B = length (filter (\<lambda>k. b AND push_bit k 1 = 0) [0 ..< 8])"
  proof -
    have "{k. k < 8 \<and> \<not> bit b k} = set (filter (\<lambda>k. b AND push_bit k 1 = 0) [0 ..< 8])"
      by (auto simp: and_single_bit_eq_0)
    moreover have "card (set (filter (\<lambda>k. b AND push_bit k 1 = 0) [0 ..< 8])) =
        length (filter (\<lambda>k. b AND push_bit k 1 = 0) [0 ..< 8])"
      by (intro distinct_card distinct_filter distinct_upt)
    moreover have "card ?B = card {k. k < 8 \<and> \<not> bit b k}" by (intro card_image) simp
    ultimately show ?thesis by (simp only:)
  qed
  ultimately show ?thesis by (simp add: card_Un_disjoint)
qed

lemma fold_free_count:
  "fold (\<lambda>b count. fold (\<lambda>k count. if b AND push_bit k 1 = 0 then count + 1 else count) [0 ..< 8] count)
      bm c = (c :: u32) + of_nat (card {p. p < 8 * length bm \<and> \<not> page_used bm p})"
proof (induction bm arbitrary: c rule: rev_induct)
  case (snoc b bm)
  then show ?case by (simp only: card_free_snoc fold_append fold_count fold.simps comp_apply id_apply
      of_nat_add add.assoc)
qed simp

lemma kend_page:
  assumes "unat kernel_end + 4096 < 2 ^ 32"
  shows "unat ((kernel_end + PAGE_SIZE - 1) div PAGE_SIZE) = (unat kernel_end + 4095) div 4096"
proof -
  have "kernel_end + PAGE_SIZE - 1 = kernel_end + 4095" by simp
  moreover have "unat (kernel_end + 4095) = unat kernel_end + 4095"
    using assms by (simp add: unat_add_small)
  ultimately show ?thesis by (simp only: unat_div) simp
qed

lemma pmm_init_free_pages:
  assumes "unat kernel_end + 4096 < 2 ^ 32"
  shows "pmm_free_pages (pmm_init kernel_end s) =
    ({(unat kernel_end + 4095) div 4096 ..< 0x1F0} - {0xA0 .. 0xFF}) \<union> {0x300 ..< 0x1000}"
proof -
  let ?k = "(unat kernel_end + 4095) div 4096"
  let ?skip = "\<lambda>p. 0xA0 \<le> p \<and> p \<le> 0xFF"
  define bm1 where "bm1 = fold (\<lambda>p bm. if ?skip p then bm else BITMAP_CLEAR p bm) [?k ..< 0x1F0]
    (replicate 512 0xFF)"
  have len: "length bm1 = 512" by (simp add: bm1_def)
  have fold2: "fold BITMAP_CLEAR ps bm = fold (\<lambda>p bm. if False then bm else BITMAP_CLEAR p bm) ps bm"
    for ps bm by simp
  have init: "bitmap (pmm_init kernel_end s) =
      fold (\<lambda>p bm. if False then bm else BITMAP_CLEAR p bm) [0x300 ..< 0x1000] bm1"
    by (simp only: pmm_init_def Let_def kend_page [OF assms] bm1_def fold2) simp
  have used1: "page_used bm1 q \<longleftrightarrow> \<not> (q \<in> {?k ..< 0x1F0} \<and> \<not> ?skip q)" if "q < 4096" for q
    unfolding bm1_def using that page_used_replicate [OF that]
    by (subst page_used_fold_clear) auto
  have "page_used (bitmap (pmm_init kernel_end s)) q \<longleftrightarrow>
      \<not> (q \<in> {?k ..< 0x1F0} \<and> \<not> ?skip q) \<and> q \<notin> {0x300 ..< 0x1000}" if "q < 4096" for q
    unfolding init using used1 [OF that] that len
    by (subst page_used_fold_clear) auto
  then show ?thesis by (auto simp: pmm_free_pages_def)
qed

lemma length_bitmap_pmm_init: "length (bitmap (pmm_init kernel_end s)) = 512"
  by (simp add: pmm_init_def Let_def)

lemma pmm_init_wf [inv_intros]:
  assumes "kernel_end \<noteq> 0" and "unat kernel_end + 4096 < 2 ^ 32"
  shows "pmm_wf (pmm_init kernel_end s)"
proof -
  have "0 < unat kernel_end" using assms(1) by (simp add: unat_gt_0)
  then have "0 < (unat kernel_end + 4095) div 4096" by simp
  then show ?thesis
    unfolding pmm_wf_def pmm_init_free_pages [OF assms(2)] length_bitmap_pmm_init by simp
qed

lemma mem_pmm_init [simp]: "mem (pmm_init kernel_end s) = mem s"
  by (simp add: pmm_init_def Let_def)

text \<open>The state after \<open>pmm_init\<close> for the kernel end the memory map in the README gives.\<close>

definition boot_pmm :: pmm where
  "boot_pmm = pmm_init 0x127000 \<lparr>mem = (\<lambda>_. 0), bitmap = []\<rparr>"

lemma boot_pmm_wf: "pmm_wf boot_pmm"
  unfolding boot_pmm_def by (rule pmm_init_wf) simp_all

lemma boot_pmm_free_pages: "pmm_free_pages boot_pmm = {0x127 ..< 0x1F0} \<union> {0x300 ..< 0x1000}"
  unfolding boot_pmm_def by (subst pmm_init_free_pages) auto

subsection \<open>Properties\<close>

text \<open>
  C22: \<open>pmm_alloc\<close> takes the lowest free page: it returns its address, marks it used and changes
  nothing else; it returns 0 exactly when no page is free, and then changes nothing at all.
\<close>

theorem pmm_alloc_first_fit:
  assumes "pmm_wf s"
  shows "case pmm_alloc s of (addr, s') \<Rightarrow>
    (if pmm_free_pages s = {} then addr = 0 \<and> s' = s
     else addr = page_addr (Min (pmm_free_pages s)) \<and> addr \<noteq> 0
       \<and> pmm_free_pages s' = pmm_free_pages s - {Min (pmm_free_pages s)})
    \<and> mem s' = mem s \<and> pmm_wf s'"
proof (cases "pmm_free_pages s = {}")
  case True
  with assms show ?thesis by (simp add: pmm_alloc_empty)
next
  case False
  have "fst (pmm_alloc s) \<noteq> 0" using pages.alloc_zero_iff [OF assms] False by simp
  then show ?thesis
    using pmm_alloc_free_pages [OF assms False] pmm_alloc_wf [OF assms] False
    by (simp add: pmm_alloc_least [OF assms False])
qed

theorem pmm_alloc_first_fit_witness:
  "pmm_wf boot_pmm \<and> fst (pmm_alloc boot_pmm) = page_addr (Min (pmm_free_pages boot_pmm))
    \<and> pmm_free_pages boot_pmm \<noteq> {}"
  using pmm_alloc_first_fit [OF boot_pmm_wf] boot_pmm_wf boot_pmm_free_pages by auto

text \<open>
  C23: after \<open>pmm_init\<close> the free pages are exactly those from the end of the kernel image to the
  kernel stack at 0x1F0000 outside the BIOS area, and those from 0x300000 to 16 MB; the free count
  the kernel prints is the number of these pages.
\<close>

theorem pmm_init_frees_exactly:
  assumes "kernel_end \<noteq> 0" and "unat kernel_end + 4096 < 2 ^ 32"
  shows "pmm_wf (pmm_init kernel_end s)
    \<and> pmm_free_pages (pmm_init kernel_end s) =
        {p. (unat kernel_end \<le> 4096 * p \<and> 4096 * p < 0x1F0000 \<and> \<not> (0xA0000 \<le> 4096 * p \<and> 4096 * p \<le> 0xFFFFF))
          \<or> (0x300000 \<le> 4096 * p \<and> 4096 * p < 0x1000000)}"
proof -
  have "(unat kernel_end + 4095) div 4096 \<le> p \<longleftrightarrow> unat kernel_end \<le> 4096 * p" for p
    by (simp add: less_Suc_eq_le [symmetric] div_less_iff_less_mult) arith
  then show ?thesis
    using pmm_init_wf [OF assms] by (auto simp: pmm_init_free_pages [OF assms(2)])
qed

theorem pmm_init_frees_exactly_witness:
  "(0x127000 :: u32) \<noteq> 0 \<and> unat (0x127000 :: u32) + 4096 < 2 ^ 32
    \<and> pmm_wf (pmm_init 0x127000 boot_pmm)"
  using pmm_init_frees_exactly [of "0x127000" boot_pmm] by simp

text \<open>
  \<open>pmm_get_free_count\<close> is the number of free pages, and freeing the page just allocated
  restores the set of free pages.
\<close>

theorem pmm_count_and_free:
  assumes "pmm_wf s"
  shows "pmm_get_free_count s = of_nat (card (pmm_free_pages s))
    \<and> (\<forall>a s'. pmm_alloc s = (a, s') \<and> a \<noteq> 0 \<longrightarrow>
        pmm_free_pages (pmm_free a s') = pmm_free_pages s
        \<and> pmm_get_free_count s' = pmm_get_free_count s - 1)"
proof -
  have count: "pmm_get_free_count t = of_nat (card (pmm_free_pages t))" if "pmm_wf t" for t :: "'a pmm_scheme"
    using that unfolding pmm_get_free_count_def fold_free_count
    by (simp add: pmm_free_pages_def pmm_wf_def)
  have "pmm_get_free_count s' = pmm_get_free_count s - 1" if a: "pmm_alloc s = (a, s')" "a \<noteq> 0" for a s'
  proof -
    obtain p where p: "p \<in> pmm_free_pages s" "pmm_free_pages s' = pmm_free_pages s - {p}" "pmm_wf s'"
      using assms a by (rule pages.alloc_page)
    then have "card (pmm_free_pages s) = Suc (card (pmm_free_pages s'))"
      using card_Suc_Diff1 [of "pmm_free_pages s" p] by simp
    then show ?thesis by (simp add: count [OF assms] count [OF p(3)])
  qed
  then show ?thesis using count [OF assms] pages.alloc_release [OF assms] by blast
qed

theorem pmm_count_and_free_witness:
  "pmm_wf boot_pmm \<and> pmm_get_free_count boot_pmm = 3529"
  using pmm_count_and_free [OF boot_pmm_wf] boot_pmm_wf
  by (simp add: boot_pmm_free_pages card_Un_disjoint)

end
