(* ===== verification/Kheap.thy ===== *)
theory Kheap
  imports Pmm
begin

text \<open>
  The kernel heap (kernel/heap.c): a first-fit allocator whose free blocks form an address-sorted
  linked list of headers in memory. Loops over the list are partial functions: \<open>None\<close> stands for
  a loop that does not end (a cyclic list). The abstract view is the list of free blocks and the set
  of blocks in use; every operation is shown to refine an operation on these lists and to return.
\<close>

subsection \<open>State and operations\<close>

record kheap = pmm +
  free_list :: u32 \<comment> \<open>static block_header_t *free_list\<close>
  heap_pages :: u32 \<comment> \<open>static uint32_t heap_pages\<close>

abbreviation (input) HEADER_SIZE :: u32 where "HEADER_SIZE \<equiv> 16"
abbreviation (input) MIN_ALLOC :: u32 where "MIN_ALLOC \<equiv> 16"
abbreviation (input) ALIGN :: u32 where "ALIGN \<equiv> 16"
abbreviation (input) INITIAL_PAGES :: nat where "INITIAL_PAGES \<equiv> 16"

text \<open>The fields of \<open>block_header_t\<close> at the address of a block.\<close>

definition hdr_size :: "memory \<Rightarrow> u32 \<Rightarrow> u32" where "hdr_size m b = ld32 m b"
definition hdr_is_free :: "memory \<Rightarrow> u32 \<Rightarrow> u32" where "hdr_is_free m b = ld32 m (b + 4)"
definition hdr_next :: "memory \<Rightarrow> u32 \<Rightarrow> u32" where "hdr_next m b = ld32 m (b + 8)"
definition set_size :: "u32 \<Rightarrow> u32 \<Rightarrow> memory \<Rightarrow> memory" where "set_size b v m = st32 m b v"
definition set_is_free :: "u32 \<Rightarrow> u32 \<Rightarrow> memory \<Rightarrow> memory" where "set_is_free b v m = st32 m (b + 4) v"
definition set_next :: "u32 \<Rightarrow> u32 \<Rightarrow> memory \<Rightarrow> memory" where "set_next b v m = st32 m (b + 8) v"

partial_function (option) list_insert_walk :: "memory \<Rightarrow> u32 \<Rightarrow> u32 \<Rightarrow> u32 option" where
  "list_insert_walk m block cur =
    (if hdr_next m cur \<noteq> 0 \<and> hdr_next m cur < block
     then list_insert_walk m block (hdr_next m cur) else Some cur)"

definition list_insert :: "u32 \<Rightarrow> 'z kheap_scheme \<Rightarrow> 'z kheap_scheme option" where
  "list_insert block s =
    (let m = set_is_free block 1 (mem s)
     in if free_list s = 0 \<or> block < free_list s
        then Some (s\<lparr>mem := set_next block (free_list s) m, free_list := block\<rparr>)
        else do {
          cur \<leftarrow> list_insert_walk m block (free_list s);
          Some (s\<lparr>mem := set_next cur block (set_next block (hdr_next m cur) m)\<rparr>)
        })"

definition coalesce_forward :: "u32 \<Rightarrow> memory \<Rightarrow> memory" where
  "coalesce_forward block m =
    (if hdr_next m block = 0 then m
     else let block_end = block + HEADER_SIZE + hdr_size m block
          in if block_end = hdr_next m block \<and> hdr_is_free m (hdr_next m block) \<noteq> 0
             then let m = set_size block (hdr_size m block + (HEADER_SIZE + hdr_size m (hdr_next m block))) m
                  in set_next block (hdr_next m (hdr_next m block)) m
             else m)"

text \<open>The loop \<open>while (cur) { coalesce_forward(cur); cur = cur->next; }\<close> of heap\_add\_page and kfree.\<close>

partial_function (option) coalesce_all :: "u32 \<Rightarrow> memory \<Rightarrow> memory option" where
  "coalesce_all cur m =
    (if cur = 0 then Some m
     else coalesce_all (hdr_next (coalesce_forward cur m) cur) (coalesce_forward cur m))"

definition heap_add_page :: "'z kheap_scheme \<Rightarrow> (u32 \<times> 'z kheap_scheme) option" where
  "heap_add_page s =
    (let (page, s) = pmm_alloc s
     in if page = 0 then Some (0, s)
        else let block = page;
                 m = set_next block 0 (set_is_free block 1 (set_size block (PAGE_SIZE - HEADER_SIZE) (mem s)));
                 s = s\<lparr>mem := m, heap_pages := heap_pages s + 1\<rparr>
             in do {
               s \<leftarrow> list_insert block s;
               m \<leftarrow> coalesce_all (free_list s) (mem s);
               Some (block, s\<lparr>mem := m\<rparr>)
             })"

fun heap_init_loop :: "nat \<Rightarrow> 'z kheap_scheme \<Rightarrow> 'z kheap_scheme option" where
  "heap_init_loop 0 s = Some s"
| "heap_init_loop (Suc i) s = do { (_, s) \<leftarrow> heap_add_page s; heap_init_loop i s }"

definition heap_init :: "'z kheap_scheme \<Rightarrow> 'z kheap_scheme option" where
  "heap_init s = heap_init_loop INITIAL_PAGES s"

text \<open>Splitting the block found and taking it off the list (the body of the search loop).\<close>

definition take_block :: "u32 \<Rightarrow> u32 \<Rightarrow> u32 \<Rightarrow> 'z kheap_scheme \<Rightarrow> u32 \<times> 'z kheap_scheme" where
  "take_block sz prev cur s =
    (let m = mem s;
         m = (if hdr_size m cur \<ge> sz + HEADER_SIZE + MIN_ALLOC
              then let new_block = cur + HEADER_SIZE + sz;
                       m = set_size new_block (hdr_size m cur - sz - HEADER_SIZE) m;
                       m = set_is_free new_block 1 m;
                       m = set_next new_block (hdr_next m cur) m;
                       m = set_next cur new_block m
                   in set_size cur sz m
              else m);
         m = set_is_free cur 0 m;
         s = (if prev \<noteq> 0 then s\<lparr>mem := set_next prev (hdr_next m cur) m\<rparr>
              else s\<lparr>mem := m, free_list := hdr_next m cur\<rparr>)
     in (cur + HEADER_SIZE, s\<lparr>mem := set_next cur 0 (mem s)\<rparr>))"

partial_function (option) first_fit ::
    "u32 \<Rightarrow> u32 \<Rightarrow> u32 \<Rightarrow> 'z kheap_scheme \<Rightarrow> (u32 option \<times> 'z kheap_scheme) option" where
  "first_fit sz prev cur s =
    (if cur = 0 then Some (None, s)
     else if hdr_is_free (mem s) cur \<noteq> 0 \<and> hdr_size (mem s) cur \<ge> sz
          then Some (apfst Some (take_block sz prev cur s))
          else first_fit sz cur (hdr_next (mem s) cur) s)"

fun grow_loop :: "nat \<Rightarrow> 'z kheap_scheme \<Rightarrow> (bool \<times> 'z kheap_scheme) option" where
  "grow_loop 0 s = Some (True, s)"
| "grow_loop (Suc i) s = do {
     (block, s) \<leftarrow> heap_add_page s;
     if block = 0 then Some (False, s) else grow_loop i s
   }"

definition kmalloc_size :: "u32 \<Rightarrow> u32" where
  "kmalloc_size sz =
    (let sz = (sz + ALIGN - 1) AND NOT (ALIGN - 1)
     in if sz < MIN_ALLOC then MIN_ALLOC else sz)"

definition kmalloc :: "u32 \<Rightarrow> 'z kheap_scheme \<Rightarrow> (u32 \<times> 'z kheap_scheme) option" where
  "kmalloc sz s =
    (if sz = 0 then Some (0, s)
     else let sz = kmalloc_size sz
          in do {
            (found, s) \<leftarrow> first_fit sz 0 (free_list s) s;
            case found of
              Some p \<Rightarrow> Some (p, s)
            | None \<Rightarrow> do {
                let pages_needed = (sz + HEADER_SIZE + PAGE_SIZE - 1) div PAGE_SIZE;
                (ok, s) \<leftarrow> grow_loop (unat pages_needed) s;
                if \<not> ok then Some (0, s)
                else do {
                  (found, s) \<leftarrow> first_fit sz 0 (free_list s) s;
                  Some (case found of Some p \<Rightarrow> p | None \<Rightarrow> 0, s)
                }
              }
          })"

definition kfree :: "u32 \<Rightarrow> 'z kheap_scheme \<Rightarrow> 'z kheap_scheme option" where
  "kfree ptr s =
    (if ptr = 0 then Some s
     else let block = ptr - HEADER_SIZE
          in do {
            s \<leftarrow> list_insert block s;
            m \<leftarrow> coalesce_all (free_list s) (mem s);
            Some (s\<lparr>mem := m\<rparr>)
          })"

record heap_stats =
  total_bytes :: u32
  free_bytes :: u32
  used_bytes :: u32
  num_free_blocks :: u32
  num_pages :: u32

partial_function (option) heap_stats_walk :: "memory \<Rightarrow> u32 \<Rightarrow> u32 \<Rightarrow> u32 \<Rightarrow> (u32 \<times> u32) option" where
  "heap_stats_walk m cur bytes blocks =
    (if cur = 0 then Some (bytes, blocks)
     else if hdr_is_free m cur \<noteq> 0
          then heap_stats_walk m (hdr_next m cur) (bytes + hdr_size m cur) (blocks + 1)
          else heap_stats_walk m (hdr_next m cur) bytes blocks)"

definition heap_get_stats :: "'z kheap_scheme \<Rightarrow> heap_stats option" where
  "heap_get_stats s = do {
     (bytes, blocks) \<leftarrow> heap_stats_walk (mem s) (free_list s) 0 0;
     Some \<lparr>total_bytes = heap_pages s * PAGE_SIZE, free_bytes = bytes,
       used_bytes = heap_pages s * PAGE_SIZE - bytes, num_free_blocks = blocks,
       num_pages = heap_pages s\<rparr>
   }"

subsection \<open>Headers in memory\<close>

definition aligned16 :: "u32 \<Rightarrow> bool" where
  "aligned16 a \<longleftrightarrow> 16 dvd unat a"

lemma aligned16_offset:
  assumes "aligned16 a" and "k \<in> {0, 4, 8, 12}"
  shows "unat (a + k) = unat a + unat k" and "aligned4 (a + k)"
proof -
  obtain q where q: "unat a = 16 * q" using assms(1) by (auto simp: aligned16_def elim: dvdE)
  have k: "unat k \<in> {0, 4, 8, 12}" using assms(2) by auto
  have "16 * q < 4294967296" using unat_u32_less [of a] q by simp
  then have "unat a + unat k < 2 ^ 32" using q k by auto
  then show add: "unat (a + k) = unat a + unat k" by (intro unat_add_small) simp
  show "aligned4 (a + k)" unfolding aligned4_def add q using k by auto
qed

lemma aligned16_offset_eq:
  assumes "aligned16 a" and "aligned16 b" and "i \<in> {0, 4, 8, 12}" and "j \<in> {0, 4, 8, 12}"
  shows "a + i = b + j \<longleftrightarrow> a = b \<and> i = j"
proof
  assume "a + i = b + j"
  then have "unat a + unat i = unat b + unat j"
    using aligned16_offset(1) [OF assms(1,3)] aligned16_offset(1) [OF assms(2,4)] by simp
  moreover obtain p q where "unat a = 16 * p" "unat b = 16 * q"
    using assms(1,2) by (auto simp: aligned16_def elim!: dvdE)
  ultimately have "unat a = unat b \<and> unat i = unat j" using assms(3,4) by auto presburger+
  then show "a = b \<and> i = j" by (simp add: u32_eq_unat)
qed auto

lemma hdr_mem_simps [mem_simps]:
  assumes "aligned16 a" and "aligned16 b"
  shows "hdr_size (set_size b v m) a = (if a = b then v else hdr_size m a)"
    and "hdr_size (set_is_free b v m) a = hdr_size m a"
    and "hdr_size (set_next b v m) a = hdr_size m a"
    and "hdr_is_free (set_size b v m) a = hdr_is_free m a"
    and "hdr_is_free (set_is_free b v m) a = (if a = b then v else hdr_is_free m a)"
    and "hdr_is_free (set_next b v m) a = hdr_is_free m a"
    and "hdr_next (set_size b v m) a = hdr_next m a"
    and "hdr_next (set_is_free b v m) a = hdr_next m a"
    and "hdr_next (set_next b v m) a = (if a = b then v else hdr_next m a)"
  using aligned16_offset(2) [OF assms(1)] aligned16_offset(2) [OF assms(2)]
    aligned16_offset_eq [OF assms] aligned16_offset_eq [OF assms, of 0] aligned16_offset_eq [OF assms, of _ 0]
    aligned16_offset(2) [OF assms(1), of 0] aligned16_offset(2) [OF assms(2), of 0]
  by (simp_all add: hdr_size_def hdr_is_free_def hdr_next_def set_size_def set_is_free_def set_next_def ram.ld_st)

subsection \<open>Blocks\<close>

type_synonym block = "u32 \<times> u32" \<comment> \<open>address of the header, usable size\<close>

fun block_end :: "block \<Rightarrow> nat" where
  "block_end (a, n) = unat a + 16 + unat n"

fun block_ok :: "block \<Rightarrow> bool" where
  "block_ok (a, n) \<longleftrightarrow> 0 < unat a \<and> 16 dvd unat a \<and> 16 dvd unat n \<and> 16 \<le> unat n
     \<and> unat a + 16 + unat n \<le> 2 ^ 24"

definition apart :: "block \<Rightarrow> block \<Rightarrow> bool" where
  "apart b c \<longleftrightarrow> block_end b \<le> unat (fst c) \<or> block_end c \<le> unat (fst b)"

definition blocks_ok :: "block list \<Rightarrow> bool" where
  "blocks_ok bs \<longleftrightarrow> list_all block_ok bs \<and> sorted_wrt (\<lambda>b c. block_end b \<le> unat (fst c)) bs"

definition outside :: "block list \<Rightarrow> u32 \<Rightarrow> bool" where
  "outside bs x \<longleftrightarrow> (\<forall>b \<in> set bs. unat x < unat (fst b) \<or> block_end b \<le> unat x)"

text \<open>Only bytes inside the blocks \<open>bs\<close> may differ.\<close>

definition frame :: "block list \<Rightarrow> memory \<Rightarrow> memory \<Rightarrow> bool" where
  "frame bs m m' \<longleftrightarrow> (\<forall>x. outside bs x \<longrightarrow> m' x = m x)"

fun chain :: "memory \<Rightarrow> u32 \<Rightarrow> block list \<Rightarrow> bool" where
  "chain m p [] \<longleftrightarrow> p = 0"
| "chain m p ((a, n) # bs) \<longleftrightarrow> p = a \<and> a \<noteq> 0 \<and> hdr_size m a = n \<and> hdr_is_free m a = 1
     \<and> chain m (hdr_next m a) bs"

lemma block_ok_aligned [simp]: "block_ok (a, n) \<Longrightarrow> aligned16 a"
  by (simp add: aligned16_def)

lemma apart_sym: "apart b c \<longleftrightarrow> apart c b"
  by (auto simp: apart_def)

lemma blocks_ok_Cons: "blocks_ok ((a, n) # bs) \<longleftrightarrow>
    block_ok (a, n) \<and> (\<forall>c \<in> set bs. unat a + 16 + unat n \<le> unat (fst c)) \<and> blocks_ok bs"
  by (auto simp: blocks_ok_def)

lemma blocks_ok_Nil [simp]: "blocks_ok []"
  by (simp add: blocks_ok_def)

lemma blocks_ok_member: "blocks_ok bs \<Longrightarrow> b \<in> set bs \<Longrightarrow> block_ok b"
  by (simp add: blocks_ok_def list_all_iff)

lemma frame_refl [simp]: "frame bs m m"
  by (simp add: frame_def)

lemma frame_trans: "frame bs m m' \<Longrightarrow> frame cs m' m'' \<Longrightarrow>
    (\<And>x. outside ds x \<Longrightarrow> outside bs x \<and> outside cs x) \<Longrightarrow> frame ds m m''"
  by (auto simp: frame_def)

lemma frame_mono: "frame bs m m' \<Longrightarrow> (\<And>x. outside ds x \<Longrightarrow> outside bs x) \<Longrightarrow> frame ds m m'"
  by (auto simp: frame_def)

lemma ld32_cong:
  assumes "\<And>k. k < 4 \<Longrightarrow> m' (a + k) = m (a + k)"
  shows "ld32 m' a = ld32 m a"
  using assms [of 0] assms [of 1] assms [of 2] assms [of 3] by (simp add: ld32_def)

lemma aligned16_room: "aligned16 a \<Longrightarrow> unat a + 16 \<le> 4294967296"
proof -
  assume "aligned16 a"
  then obtain q where q: "unat a = 16 * q" by (auto simp: aligned16_def elim: dvdE)
  have "16 * q < 4294967296" using unat_u32_less [of a] unfolding q .
  then show ?thesis unfolding q by simp
qed

lemma header_byte:
  assumes "aligned16 a" and "k < 16"
  shows "unat (a + k) = unat a + unat k"
proof -
  obtain q where q: "unat a = 16 * q" using assms(1) by (auto simp: aligned16_def elim: dvdE)
  have k: "unat k < 16" using assms(2) by (simp add: word_less_nat_alt)
  have "16 * q < 4294967296" using unat_u32_less [of a] q by simp
  then have "unat a + unat k < 2 ^ 32" using q k by auto
  then show ?thesis by (intro unat_add_small) simp
qed

text \<open>A frame around other blocks keeps the header of a block.\<close>

lemma frame_header:
  assumes "frame bs m m'" and "aligned16 a" and "\<forall>b \<in> set bs. unat a + 16 \<le> unat (fst b) \<or> block_end b \<le> unat a"
  shows "hdr_size m' a = hdr_size m a" and "hdr_is_free m' a = hdr_is_free m a"
    and "hdr_next m' a = hdr_next m a"
proof -
  have byte: "m' (a + k) = m (a + k)" if "k < 16" for k
  proof -
    have "unat k < 16" using that by (simp add: word_less_nat_alt)
    then have "outside bs (a + k)"
      using assms(3) header_byte [OF assms(2) that] by (force simp: outside_def)
    with assms(1) show ?thesis by (simp add: frame_def)
  qed
  have "ld32 m' (a + j) = ld32 m (a + j)" if "j \<in> {0, 4, 8}" for j
  proof (rule ld32_cong)
    fix k :: u32 assume "k < 4"
    then have "j + k < 16" using that by (auto simp: word_less_nat_alt unat_add_small)
    then show "m' (a + j + k) = m (a + j + k)" using byte [of "j + k"] by (simp add: add.assoc)
  qed
  from this [of 0] this [of 4] this [of 8]
  show "hdr_size m' a = hdr_size m a" "hdr_is_free m' a = hdr_is_free m a"
    "hdr_next m' a = hdr_next m a"
    by (simp_all add: hdr_size_def hdr_is_free_def hdr_next_def)
qed

text \<open>Writing a header of one of the blocks stays inside the frame.\<close>

lemma frame_set:
  assumes "aligned16 a" and "\<exists>b \<in> set bs. unat (fst b) \<le> unat a \<and> unat a + 16 \<le> block_end b"
  shows "frame bs m (set_size a v m)" and "frame bs m (set_is_free a v m)" and "frame bs m (set_next a v m)"
proof -
  have "st32 m (a + j) v x = m x" if x: "outside bs x" and j: "j \<in> {0, 4, 8}" for x j
  proof -
    have "\<not> (unat a \<le> unat x \<and> unat x < unat a + 16)"
      using assms(2) x by (force simp: outside_def)
    moreover have "unat (a + j) = unat a + unat j" "unat j + 4 \<le> 16"
      using aligned16_offset(1) [OF assms(1), of j] j by auto
    ultimately have "4 \<le> unat (x - (a + j))"
      using unat_u32_less [of x] aligned16_room [OF assms(1)]
      by (auto simp: unat_sub_if' word_le_nat_alt)
    then show ?thesis by (intro st32_other) (simp add: word_le_nat_alt)
  qed
  from this [of _ 0] this [of _ 4] this [of _ 8]
  show "frame bs m (set_size a v m)" "frame bs m (set_is_free a v m)" "frame bs m (set_next a v m)"
    by (simp_all add: frame_def set_size_def set_is_free_def set_next_def)
qed

lemma chain_cong:
  assumes "chain m p bs"
    and "\<And>a n. (a, n) \<in> set bs \<Longrightarrow> hdr_size m' a = hdr_size m a \<and> hdr_is_free m' a = hdr_is_free m a
      \<and> hdr_next m' a = hdr_next m a"
  shows "chain m' p bs"
  using assms
proof (induction bs arbitrary: p)
  case (Cons b bs)
  obtain a n where b: "b = (a, n)" by force
  have "chain m' (hdr_next m a) bs" using Cons.prems b by (intro Cons.IH) auto
  then show ?case using Cons.prems(1) Cons.prems(2) [of a n] b by simp
qed simp

subsection \<open>The operations on lists of blocks\<close>

fun insert_block :: "block \<Rightarrow> block list \<Rightarrow> block list" where
  "insert_block b [] = [b]"
| "insert_block b (c # cs) = (if fst b < fst c then b # c # cs else c # insert_block b cs)"

fun coalesce :: "block list \<Rightarrow> block list" where
  "coalesce [] = []"
| "coalesce [b] = [b]"
| "coalesce ((a, n) # (b, k) # bs) =
     (if unat a + 16 + unat n = unat b then (a, n + (16 + k)) # coalesce bs
      else (a, n) # coalesce ((b, k) # bs))"

fun fit :: "u32 \<Rightarrow> block list \<Rightarrow> (block \<times> block list) option" where
  "fit sz [] = None"
| "fit sz ((a, n) # bs) =
     (if sz \<le> n then
        if unat sz + 32 \<le> unat n then Some ((a, sz), (a + 16 + sz, n - sz - 16) # bs)
        else Some ((a, n), bs)
      else map_option (apsnd (Cons (a, n))) (fit sz bs))"

lemma set_insert_block [simp]: "set (insert_block b bs) = insert b (set bs)"
  by (induction bs) auto

lemma fst_less: "fst b < fst c \<longleftrightarrow> unat (fst b) < unat (fst c)" for b c :: block
  by (simp add: word_less_nat_alt)

lemma blocks_ok_insert_block:
  assumes "blocks_ok bs" and "block_ok b" and "\<forall>c \<in> set bs. apart b c"
  shows "blocks_ok (insert_block b bs)"
  using assms
proof (induction bs)
  case Nil
  then show ?case by (simp add: blocks_ok_def)
next
  case (Cons c cs)
  obtain a n where c: "c = (a, n)" by force
  obtain a' n' where b: "b = (a', n')" by force
  from Cons.prems have ap: "apart b c" "\<forall>c \<in> set cs. apart b c" by auto
  show ?case
  proof (cases "fst b < fst c")
    case True
    have "block_end b \<le> unat (fst c)" using True ap(1) by (auto simp: apart_def word_less_nat_alt c b)
    then show ?thesis using Cons.prems True by (auto simp: blocks_ok_Cons c b)
  next
    case False
    have "block_end c \<le> unat (fst b)"
      using False ap(1) Cons.prems(2) by (auto simp: apart_def word_less_nat_alt c b)
    then show ?thesis using Cons False ap by (auto simp: blocks_ok_Cons c b)
  qed
qed

lemma blocks_ok_tail:
  assumes "blocks_ok ((p, n) # bs)" and "d \<in> fst ` set bs"
  shows "aligned16 d" and "p < d" and "d \<noteq> 0"
proof -
  obtain j where d: "(d, j) \<in> set bs" using assms(2) by auto
  then have "block_ok (d, j)" using assms(1) by (intro blocks_ok_member [of "(p, n) # bs"]) auto
  then show "aligned16 d" "d \<noteq> 0" by (auto simp: aligned16_def)
  have "unat p + 16 + unat n \<le> unat d" using assms(1) d by (force simp: blocks_ok_Cons)
  then show "p < d" by (simp add: word_less_nat_alt)
qed

lemma list_insert_walk_chain:
  assumes "chain m p ((p, n) # bs)" and "blocks_ok ((p, n) # bs)" and "block_ok (b, k)"
    and "p < b" and "b \<notin> fst ` set bs" and "hdr_size m b = k" and "hdr_is_free m b = 1"
  shows "\<exists>c. list_insert_walk m b p = Some c \<and> c \<in> insert p (fst ` set bs)
    \<and> chain (set_next c b (set_next b (hdr_next m c) m)) p ((p, n) # insert_block (b, k) bs)"
  using assms
proof (induction bs arbitrary: p n)
  case Nil
  then have "hdr_next m p = 0" by simp
  then have "list_insert_walk m b p = Some p" by (subst list_insert_walk.simps) simp
  with Nil show ?case by (auto simp: mem_simps blocks_ok_Cons aligned16_def)
next
  case (Cons c cs)
  obtain a l where c: "c = (a, l)" by force
  have al: "aligned16 p" "aligned16 b" "aligned16 a"
    using Cons.prems(2,3) by (auto simp: blocks_ok_Cons c aligned16_def)
  have next_p: "hdr_next m p = a" and a0: "a \<noteq> 0" and tl: "chain m a ((a, l) # cs)"
    using Cons.prems(1) by (auto simp: c)
  have pa: "p < a" "p \<noteq> b" using Cons.prems(2,4) by (auto simp: blocks_ok_Cons c word_less_nat_alt)
  show ?case
  proof (cases "a < b")
    case True
    then have walk: "list_insert_walk m b p = list_insert_walk m b a"
      using next_p a0 by (subst list_insert_walk.simps) simp
    have "blocks_ok ((a, l) # cs)" using Cons.prems(2) by (simp add: blocks_ok_Cons c)
    from Cons.IH [OF tl this Cons.prems(3) True] Cons.prems(5-7) obtain d where
      d: "list_insert_walk m b a = Some d" "d \<in> insert a (fst ` set cs)"
        "chain (set_next d b (set_next b (hdr_next m d) m)) a ((a, l) # insert_block (b, k) cs)"
      by (auto simp: c)
    have "d \<noteq> p" and "aligned16 d"
      using d(2) blocks_ok_tail [OF Cons.prems(2), of d] by (auto simp: c)
    then have "chain (set_next d b (set_next b (hdr_next m d) m)) p ((p, n) # (a, l) # insert_block (b, k) cs)"
      using d(3) Cons.prems(1) al pa by (auto simp: mem_simps next_p)
    then show ?thesis using walk d True by (auto simp: c)
  next
    case False
    then have ba: "b < a" using Cons.prems(5) by (force simp: c)
    have "list_insert_walk m b p = Some p"
      using False next_p by (subst list_insert_walk.simps) simp
    moreover have "chain (set_next p b (set_next b a m)) a ((a, l) # cs)"
    proof (rule chain_cong [OF tl])
      fix d j assume "(d, j) \<in> set ((a, l) # cs)"
      then have "d \<in> fst ` set (c # cs)" by (force simp: c)
      then have "aligned16 d \<and> d \<noteq> p \<and> d \<noteq> b"
        using Cons.prems(5) blocks_ok_tail [OF Cons.prems(2), of d] by auto
      then show "hdr_size (set_next p b (set_next b a m)) d = hdr_size m d \<and>
        hdr_is_free (set_next p b (set_next b a m)) d = hdr_is_free m d \<and>
        hdr_next (set_next p b (set_next b a m)) d = hdr_next m d"
        using al by (simp add: mem_simps)
    qed
    ultimately show ?thesis
      using Cons.prems al pa ba by (auto simp: c mem_simps next_p word_less_nat_alt)
  qed
qed

lemma apart_distinct:
  assumes "\<forall>c \<in> set bs. apart (b, k) c" and "block_ok (b, k)" and "blocks_ok bs"
  shows "b \<notin> fst ` set bs"
proof
  assume "b \<in> fst ` set bs"
  then obtain j where j: "(b, j) \<in> set bs" by auto
  with assms(1) have "apart (b, k) (b, j)" by blast
  then show False by (simp add: apart_def)
qed

lemma chain_set_other:
  assumes "chain m p bs" and "blocks_ok bs" and "aligned16 b" and "b \<notin> fst ` set bs"
  shows "chain (set_size b v m) p bs" and "chain (set_is_free b v m) p bs"
    and "chain (set_next b v m) p bs"
proof -
  have "aligned16 d \<and> d \<noteq> b" if "(d, j) \<in> set bs" for d j
    using blocks_ok_member [OF assms(2) that] assms(4) that by (force simp: aligned16_def)
  then show "chain (set_size b v m) p bs" "chain (set_is_free b v m) p bs"
    "chain (set_next b v m) p bs"
    using assms(3) by (auto intro!: chain_cong [OF assms(1)] simp: mem_simps)
qed

lemma frame_own: "block_ok (a, n) \<Longrightarrow> (a, n) \<in> set bs \<Longrightarrow>
    \<exists>b \<in> set bs. unat (fst b) \<le> unat a \<and> unat a + 16 \<le> block_end b"
  by (rule bexI [of _ "(a, n)"]) auto

lemma list_insert_refines:
  assumes ch: "chain (mem s) (free_list s) bs" and ok: "blocks_ok bs" and b: "block_ok (b, k)"
    and ap: "\<forall>c \<in> set bs. apart (b, k) c" and sz: "hdr_size (mem s) b = k"
  shows "\<exists>m p. list_insert b s = Some (s\<lparr>mem := m, free_list := p\<rparr>)
    \<and> chain m p (insert_block (b, k) bs) \<and> frame ((b, k) # bs) (mem s) m"
proof -
  let ?m = "set_is_free b 1 (mem s)"
  have al: "aligned16 b" and b0: "b \<noteq> 0" using b by (auto simp: aligned16_def)
  have notin: "b \<notin> fst ` set bs" using apart_distinct [OF ap b ok] .
  have ch': "chain ?m (free_list s) bs"
    using ch ok al notin by (rule chain_set_other)
  have fr: "frame ((b, k) # bs) (mem s) ?m" "\<And>m v. frame ((b, k) # bs) m (set_next b v m)"
    using al b by (auto intro!: frame_set frame_own)
  show ?thesis
  proof (cases "free_list s = 0 \<or> b < free_list s")
    case True
    have ch2: "chain (set_next b (free_list s) ?m) (free_list s) bs"
      using ch' ok al notin by (rule chain_set_other)
    have "insert_block (b, k) bs = (b, k) # bs"
      using True ch by (cases bs) auto
    then have "chain (set_next b (free_list s) ?m) b (insert_block (b, k) bs)"
      using ch2 al b0 sz by (simp add: mem_simps)
    moreover have "list_insert b s = Some (s\<lparr>mem := set_next b (free_list s) ?m, free_list := b\<rparr>)"
      using True by (simp add: list_insert_def)
    ultimately show ?thesis
      using frame_trans [OF fr(1) fr(2)] by blast
  next
    case False
    then obtain n bs' where bs: "bs = (free_list s, n) # bs'" using ch by (cases bs) auto
    have less: "free_list s < b" using False notin by (auto simp: bs)
    obtain c where c: "list_insert_walk ?m b (free_list s) = Some c"
        "c \<in> insert (free_list s) (fst ` set bs')"
        "chain (set_next c b (set_next b (hdr_next ?m c) ?m)) (free_list s)
          ((free_list s, n) # insert_block (b, k) bs')"
      using list_insert_walk_chain [OF ch' [unfolded bs] ok [unfolded bs] b less] notin sz al
      by (auto simp: bs mem_simps)
    have "\<exists>j. (c, j) \<in> set bs" using c(2) by (auto simp: bs)
    then obtain j where "(c, j) \<in> set bs" by blast
    then have "aligned16 c" "block_ok (c, j)" "(c, j) \<in> set ((b, k) # bs)"
      using blocks_ok_member [OF ok] by (auto simp: aligned16_def)
    then have "frame ((b, k) # bs) m (set_next c v m)" for m v
      by (intro frame_set frame_own)
    then have "frame ((b, k) # bs) (mem s) (set_next c b (set_next b (hdr_next ?m c) ?m))"
      using frame_trans [OF frame_trans [OF fr(1) fr(2)]] by blast
    moreover have "list_insert b s =
        Some (s\<lparr>mem := set_next c b (set_next b (hdr_next ?m c) ?m), free_list := free_list s\<rparr>)"
      using False c(1) by (simp add: list_insert_def Let_def)
    moreover have "insert_block (b, k) bs = (free_list s, n) # insert_block (b, k) bs'"
      using False by (simp add: bs)
    ultimately show ?thesis using c(3) by metis
  qed
qed

lemma coalesce_member:
  "b \<in> set (coalesce bs) \<Longrightarrow> fst b \<in> fst ` set bs"
proof (induction bs rule: coalesce.induct)
  case (3 a n b k bs)
  then show ?case by (auto split: if_splits)
qed auto

text \<open>Merging two neighbours: the sum does not wrap, and the merged block ends where the second ended.\<close>

lemma merge_sizes:
  assumes "blocks_ok ((a, n) # (b, k) # bs)" and "unat a + 16 + unat n = unat b"
  shows "unat (n + (16 + k)) = unat n + 16 + unat k" and "block_ok (a, n + (16 + k))"
    and "block_end (a, n + (16 + k)) = block_end (b, k)" and "a + 16 + n = b"
proof -
  have bounds: "unat b + 16 + unat k \<le> 2 ^ 24" "16 dvd unat a" "16 dvd unat n" "16 dvd unat k" "0 < unat a"
    using assms(1) by (auto simp: blocks_ok_Cons)
  have k16: "unat (16 + k) = 16 + unat k" using bounds by (simp add: unat_add_small)
  then show s: "unat (n + (16 + k)) = unat n + 16 + unat k"
    using bounds assms(2) by (subst unat_add_small) auto
  show "block_end (a, n + (16 + k)) = block_end (b, k)" using s assms(2) by simp
  show "block_ok (a, n + (16 + k))" using s bounds assms(2) by simp
  have "unat (a + 16) = unat a + 16" using bounds assms(2) by (simp add: unat_add_small)
  then have "unat (a + 16 + n) = unat a + 16 + unat n"
    using bounds assms(2) by (subst unat_add_small) auto
  then show "a + 16 + n = b" using assms(2) by (simp add: u32_eq_unat)
qed

lemma not_adjacent:
  assumes "blocks_ok ((a, n) # (b, k) # bs)" and "unat a + 16 + unat n \<noteq> unat b"
  shows "a + 16 + n \<noteq> b"
proof -
  have bounds: "unat a + 16 + unat n \<le> 2 ^ 24" using assms(1) by (auto simp: blocks_ok_Cons)
  then have "unat (a + 16) = unat a + 16" by (simp add: unat_add_small)
  then have "unat (a + 16 + n) = unat a + 16 + unat n"
    using bounds by (subst unat_add_small) auto
  with assms(2) show ?thesis by auto
qed

lemma blocks_ok_coalesce:
  assumes "blocks_ok bs"
  shows "blocks_ok (coalesce bs) \<and> (\<forall>x. outside (coalesce bs) x = outside bs x)"
  using assms
proof (induction bs rule: coalesce.induct)
  case (3 a n b k bs)
  show ?case
  proof (cases "unat a + 16 + unat n = unat b")
    case True
    note merge = merge_sizes [OF "3.prems" True]
    have bs: "blocks_ok bs" using "3.prems" by (simp add: blocks_ok_Cons)
    have "unat b + 16 + unat k \<le> unat (fst c)" if "c \<in> set (coalesce bs)" for c
      using coalesce_member [OF that] "3.prems" by (auto simp: blocks_ok_Cons)
    then have "\<forall>c \<in> set (coalesce bs). unat a + 16 + unat (n + (16 + k)) \<le> unat (fst c)"
      using True merge(1) by fastforce
    then have "blocks_ok ((a, n + (16 + k)) # coalesce bs)"
      using "3.IH"(1) [OF True bs] merge(2) unfolding blocks_ok_Cons by blast
    moreover have "outside ((a, n + (16 + k)) # coalesce bs) x = outside ((a, n) # (b, k) # bs) x" for x
      using "3.IH"(1) [OF True bs] merge(1) True by (auto simp: outside_def)
    ultimately show ?thesis using True by simp
  next
    case False
    have "blocks_ok ((b, k) # bs)" using "3.prems" by (simp add: blocks_ok_Cons)
    note IH = "3.IH"(2) [OF False this]
    have "unat a + 16 + unat n \<le> unat (fst c)" if "c \<in> set (coalesce ((b, k) # bs))" for c
      using coalesce_member [OF that] "3.prems" by (auto simp: blocks_ok_Cons)
    then show ?thesis using False IH "3.prems" by (auto simp: blocks_ok_Cons outside_def)
  qed
qed auto

lemma coalesce_all_refines:
  assumes "chain m p bs" and "blocks_ok bs"
  shows "\<exists>m'. coalesce_all p m = Some m' \<and> chain m' p (coalesce bs) \<and> frame bs m m'"
  using assms
proof (induction bs arbitrary: m p rule: coalesce.induct)
  case 1
  then show ?case by (auto simp: coalesce_all.simps)
next
  case (2 b)
  obtain a n where b: "b = (a, n)" by force
  then have a: "p = a" "a \<noteq> 0" "hdr_next m a = 0" using 2 by auto
  then have "coalesce_forward a m = m" by (simp add: coalesce_forward_def)
  with a have "coalesce_all p m = Some m"
    by (simp add: coalesce_all.simps [of a] coalesce_all.simps [of 0])
  then show ?case using 2 by auto
next
  case (3 a n b k bs)
  have al: "aligned16 a" "aligned16 b" using "3.prems"(2) by (auto simp: blocks_ok_Cons aligned16_def)
  have hd: "p = a" "a \<noteq> 0" "hdr_size m a = n" "hdr_is_free m a = 1" "hdr_next m a = b" "b \<noteq> 0"
      "hdr_size m b = k" "hdr_is_free m b = 1" "chain m (hdr_next m b) bs" and tl: "chain m b ((b, k) # bs)"
    using "3.prems"(1) by auto
  have ab: "a \<noteq> b" using "3.prems"(2) by (auto simp: blocks_ok_Cons)
  have okb: "blocks_ok ((b, k) # bs)" and okbs: "blocks_ok bs" using "3.prems"(2) by (auto simp: blocks_ok_Cons)
  have notin: "a \<notin> fst ` set bs" using blocks_ok_tail(2) [OF "3.prems"(2), of a] by auto
  have unfold: "coalesce_all p m =
      coalesce_all (hdr_next (coalesce_forward a m) a) (coalesce_forward a m)"
    using hd by (simp add: coalesce_all.simps [of a])
  have keep: "unat a + 16 \<le> unat (fst c) \<or> block_end c \<le> unat a" if "c \<in> set ((b, k) # bs)" for c
    using that "3.prems"(2) by (auto simp: blocks_ok_Cons)
  show ?case
  proof (cases "unat a + 16 + unat n = unat b")
    case True
    let ?m = "set_next a (hdr_next m b) (set_size a (n + (16 + k)) m)"
    have fwd: "coalesce_forward a m = ?m"
      using hd merge_sizes(4) [OF "3.prems"(2) True] al ab
      by (simp add: coalesce_forward_def Let_def mem_simps)
    have "chain (set_size a (n + (16 + k)) m) (hdr_next m b) bs"
      using hd(9) okbs al(1) notin by (rule chain_set_other)
    then have "chain ?m (hdr_next m b) bs" using okbs al(1) notin by (rule chain_set_other)
    from "3.IH"(1) [OF True this okbs] obtain m' where
      m': "coalesce_all (hdr_next m b) ?m = Some m'" "chain m' (hdr_next m b) (coalesce bs)" "frame bs ?m m'"
      by blast
    have "coalesce_all p m = Some m'" using unfold fwd m'(1) al by (simp add: mem_simps)
    moreover have "hdr_size m' a = hdr_size ?m a" "hdr_is_free m' a = hdr_is_free ?m a" "hdr_next m' a = hdr_next ?m a"
      using frame_header [OF m'(3) al(1)] keep by auto
    then have "chain m' p (coalesce ((a, n) # (b, k) # bs))"
      using True m'(2) hd al by (simp add: mem_simps)
    moreover have "frame ((a, n) # (b, k) # bs) m ?m"
    proof -
      have own: "\<exists>c \<in> set ((a, n) # (b, k) # bs). unat (fst c) \<le> unat a \<and> unat a + 16 \<le> block_end c"
        using "3.prems"(2) by (intro frame_own [of a n]) (auto simp: blocks_ok_Cons)
      show ?thesis
        by (rule frame_trans [OF frame_set(1) [OF al(1) own] frame_set(3) [OF al(1) own]]) simp
    qed
    then have "frame ((a, n) # (b, k) # bs) m m'"
      using m'(3) by (rule frame_trans) (auto simp: outside_def)
    ultimately show ?thesis by blast
  next
    case False
    have fwd: "coalesce_forward a m = m"
      using hd not_adjacent [OF "3.prems"(2) False] by (simp add: coalesce_forward_def)
    from "3.IH"(2) [OF False tl okb] obtain m' where
      m': "coalesce_all b m = Some m'" "chain m' b (coalesce ((b, k) # bs))" "frame ((b, k) # bs) m m'"
      by blast
    have "coalesce_all p m = Some m'" using unfold fwd m'(1) hd by simp
    moreover have "hdr_size m' a = hdr_size m a" "hdr_is_free m' a = hdr_is_free m a" "hdr_next m' a = hdr_next m a"
      using frame_header [OF m'(3) al(1)] keep by auto
    then have "chain m' p (coalesce ((a, n) # (b, k) # bs))"
      using False m'(2) hd by simp
    moreover have "frame ((a, n) # (b, k) # bs) m m'"
      using m'(3) by (rule frame_mono) (auto simp: outside_def)
    ultimately show ?thesis by blast
  qed
qed

subsection \<open>First fit\<close>

text \<open>A segment of the list, from \<open>p\<close> through the blocks \<open>bs\<close> to \<open>q\<close>.\<close>

fun seg :: "memory \<Rightarrow> u32 \<Rightarrow> block list \<Rightarrow> u32 \<Rightarrow> bool" where
  "seg m p [] q \<longleftrightarrow> p = q"
| "seg m p ((a, n) # bs) q \<longleftrightarrow> p = a \<and> a \<noteq> 0 \<and> hdr_size m a = n \<and> hdr_is_free m a = 1
     \<and> seg m (hdr_next m a) bs q"

lemma chain_append: "chain m p (bs @ cs) \<longleftrightarrow> (\<exists>q. seg m p bs q \<and> chain m q cs)"
  by (induction bs arbitrary: p) auto

lemma seg_cong:
  assumes "seg m p bs q"
    and "\<And>a n. (a, n) \<in> set bs \<Longrightarrow> hdr_size m' a = hdr_size m a \<and> hdr_is_free m' a = hdr_is_free m a
      \<and> hdr_next m' a = hdr_next m a"
  shows "seg m' p bs q"
  using assms
proof (induction bs arbitrary: p)
  case (Cons b bs)
  obtain a n where b: "b = (a, n)" by force
  have "seg m' (hdr_next m a) bs q" using Cons.prems b by (intro Cons.IH) auto
  then show ?case using Cons.prems(1) Cons.prems(2) [of a n] b by simp
qed simp

lemma seg_set_other:
  assumes "seg m p bs q" and "blocks_ok bs" and "aligned16 b" and "b \<notin> fst ` set bs"
  shows "seg (set_size b v m) p bs q" and "seg (set_is_free b v m) p bs q"
    and "seg (set_next b v m) p bs q"
proof -
  have "aligned16 d \<and> d \<noteq> b" if "(d, j) \<in> set bs" for d j
    using blocks_ok_member [OF assms(2) that] assms(4) that by (force simp: aligned16_def)
  then show "seg (set_size b v m) p bs q" "seg (set_is_free b v m) p bs q"
    "seg (set_next b v m) p bs q"
    using assms(3) by (auto intro!: seg_cong [OF assms(1)] simp: mem_simps)
qed

lemma seg_relink:
  assumes "seg m p bs q" and "blocks_ok bs" and "bs \<noteq> []"
  shows "seg (set_next (fst (last bs)) q' m) p bs q'"
  using assms
proof (induction bs arbitrary: p)
  case (Cons b bs)
  obtain a n where b: "b = (a, n)" by force
  have ok: "blocks_ok bs" "aligned16 a" using Cons.prems(2) by (auto simp: b blocks_ok_Cons aligned16_def)
  show ?case
  proof (cases "bs = []")
    case True
    then show ?thesis using Cons.prems(1) ok by (auto simp: b mem_simps)
  next
    case False
    then have "fst (last bs) \<in> fst ` set bs" by simp
    then have "aligned16 (fst (last bs))" "fst (last bs) \<noteq> a"
      using blocks_ok_tail [OF Cons.prems(2) [unfolded b]] by auto
    moreover have "seg (set_next (fst (last bs)) q' m) (hdr_next m a) bs q'"
      using Cons.IH [OF _ ok(1) False] Cons.prems(1) by (simp add: b)
    ultimately show ?thesis using Cons.prems(1) ok False by (auto simp: b mem_simps)
  qed
qed simp

lemma blocks_ok_append:
  "blocks_ok (bs @ cs) \<longleftrightarrow> blocks_ok bs \<and> blocks_ok cs
    \<and> (\<forall>b \<in> set bs. \<forall>c \<in> set cs. block_end b \<le> unat (fst c))"
  by (auto simp: blocks_ok_def sorted_wrt_append)

lemma split_block:
  assumes "block_ok (a, n)" and "16 dvd unat sz" and "16 \<le> unat sz" and "unat sz + 32 \<le> unat n"
  shows "block_ok (a, sz)" and "block_ok (a + 16 + sz, n - sz - 16)"
    and "unat (a + 16 + sz) = block_end (a, sz)" and "block_end (a + 16 + sz, n - sz - 16) = block_end (a, n)"
proof -
  have n: "unat a + 16 + unat n \<le> 2 ^ 24" "16 dvd unat a" "16 dvd unat n" "0 < unat a"
    using assms(1) by auto
  have "unat (a + 16) = unat a + 16" using n by (simp add: unat_add_small)
  then have e: "unat (a + 16 + sz) = unat a + 16 + unat sz"
    using n assms(4) by (subst unat_add_small) auto
  have "unat (n - sz) = unat n - unat sz" using assms(4) by (simp add: unat_sub word_le_nat_alt)
  then have r: "unat (n - sz - 16) = unat n - unat sz - 16"
    using assms(4) by (simp add: unat_sub word_le_nat_alt)
  show "unat (a + 16 + sz) = block_end (a, sz)" using e by simp
  show "block_end (a + 16 + sz, n - sz - 16) = block_end (a, n)" using e r assms(4) by simp
  show "block_ok (a, sz)" using n assms by simp
  have "16 dvd unat n - unat sz - 16" using n(3) assms(2) by (simp add: dvd_diff_nat)
  then show "block_ok (a + 16 + sz, n - sz - 16)"
    using n assms e r by (simp add: dvd_add)
qed

lemma fit_None: "fit sz bs = None \<longleftrightarrow> (\<forall>c \<in> set bs. snd c < sz)"
  by (induction bs) (auto split: if_splits)

text \<open>The memory after the split test, with the block found marked used.\<close>

definition split_mem :: "u32 \<Rightarrow> u32 \<Rightarrow> memory \<Rightarrow> memory" where
  "split_mem sz a m = set_is_free a 0
    (if hdr_size m a \<ge> sz + HEADER_SIZE + MIN_ALLOC
     then set_size a sz (set_next a (a + HEADER_SIZE + sz)
       (set_next (a + HEADER_SIZE + sz) (hdr_next m a) (set_is_free (a + HEADER_SIZE + sz) 1
         (set_size (a + HEADER_SIZE + sz) (hdr_size m a - sz - HEADER_SIZE) m))))
     else m)"

definition leftover :: "u32 \<Rightarrow> block \<Rightarrow> block list" where
  "leftover sz b = (if unat sz + 32 \<le> unat (snd b)
     then [(fst b + 16 + sz, snd b - sz - 16)] else [])"

lemma split_threshold:
  assumes "block_ok (a, n)" and "sz \<le> n"
  shows "n \<ge> sz + HEADER_SIZE + MIN_ALLOC \<longleftrightarrow> unat sz + 32 \<le> unat n"
proof -
  have "unat sz \<le> unat n" "unat n \<le> 2 ^ 24" using assms by (auto simp: word_le_nat_alt)
  then have "unat (sz + 32) = unat sz + 32" by (simp add: unat_add_small)
  moreover have "sz + HEADER_SIZE + MIN_ALLOC = sz + 32" by simp
  ultimately show ?thesis by (simp only: word_le_nat_alt)
qed

lemma split_mem_refines:
  assumes ch: "chain m a ((a, n) # post)" and ok: "blocks_ok (pre @ (a, n) # post)"
    and sg: "seg m p pre a" and sz: "16 dvd unat sz" "16 \<le> unat sz" "sz \<le> n"
  shows "seg (split_mem sz a m) p pre a"
    and "chain (split_mem sz a m) (hdr_next (split_mem sz a m) a) (leftover sz (a, n) @ post)"
    and "hdr_size (split_mem sz a m) a = (if unat sz + 32 \<le> unat n then sz else n)"
    and "frame [(a, n)] m (split_mem sz a m)"
    and "blocks_ok (leftover sz (a, n) @ post)"
    and "\<forall>b \<in> set pre. \<forall>c \<in> set (leftover sz (a, n) @ post). block_end b \<le> unat (fst c)"
    and "a \<notin> fst ` set (leftover sz (a, n) @ post)"
proof -
  have a: "block_ok (a, n)" "aligned16 a" "blocks_ok post" "blocks_ok pre" "blocks_ok ((a, n) # post)"
    using ok by (auto simp: blocks_ok_append blocks_ok_Cons aligned16_def)
  have hd: "a \<noteq> 0" "hdr_size m a = n" "chain m (hdr_next m a) post" using ch by auto
  have pre: "block_end b \<le> unat a" if "b \<in> set pre" for b
    using ok that by (auto simp: blocks_ok_append)
  have post: "unat a + 16 + unat n \<le> unat (fst c)" if "c \<in> set post" for c
    using a(5) that by (auto simp: blocks_ok_Cons)
  have apre: "a \<notin> fst ` set pre" and apost: "a \<notin> fst ` set post"
    using pre post by force+
  note thr = split_threshold [OF a(1) sz(3)]
  have "seg (split_mem sz a m) p pre a
    \<and> chain (split_mem sz a m) (hdr_next (split_mem sz a m) a) (leftover sz (a, n) @ post)
    \<and> hdr_size (split_mem sz a m) a = (if unat sz + 32 \<le> unat n then sz else n)
    \<and> frame [(a, n)] m (split_mem sz a m)
    \<and> blocks_ok (leftover sz (a, n) @ post)
    \<and> (\<forall>b \<in> set pre. \<forall>c \<in> set (leftover sz (a, n) @ post). block_end b \<le> unat (fst c))
    \<and> a \<notin> fst ` set (leftover sz (a, n) @ post)"
  proof (cases "unat sz + 32 \<le> unat n")
    case True
    let ?b = "a + 16 + sz"
    note b = split_block [OF a(1) sz(1,2) True]
    have bal: "aligned16 ?b" and b0: "?b \<noteq> 0" using b(2) by (auto simp: aligned16_def)
    have "unat ?b \<noteq> unat a" using b(3) by simp
    then have ab: "?b \<noteq> a" by metis
    have bpre: "?b \<notin> fst ` set pre" using pre b(3) by force
    have bpost: "?b \<notin> fst ` set post" using post b(3) True by force
    have sm: "split_mem sz a m = set_is_free a 0 (set_size a sz (set_next a ?b
        (set_next ?b (hdr_next m a) (set_is_free ?b 1 (set_size ?b (n - sz - 16) m)))))"
      using True thr hd(2) by (simp add: split_mem_def)
    have "seg (split_mem sz a m) p pre a"
      unfolding sm using sg a(2,4) apre bal bpre by (intro seg_set_other)
    moreover have "chain (split_mem sz a m) (hdr_next m a) post"
      unfolding sm using hd(3) a(2,3) apost bal bpost by (intro chain_set_other)
    moreover have "frame [(a, n)] m (split_mem sz a m)"
    proof -
      have inside: "\<exists>c \<in> set [(a, n)]. unat (fst c) \<le> unat ?b \<and> unat ?b + 16 \<le> block_end c"
        "\<exists>c \<in> set [(a, n)]. unat (fst c) \<le> unat a \<and> unat a + 16 \<le> block_end c"
        using b(2,3,4) by auto
      have f1: "frame [(a, n)] m' (set_size ?b v m')" "frame [(a, n)] m' (set_is_free ?b v m')"
        "frame [(a, n)] m' (set_next ?b v m')" for m' v
        by (intro frame_set bal inside)+
      have f2: "frame [(a, n)] m' (set_size a v m')" "frame [(a, n)] m' (set_is_free a v m')"
        "frame [(a, n)] m' (set_next a v m')" for m' v
        by (intro frame_set a(2) inside)+
      show ?thesis unfolding sm using f1 f2 unfolding frame_def by metis
    qed
    moreover have "blocks_ok ((?b, n - sz - 16) # post)"
    proof -
      have "\<forall>c \<in> set post. block_end (?b, n - sz - 16) \<le> unat (fst c)"
        unfolding b(4) using post by simp
      then show ?thesis using b(2) a(3) unfolding blocks_ok_Cons block_end.simps by blast
    qed
    ultimately show ?thesis
      using True a(2) bal b0 ab pre post b(3) apost
      by (auto simp: sm leftover_def mem_simps simp del: block_ok.simps)
        (use pre in fastforce)+
  next
    case False
    have sm: "split_mem sz a m = set_is_free a 0 m"
      using False thr hd(2) by (simp add: split_mem_def)
    have "seg (split_mem sz a m) p pre a"
      unfolding sm using sg a(4,2) apre by (rule seg_set_other)
    moreover have "chain (split_mem sz a m) (hdr_next m a) post"
      unfolding sm using hd(3) a(3,2) apost by (rule chain_set_other)
    moreover have "frame [(a, n)] m (split_mem sz a m)"
      unfolding sm using a(1,2) by (intro frame_set) auto
    ultimately show ?thesis
      using False a(2,3) hd(2) apost pre post by (fastforce simp: sm leftover_def mem_simps)
  qed
  then show "seg (split_mem sz a m) p pre a"
    "chain (split_mem sz a m) (hdr_next (split_mem sz a m) a) (leftover sz (a, n) @ post)"
    "hdr_size (split_mem sz a m) a = (if unat sz + 32 \<le> unat n then sz else n)"
    "frame [(a, n)] m (split_mem sz a m)"
    "blocks_ok (leftover sz (a, n) @ post)"
    "\<forall>b \<in> set pre. \<forall>c \<in> set (leftover sz (a, n) @ post). block_end b \<le> unat (fst c)"
    "a \<notin> fst ` set (leftover sz (a, n) @ post)"
    by blast+
qed

lemma take_block_split_mem:
  assumes "block_ok (a, n)" and "hdr_size (mem s) a = n"
    and "16 dvd unat sz" and "16 \<le> unat sz" and "sz \<le> n"
  shows "take_block sz prev a s =
    (let m = split_mem sz a (mem s);
         s = (if prev \<noteq> 0 then s\<lparr>mem := set_next prev (hdr_next m a) m\<rparr>
              else s\<lparr>mem := m, free_list := hdr_next m a\<rparr>)
     in (a + 16, s\<lparr>mem := set_next a 0 (mem s)\<rparr>))"
proof (cases "n \<ge> sz + HEADER_SIZE + MIN_ALLOC")
  case True
  then have "unat sz + 32 \<le> unat n" using split_threshold [OF assms(1,5)] by simp
  then have "block_ok (a + 16 + sz, n - sz - 16)" using split_block(2) assms by blast
  then have "aligned16 (a + 16 + sz)" and "aligned16 a" using assms(1) by (auto simp: aligned16_def)
  then have nx: "hdr_next (set_is_free (a + 16 + sz) 1 (set_size (a + 16 + sz) v m)) a = hdr_next m a" for v m
    by (simp add: mem_simps)
  show ?thesis
    using True by (simp add: take_block_def split_mem_def Let_def assms(2) nx)
next
  case False
  then show ?thesis by (simp add: take_block_def split_mem_def Let_def assms(2))
qed

lemma take_block_refines:
  assumes ch: "chain (mem s) (free_list s) (pre @ (a, n) # post)" and ok: "blocks_ok (pre @ (a, n) # post)"
    and prev: "prev = (if pre = [] then 0 else fst (last pre))"
    and sz: "16 dvd unat sz" "16 \<le> unat sz" "sz \<le> n"
  shows "\<exists>m p. take_block sz prev a s = (a + 16, s\<lparr>mem := m, free_list := p\<rparr>)
    \<and> chain m p (pre @ leftover sz (a, n) @ post)
    \<and> hdr_size m a = (if unat sz + 32 \<le> unat n then sz else n)
    \<and> frame (pre @ (a, n) # post) (mem s) m \<and> blocks_ok (pre @ leftover sz (a, n) @ post)"
proof -
  obtain sg: "seg (mem s) (free_list s) pre a" and cha: "chain (mem s) a ((a, n) # post)"
    using ch by (auto simp: chain_append)
  define m1 where "m1 = split_mem sz a (mem s)"
  define q where "q = hdr_next m1 a"
  define rest where "rest = leftover sz (a, n) @ post"
  note sp = split_mem_refines [OF cha ok sg sz, folded m1_def, folded q_def, folded rest_def]
  have hd: "hdr_size (mem s) a = n" using cha by simp
  have okp: "blocks_ok pre" and al: "aligned16 a" "block_ok (a, n)"
    using ok by (auto simp: blocks_ok_append blocks_ok_Cons aligned16_def)
  have apre: "a \<notin> fst ` set pre" using ok by (force simp: blocks_ok_append)
  have okr: "blocks_ok (pre @ rest)" using okp sp(5,6) by (simp add: blocks_ok_append)
  define m2 where "m2 = (if pre = [] then m1 else set_next prev q m1)"
  define p where "p = (if pre = [] then q else free_list s)"
  have last: "(fst (last pre), snd (last pre)) \<in> set pre" if "pre \<noteq> []" using that by simp
  have pal: "block_ok (prev, snd (last pre)) \<and> prev \<noteq> 0 \<and> aligned16 prev \<and> prev \<notin> fst ` set rest \<and> prev \<noteq> a"
    if "pre \<noteq> []"
  proof -
    have lp: "last pre = (prev, snd (last pre))" "last pre \<in> set pre" using that prev by auto
    have ok: "block_ok (prev, snd (last pre))" using blocks_ok_member [OF okp lp(2)] lp(1) by simp
    have "prev \<notin> fst ` set rest"
    proof
      assume "prev \<in> fst ` set rest"
      then obtain k where "(prev, k) \<in> set rest" by auto
      then have "block_end (last pre) \<le> unat prev" using sp(6) lp(2) by force
      then show False by (subst (asm) lp(1)) simp
    qed
    moreover have "prev \<noteq> a" using apre lp by (metis fst_conv image_eqI)
    ultimately show ?thesis using ok by (auto simp: aligned16_def)
  qed
  have "seg m2 p pre q \<and> chain m2 q rest \<and> hdr_size m2 a = hdr_size m1 a"
  proof (cases "pre = []")
    case False
    have "seg m2 p pre q"
      using seg_relink [OF sp(1) okp False, of q] False prev by (simp add: m2_def p_def)
    moreover have "chain m2 q rest"
      using chain_set_other(3) [OF sp(2) sp(5)] pal [OF False] False by (simp add: m2_def)
    ultimately show ?thesis using pal [OF False] al by (simp add: m2_def mem_simps)
  qed (use sp(2) in \<open>simp add: m2_def p_def\<close>)
  then have "seg (set_next a 0 m2) p pre q" "chain (set_next a 0 m2) q rest" "hdr_size (set_next a 0 m2) a = hdr_size m1 a"
    using seg_set_other(3) [OF _ okp al(1) apre] chain_set_other(3) [OF _ sp(5) al(1) sp(7)] al(1)
    by (auto simp: mem_simps)
  then have "chain (set_next a 0 m2) p (pre @ rest)" by (auto simp: chain_append)
  moreover have "frame (pre @ (a, n) # post) (mem s) (set_next a 0 m2)"
  proof -
    let ?bs = "pre @ (a, n) # post"
    have f1: "frame ?bs (mem s) m1" using sp(4) by (rule frame_mono) (simp add: outside_def)
    have f2: "frame ?bs m1 m2"
    proof (cases "pre = []")
      case False
      then show ?thesis using pal [OF False] last [OF False] prev unfolding m2_def
        by (simp del: block_ok.simps) (intro frame_set(3) frame_own [of _ "snd (last pre)"], auto)
    qed (simp add: m2_def)
    have f3: "frame ?bs m2 (set_next a 0 m2)"
      using al by (intro frame_set(3) frame_own [of a n]) auto
    show ?thesis using frame_trans [OF frame_trans [OF f1 f2] f3] by blast
  qed
  moreover have "take_block sz prev a s = (a + 16, s\<lparr>mem := set_next a 0 m2, free_list := p\<rparr>)"
    using pal prev hd by (cases "pre = []")
      (auto simp: take_block_split_mem [OF al(2) hd sz] Let_def m1_def m2_def p_def q_def)
  ultimately show ?thesis using \<open>hdr_size (set_next a 0 m2) a = hdr_size m1 a\<close> sp(3) okr
    unfolding rest_def [symmetric] by metis
qed

lemma fit_Cons_leftover:
  "fit sz ((a, n) # bs) =
    (if sz \<le> n then Some ((a, if unat sz + 32 \<le> unat n then sz else n), leftover sz (a, n) @ bs)
     else map_option (apsnd (Cons (a, n))) (fit sz bs))"
  by (simp add: leftover_def)

lemma first_fit_segment:
  assumes "seg (mem s) (free_list s) pre cur" and "chain (mem s) cur bs" and "blocks_ok (pre @ bs)"
    and "prev = (if pre = [] then 0 else fst (last pre))"
    and "16 dvd unat sz" and "16 \<le> unat sz"
  shows "case fit sz bs of
      None \<Rightarrow> first_fit sz prev cur s = Some (None, s)
    | Some (b, rem) \<Rightarrow> \<exists>m p. first_fit sz prev cur s = Some (Some (fst b + 16), s\<lparr>mem := m, free_list := p\<rparr>)
        \<and> chain m p (pre @ rem) \<and> hdr_size m (fst b) = snd b \<and> frame (pre @ bs) (mem s) m
        \<and> blocks_ok (pre @ rem)"
  using assms(1-4)
proof (induction bs arbitrary: pre prev cur)
  case Nil
  then show ?case by (simp add: first_fit.simps)
next
  case (Cons c bs)
  obtain a n where c: "c = (a, n)" by force
  have hd: "cur = a" "a \<noteq> 0" "hdr_size (mem s) a = n" "hdr_is_free (mem s) a = 1"
      "chain (mem s) (hdr_next (mem s) a) bs"
    using Cons.prems(2) by (auto simp: c)
  show ?case
  proof (cases "sz \<le> n")
    case True
    have "chain (mem s) (free_list s) (pre @ (a, n) # bs)"
      using Cons.prems(1,2) by (auto simp: chain_append c)
    from take_block_refines [OF this Cons.prems(3) [unfolded c] Cons.prems(4) assms(5,6) True]
    obtain m p where "take_block sz prev a s = (a + 16, s\<lparr>mem := m, free_list := p\<rparr>)"
      and rest: "chain m p (pre @ leftover sz (a, n) @ bs)"
        "hdr_size m a = (if unat sz + 32 \<le> unat n then sz else n)"
        "frame (pre @ (a, n) # bs) (mem s) m" "blocks_ok (pre @ leftover sz (a, n) @ bs)"
      by blast
    then have "first_fit sz prev cur s = Some (Some (a + 16), s\<lparr>mem := m, free_list := p\<rparr>)"
      using hd True by (simp add: first_fit.simps [of sz prev])
    with rest show ?thesis unfolding c fit_Cons_leftover using True by (simp only: if_True option.case prod.case fst_conv snd_conv) blast
  next
    case False
    have step: "first_fit sz prev cur s = first_fit sz a (hdr_next (mem s) a) s"
      using hd False by (simp add: first_fit.simps [of sz prev])
    have sg: "seg (mem s) p (pre @ [(a, n)]) q \<longleftrightarrow> seg (mem s) p pre a \<and> hdr_next (mem s) a = q" for p q
      using hd by (induction pre arbitrary: p) auto
    have "case fit sz bs of
        None \<Rightarrow> first_fit sz a (hdr_next (mem s) a) s = Some (None, s)
      | Some (b, rem) \<Rightarrow> \<exists>m p. first_fit sz a (hdr_next (mem s) a) s = Some (Some (fst b + 16), s\<lparr>mem := m, free_list := p\<rparr>)
          \<and> chain m p ((pre @ [(a, n)]) @ rem) \<and> hdr_size m (fst b) = snd b
          \<and> frame ((pre @ [(a, n)]) @ bs) (mem s) m \<and> blocks_ok ((pre @ [(a, n)]) @ rem)"
      using Cons.prems hd by (intro Cons.IH) (auto simp: sg c)
    then show ?thesis using False step
      by (cases "fit sz bs") (simp_all add: c case_prod_beta apsnd_def map_prod_def)
  qed
qed

definition total :: "block list \<Rightarrow> nat" where
  "total bs = (\<Sum>b \<leftarrow> bs. 16 + unat (snd b))"

lemma total_simps [simp]: "total [] = 0" "total (b # bs) = 16 + unat (snd b) + total bs"
  by (simp_all add: total_def)

lemma leftover_apart:
  assumes "block_ok (a, n)" and "16 dvd unat sz" and "16 \<le> unat sz" and "sz \<le> n"
  defines "b \<equiv> (a, if unat sz + 32 \<le> unat n then sz else n)"
  shows "block_ok b" and "\<forall>c \<in> set (leftover sz (a, n)). block_end b = unat (fst c) \<and> block_end c = block_end (a, n)"
    and "total (b # leftover sz (a, n)) = 16 + unat n" and "block_end b \<le> block_end (a, n)"
    and "sz \<le> snd b" and "unat (snd b) < unat sz + 32"
proof -
  note sb = split_block [OF assms(1-3)]
  have le: "unat sz \<le> unat n" using assms(4) by (simp add: word_le_nat_alt)
  show "block_ok b" "sz \<le> snd b" "unat (snd b) < unat sz + 32" "block_end b \<le> block_end (a, n)"
    using sb(1) assms(1,4) by (auto simp: b_def simp del: block_ok.simps) 
  show "\<forall>c \<in> set (leftover sz (a, n)). block_end b = unat (fst c) \<and> block_end c = block_end (a, n)"
    using sb(3,4) by (simp add: leftover_def b_def)
  show "total (b # leftover sz (a, n)) = 16 + unat n"
    using sb(3,4) by (auto simp: leftover_def b_def)
qed

lemma total_append [simp]: "total (bs @ cs) = total bs + total cs"
  by (simp add: total_def)

lemma fit_SomeE:
  assumes "fit sz bs = Some (b, rem)"
  obtains pre a n post where "bs = pre @ (a, n) # post" "sz \<le> n"
    "b = (a, if unat sz + 32 \<le> unat n then sz else n)" "rem = pre @ leftover sz (a, n) @ post"
proof -
  have "\<exists>pre a n post. bs = pre @ (a, n) # post \<and> sz \<le> n
      \<and> b = (a, if unat sz + 32 \<le> unat n then sz else n) \<and> rem = pre @ leftover sz (a, n) @ post"
    using assms
  proof (induction bs arbitrary: rem)
    case (Cons c bs)
    obtain a n where c: "c = (a, n)" by force
    show ?case
    proof (cases "sz \<le> n")
      case True
      then show ?thesis using Cons.prems unfolding c fit_Cons_leftover
        by (intro exI [of _ "[]"] exI [of _ a] exI [of _ n] exI [of _ bs]) auto
    next
      case False
      then obtain rem' where r: "fit sz bs = Some (b, rem')" "rem = (a, n) # rem'"
        using Cons.prems by (auto simp: c)
      from Cons.IH [OF r(1)] show ?thesis unfolding r(2) c by (metis append_Cons)
    qed
  qed simp
  then show ?thesis using that by blast
qed

text \<open>Where the blocks after the fit lie: inside the blocks before it.\<close>

definition inside :: "block \<Rightarrow> block \<Rightarrow> bool" where
  "inside c d \<longleftrightarrow> unat (fst d) \<le> unat (fst c) \<and> block_end c \<le> block_end d"

lemma inside_refl [simp]: "inside c c"
  by (simp add: inside_def)

lemma apart_inside: "apart b d \<Longrightarrow> inside c d \<Longrightarrow> apart b c"
  by (auto simp: apart_def inside_def)

lemma fit_props:
  assumes "fit sz bs = Some (b, rem)" and "blocks_ok bs" and "16 dvd unat sz" and "16 \<le> unat sz"
  shows "block_ok b" and "sz \<le> snd b" and "unat (snd b) < unat sz + 32"
    and "total (b # rem) = total bs"
    and "\<forall>c \<in> set (b # rem). \<exists>d \<in> set bs. inside c d"
    and "\<forall>c \<in> set rem. apart b c"
proof -
  obtain pre a n post where f: "bs = pre @ (a, n) # post" "sz \<le> n"
      "b = (a, if unat sz + 32 \<le> unat n then sz else n)" "rem = pre @ leftover sz (a, n) @ post"
    using assms(1) by (rule fit_SomeE)
  have ok: "block_ok (a, n)" "\<forall>c \<in> set pre. block_end c \<le> unat a"
      "\<forall>c \<in> set post. unat a + 16 + unat n \<le> unat (fst c)"
    using assms(2) unfolding f(1) blocks_ok_append blocks_ok_Cons by auto
  note lo = leftover_apart [OF ok(1) assms(3,4) f(2), folded f(3)]
  show "block_ok b" "sz \<le> snd b" "unat (snd b) < unat sz + 32" by (fact lo)+
  show "total (b # rem) = total bs" using lo(3) by (simp add: f(1,4))
  have "unat a \<le> block_end b" "fst b = a" by (simp_all add: f(3))
  then have "inside c (a, n)" if "c \<in> set (b # leftover sz (a, n))" for c
    using lo(2,4) that by (auto simp: inside_def)
  then show "\<forall>c \<in> set (b # rem). \<exists>d \<in> set bs. inside c d"
    unfolding f(1,4) by (auto intro!: bexI [where P = "inside _"])
  show "\<forall>c \<in> set rem. apart b c"
    using ok lo(2,4) \<open>fst b = a\<close> unfolding f(4) apart_def by fastforce
qed

end
