(* ===== verification/Paging.thy ===== *)
theory Paging
  imports Kheap
begin

text \<open>
  Paging (kernel/paging.c, kernel/paging.h): the page directory and page tables in memory. The
  abstract view of a state is the page table entry in force for every virtual page; the invariant
  keeps directory and tables on pages of their own that the page manager does not hand out.
  Physical and virtual addresses of the tables agree, as they lie in the identity-mapped 16 MB.
  The TLB is not part of the state: every change of an entry is followed by \<open>invlpg\<close>.
\<close>

subsection \<open>State and operations\<close>

record paging = kheap +
  kernel_page_directory :: u32
  cr0 :: u32
  cr3 :: u32

abbreviation (input) PAGE_PRESENT :: u32 where "PAGE_PRESENT \<equiv> 1"
abbreviation (input) PAGE_WRITABLE :: u32 where "PAGE_WRITABLE \<equiv> 2"
abbreviation (input) PAGE_USER :: u32 where "PAGE_USER \<equiv> 4"
abbreviation (input) IDENTITY_MAP_ENTRIES :: nat where "IDENTITY_MAP_ENTRIES \<equiv> 4"

definition PD_INDEX :: "u32 \<Rightarrow> u32" where "PD_INDEX virt = drop_bit 22 virt AND 0x3FF"
definition PT_INDEX :: "u32 \<Rightarrow> u32" where "PT_INDEX virt = drop_bit 12 virt AND 0x3FF"
definition PAGE_FRAME :: "u32 \<Rightarrow> u32" where "PAGE_FRAME entry = entry AND 0xFFFFF000"

text \<open>The address of \<open>p[i]\<close> for a \<open>uint32_t *p\<close>.\<close>

definition slot :: "u32 \<Rightarrow> u32 \<Rightarrow> u32" where "slot p i = p + 4 * i"

definition zero_page :: "u32 \<Rightarrow> memory \<Rightarrow> memory" where
  "zero_page page m = fold (\<lambda>i m. st32 m (slot page (of_nat i)) 0) [0 ..< 1024] m"

definition paging_init_entry :: "nat \<Rightarrow> 'z paging_scheme \<Rightarrow> 'z paging_scheme" where
  "paging_init_entry i s =
    (let (pt, s) = pmm_alloc s;
         m = zero_page pt (mem s);
         m = fold (\<lambda>j m. let phys = (of_nat i * 1024 + of_nat j) * PAGE_SIZE
               in st32 m (slot pt (of_nat j)) (phys OR PAGE_PRESENT OR PAGE_WRITABLE)) [0 ..< 1024] m
     in s\<lparr>mem := st32 m (slot (kernel_page_directory s) (of_nat i)) (pt OR PAGE_PRESENT OR PAGE_WRITABLE)\<rparr>)"

definition paging_init :: "'z paging_scheme \<Rightarrow> 'z paging_scheme" where
  "paging_init s =
    (let (pd, s) = pmm_alloc s;
         s = s\<lparr>kernel_page_directory := pd, mem := zero_page pd (mem s)\<rparr>;
         s = fold paging_init_entry [0 ..< IDENTITY_MAP_ENTRIES] s
     in s\<lparr>cr3 := kernel_page_directory s, cr0 := cr0 s OR 0x80000000\<rparr>)"

definition pde :: "'z paging_scheme \<Rightarrow> u32 \<Rightarrow> u32" where
  "pde s i = ld32 (mem s) (slot (kernel_page_directory s) i)"

definition set_pde :: "u32 \<Rightarrow> u32 \<Rightarrow> 'z paging_scheme \<Rightarrow> 'z paging_scheme" where
  "set_pde i v s = s\<lparr>mem := st32 (mem s) (slot (kernel_page_directory s) i) v\<rparr>"

text \<open>The first step of paging\_map: \<open>None\<close> is its early return when no page is left.\<close>

definition paging_table :: "u32 \<Rightarrow> 'z paging_scheme \<Rightarrow> 'z paging_scheme option" where
  "paging_table pd_idx s =
    (if pde s pd_idx AND PAGE_PRESENT = 0
     then let (pt, s) = pmm_alloc s
          in if pt = 0 then None
             else Some (set_pde pd_idx (pt OR PAGE_PRESENT OR PAGE_WRITABLE) (s\<lparr>mem := zero_page pt (mem s)\<rparr>))
     else Some s)"

definition paging_map :: "u32 \<Rightarrow> u32 \<Rightarrow> u32 \<Rightarrow> 'z paging_scheme \<Rightarrow> 'z paging_scheme" where
  "paging_map virt phys flags s =
    (let pd_idx = PD_INDEX virt; pt_idx = PT_INDEX virt
     in case paging_table pd_idx s of
          None \<Rightarrow> snd (pmm_alloc s)
        | Some s \<Rightarrow>
            let s = (if flags AND PAGE_USER \<noteq> 0 then set_pde pd_idx (pde s pd_idx OR PAGE_USER) s else s);
                pt = PAGE_FRAME (pde s pd_idx)
            in s\<lparr>mem := st32 (mem s) (slot pt pt_idx)
                  ((phys AND 0xFFFFF000) OR (flags AND 0xFFF) OR PAGE_PRESENT)\<rparr>)"

definition paging_unmap :: "u32 \<Rightarrow> 'z paging_scheme \<Rightarrow> 'z paging_scheme" where
  "paging_unmap virt s =
    (let pd_idx = PD_INDEX virt; pt_idx = PT_INDEX virt
     in if pde s pd_idx AND PAGE_PRESENT = 0 then s
        else let pt = PAGE_FRAME (pde s pd_idx)
             in s\<lparr>mem := st32 (mem s) (slot pt pt_idx) 0\<rparr>)"

definition paging_get_phys :: "u32 \<Rightarrow> 'z paging_scheme \<Rightarrow> u32" where
  "paging_get_phys virt s =
    (let pd_idx = PD_INDEX virt; pt_idx = PT_INDEX virt
     in if pde s pd_idx AND PAGE_PRESENT = 0 then 0
        else let pt = PAGE_FRAME (pde s pd_idx); e = ld32 (mem s) (slot pt pt_idx)
             in if e AND PAGE_PRESENT = 0 then 0
                else PAGE_FRAME e OR (virt AND 0xFFF))"

subsection \<open>Entries and slots\<close>

definition page_aligned :: "u32 \<Rightarrow> bool" where
  "page_aligned a \<longleftrightarrow> 4096 dvd unat a"

lemma frame_mask: "0xFFFFF000 = NOT (mask 12 :: u32)" "0xFFF = (mask 12 :: u32)" "0x3FF = (mask 10 :: u32)"
  by (simp_all add: mask_eq_exp_minus_1)

lemma page_aligned_page_addr [simp]: "p < 4096 \<Longrightarrow> page_aligned (page_addr p)"
  by (simp add: page_aligned_def unat_page_addr)

lemma page_aligned_FRAME [simp]: "page_aligned (PAGE_FRAME e)"
  by (simp add: page_aligned_def PAGE_FRAME_def frame_mask unat_and_not_mask)

lemma index_bound [simp]: "PD_INDEX v < 1024" "PT_INDEX v < 1024"
  using and_mask_less' [of 10 "drop_bit 22 v"] and_mask_less' [of 10 "drop_bit 12 v"]
  by (simp_all add: PD_INDEX_def PT_INDEX_def frame_mask)

lemma entry_present:
  "odd (e OR (f OR 1) :: u32)" "odd (e OR 1 OR 2 :: u32)" "odd (e OR 4 :: u32) = odd e"
  by (simp_all add: bit_0 [symmetric] bit_simps)

lemma bit_mask12: "bit (x AND mask 12 :: u32) n \<longleftrightarrow> bit x n \<and> n < 12"
  by (auto simp: bit_simps)

lemma bit_flags: "bit (4 :: int) n \<longleftrightarrow> n = 2" "bit (3 :: int) n \<longleftrightarrow> n < 2"
proof -
  have "bit (2 ^ 2 :: int) n \<longleftrightarrow> n = 2" by (simp only: bit_exp_iff) auto
  then show "bit (4 :: int) n \<longleftrightarrow> n = 2" by simp
  have "(3 :: int) = mask 2" by (simp add: mask_eq_exp_minus_1)
  then show "bit (3 :: int) n \<longleftrightarrow> n < 2" by (simp only: bit_mask_iff) simp
qed

lemma entry_frame:
  shows "PAGE_FRAME (e OR 4) = PAGE_FRAME e"
    and "PAGE_FRAME (e OR 1 OR 2) = PAGE_FRAME e"
    and "PAGE_FRAME ((e AND 0xFFFFF000) OR (f AND 0xFFF) OR 1) = PAGE_FRAME e"
proof -
  show "PAGE_FRAME (e OR 4) = PAGE_FRAME e" unfolding PAGE_FRAME_def frame_mask
    by (rule bit_word_eqI) (auto simp: bit_simps bit_flags)
  show "PAGE_FRAME (e OR 1 OR 2) = PAGE_FRAME e" unfolding PAGE_FRAME_def frame_mask
    by (rule bit_word_eqI) (auto simp: bit_simps bit_flags)
  show "PAGE_FRAME ((e AND 0xFFFFF000) OR (f AND 0xFFF) OR 1) = PAGE_FRAME e"
    unfolding PAGE_FRAME_def frame_mask by (rule bit_word_eqI) (auto simp: bit_simps)
qed

lemma PAGE_FRAME_aligned: "page_aligned a \<Longrightarrow> PAGE_FRAME a = a"
  by (simp add: page_aligned_def PAGE_FRAME_def frame_mask u32_eq_unat unat_and_not_mask)

lemma present_odd: "e AND PAGE_PRESENT = 0 \<longleftrightarrow> even (e :: u32)"
  by (simp add: and_one_eq even_iff_mod_2_eq_zero)

lemma slot_unat:
  assumes "page_aligned a" and "i < 1024"
  shows "unat (slot a i) = unat a + 4 * unat i" and "aligned4 (slot a i)" and "4 * unat i < 4096"
proof -
  have i: "unat i < 1024" using assms(2) by (simp add: word_less_nat_alt)
  then show "4 * unat i < 4096" by simp
  obtain q where q: "unat a = 4096 * q" using assms(1) by (auto simp: page_aligned_def elim: dvdE)
  have i4: "unat (4 * i) = 4 * unat i" using i by (simp add: unat_word_ariths)
  have "4096 * q < 4294967296" using unat_u32_less [of a] unfolding q .
  then have "unat a + unat (4 * i) < 2 ^ 32" unfolding q i4 using i by simp
  then show s: "unat (slot a i) = unat a + 4 * unat i" unfolding slot_def using i4 by (subst unat_add_small) simp_all
  show "aligned4 (slot a i)" unfolding aligned4_def s q by simp
qed

lemma slot_eq:
  assumes "page_aligned a" and "page_aligned b" and "i < 1024" and "j < 1024"
  shows "slot a i = slot b j \<longleftrightarrow> a = b \<and> i = j"
proof
  assume "slot a i = slot b j"
  then have e: "unat a + 4 * unat i = unat b + 4 * unat j"
    using slot_unat(1) [OF assms(1,3)] slot_unat(1) [OF assms(2,4)] by simp
  obtain q r where qr: "unat a = 4096 * q" "unat b = 4096 * r"
    using assms(1,2) by (auto simp: page_aligned_def elim!: dvdE)
  have "q = (4096 * q + 4 * unat i) div 4096" "r = (4096 * r + 4 * unat j) div 4096"
    using slot_unat(3) [OF assms(1,3)] slot_unat(3) [OF assms(2,4)] by simp_all
  then have "q = r" using e qr by simp
  then have "unat a = unat b \<and> unat i = unat j" using e qr by simp
  then show "a = b \<and> i = j" by (simp add: u32_eq_unat)
qed simp

lemma ld_slot [mem_simps]:
  assumes "page_aligned a" and "page_aligned b" and "i < 1024" and "j < 1024"
  shows "ld32 (st32 m (slot b j) v) (slot a i) = (if a = b \<and> i = j then v else ld32 m (slot a i))"
  using assms by (simp add: ram.ld_st slot_unat slot_eq)

lemma fold_slots:
  assumes "page_aligned a" and "page_aligned b" and "i < 1024" and "\<forall>j \<in> set js. j < 1024"
  shows "ld32 (fold (\<lambda>j m. st32 m (slot b (of_nat j)) (f j)) js m) (slot a i) =
    (if a = b \<and> unat i \<in> set js then f (unat i) else ld32 m (slot a i))"
  using assms(4)
proof (induction js arbitrary: m)
  case (Cons j js)
  have j: "unat (of_nat j :: u32) = j" using Cons.prems by (intro unat_of_nat_u32) auto
  then have "of_nat j < (1024 :: u32)" using Cons.prems by (simp add: word_less_nat_alt)
  moreover have "i = of_nat j \<longleftrightarrow> unat i = j" using j by (auto simp: u32_eq_unat)
  ultimately show ?case using Cons assms by (auto simp: mem_simps)
qed simp

lemma ld_zero_page [mem_simps]:
  assumes "page_aligned a" and "page_aligned b" and "i < 1024"
  shows "ld32 (zero_page b m) (slot a i) = (if a = b then 0 else ld32 m (slot a i))"
  using assms unfolding zero_page_def by (subst fold_slots) (auto simp: word_less_nat_alt)

lemma page_aligned_bit:
  assumes "page_aligned a" and "n < 12"
  shows "\<not> bit a n"
proof -
  have "bit a n = bit (PAGE_FRAME a) n" using assms(1) by (simp add: PAGE_FRAME_aligned)
  then show ?thesis using assms(2) by (simp add: PAGE_FRAME_def frame_mask bit_simps)
qed

lemma pmm_view_paging [simp]:
  "pmm_free_pages (s\<lparr>kernel_page_directory := d\<rparr>) = pmm_free_pages s"
  "pmm_wf (s\<lparr>kernel_page_directory := d\<rparr>) = pmm_wf s"
  "pmm_free_pages (s\<lparr>cr0 := c\<rparr>) = pmm_free_pages s" "pmm_wf (s\<lparr>cr0 := c\<rparr>) = pmm_wf s"
  "pmm_free_pages (s\<lparr>cr3 := d\<rparr>) = pmm_free_pages s" "pmm_wf (s\<lparr>cr3 := d\<rparr>) = pmm_wf s"
  by (simp_all add: pmm_free_pages_def pmm_wf_def)

subsection \<open>Abstract view and invariant\<close>

text \<open>The entry in force for a virtual address; 0 where there is no page table.\<close>

definition pte :: "'z paging_scheme \<Rightarrow> u32 \<Rightarrow> u32" where
  "pte s virt = (if odd (pde s (PD_INDEX virt))
     then ld32 (mem s) (slot (PAGE_FRAME (pde s (PD_INDEX virt))) (PT_INDEX virt)) else 0)"

definition same_page :: "u32 \<Rightarrow> u32 \<Rightarrow> bool" where
  "same_page v w \<longleftrightarrow> PD_INDEX v = PD_INDEX w \<and> PT_INDEX v = PT_INDEX w"

text \<open>Ring 3 may use a page only if both the directory entry and the table entry allow it.\<close>

definition user_page :: "'z paging_scheme \<Rightarrow> u32 \<Rightarrow> bool" where
  "user_page s virt \<longleftrightarrow> odd (pte s virt) \<and> bit (pde s (PD_INDEX virt)) 2 \<and> bit (pte s virt) 2"

definition table_page :: "'z paging_scheme \<Rightarrow> u32 \<Rightarrow> bool" where
  "table_page s a \<longleftrightarrow> (\<exists>p. 0 < p \<and> p < 4096 \<and> a = page_addr p \<and> p \<notin> pmm_free_pages s)"

definition paging_ok :: "'z paging_scheme \<Rightarrow> bool" where
  "paging_ok s \<longleftrightarrow> pmm_wf s \<and> table_page s (kernel_page_directory s)
    \<and> (\<forall>i < 1024. odd (pde s i) \<longrightarrow>
        table_page s (PAGE_FRAME (pde s i)) \<and> PAGE_FRAME (pde s i) \<noteq> kernel_page_directory s)
    \<and> (\<forall>i < 1024. \<forall>j < 1024. odd (pde s i) \<longrightarrow> odd (pde s j) \<longrightarrow>
        PAGE_FRAME (pde s i) = PAGE_FRAME (pde s j) \<longrightarrow> i = j)"

lemma table_page_aligned: "table_page s a \<Longrightarrow> page_aligned a"
  by (auto simp: table_page_def)

lemma paging_get_phys_pte:
  "paging_get_phys virt s = (if odd (pte s virt) then PAGE_FRAME (pte s virt) OR (virt AND 0xFFF) else 0)"
  by (simp add: paging_get_phys_def pte_def present_odd Let_def)

lemma pde_set_pde:
  assumes "paging_ok s" and "i < 1024" and "j < 1024"
  shows "pde (set_pde i v s) j = (if i = j then v else pde s j)"
proof -
  have "page_aligned (kernel_page_directory s)" using assms(1) table_page_aligned by (auto simp: paging_ok_def)
  then show ?thesis using assms(2,3) by (auto simp: pde_def set_pde_def mem_simps)
qed

lemma set_pde_flags:
  assumes ok: "paging_ok s" and i: "i < 1024" and v: "odd v = odd (pde s i)" "PAGE_FRAME v = PAGE_FRAME (pde s i)"
  shows "paging_ok (set_pde i v s)" and "pte (set_pde i v s) w = pte s w"
proof -
  note pde = pde_set_pde [OF ok i]
  have view: "kernel_page_directory (set_pde i v s) = kernel_page_directory s"
    "table_page (set_pde i v s) = table_page s" "pmm_wf (set_pde i v s) = pmm_wf s"
    by (auto simp: set_pde_def table_page_def fun_eq_iff)
  show "paging_ok (set_pde i v s)"
    using ok v unfolding paging_ok_def view by (auto simp: pde)
  show "pte (set_pde i v s) w = pte s w"
  proof (cases "odd (pde s (PD_INDEX w))")
    case True
    let ?pt = "PAGE_FRAME (pde s (PD_INDEX w))"
    have ne: "?pt \<noteq> kernel_page_directory s" and kpd: "page_aligned (kernel_page_directory s)"
      using ok True table_page_aligned by (auto simp: paging_ok_def)
    have "ld32 (mem (set_pde i v s)) (slot ?pt (PT_INDEX w)) = ld32 (mem s) (slot ?pt (PT_INDEX w))"
      using i ne kpd by (simp add: set_pde_def mem_simps)
    then show ?thesis using v True by (auto simp: pte_def pde)
  qed (use v in \<open>auto simp: pte_def pde\<close>)
qed

lemma store_pte:
  fixes e :: u32
  assumes ok: "paging_ok s" and present: "odd (pde s (PD_INDEX v))"
  defines "s' \<equiv> s\<lparr>mem := st32 (mem s) (slot (PAGE_FRAME (pde s (PD_INDEX v))) (PT_INDEX v)) e\<rparr>"
  shows "paging_ok s'" and "\<And>i. i < 1024 \<Longrightarrow> pde s' i = pde s i"
    and "pte s' w = (if same_page v w then e else pte s w)"
proof -
  have kpd: "page_aligned (kernel_page_directory s)" "kernel_page_directory s \<noteq> PAGE_FRAME (pde s (PD_INDEX v))"
    using ok present table_page_aligned by (force simp: paging_ok_def)+
  show pde: "pde s' i = pde s i" if "i < 1024" for i
    using that kpd by (simp add: pde_def s'_def mem_simps)
  have view: "kernel_page_directory s' = kernel_page_directory s" "table_page s' = table_page s" "pmm_wf s' = pmm_wf s"
    by (auto simp: s'_def table_page_def fun_eq_iff)
  show "paging_ok s'" using ok unfolding paging_ok_def view by (auto simp: pde)
  have "PAGE_FRAME (pde s (PD_INDEX w)) = PAGE_FRAME (pde s (PD_INDEX v)) \<longleftrightarrow> PD_INDEX w = PD_INDEX v"
    if "odd (pde s (PD_INDEX w))"
    using ok present that unfolding paging_ok_def by (metis index_bound(1))
  moreover have "ld32 (mem s') (slot (PAGE_FRAME (pde s (PD_INDEX w))) (PT_INDEX w)) =
      (if PAGE_FRAME (pde s (PD_INDEX w)) = PAGE_FRAME (pde s (PD_INDEX v)) \<and> PT_INDEX w = PT_INDEX v then e
       else ld32 (mem s) (slot (PAGE_FRAME (pde s (PD_INDEX w))) (PT_INDEX w)))"
    by (simp add: s'_def mem_simps)
  ultimately show "pte s' w = (if same_page v w then e else pte s w)"
    using present unfolding pte_def same_page_def pde [OF index_bound(1)]
    by (cases "odd (pde s (PD_INDEX w))") auto
qed


text \<open>A fresh page as table for a directory entry that is not present.\<close>

lemma new_table:
  assumes ok: "paging_ok s" and i: "i < 1024" "even (pde s i)" and al: "pmm_alloc s = (pt, s1)" "pt \<noteq> 0"
    and m: "\<forall>a j. page_aligned a \<longrightarrow> a \<noteq> pt \<longrightarrow> j < 1024 \<longrightarrow> ld32 m (slot a j) = ld32 (mem s) (slot a j)"
  defines "s' \<equiv> set_pde i (pt OR PAGE_PRESENT OR PAGE_WRITABLE) (s1\<lparr>mem := m\<rparr>)"
  shows "paging_ok s'" and "\<And>j. j < 1024 \<Longrightarrow> pde s' j = (if j = i then pt OR PAGE_PRESENT OR PAGE_WRITABLE else pde s j)"
    and "\<And>w. pte s' w = (if PD_INDEX w = i then ld32 m (slot pt (PT_INDEX w)) else pte s w)"
    and "pmm_free_pages s' = pmm_free_pages s - {Min (pmm_free_pages s)}"
    and "kernel_page_directory s' = kernel_page_directory s"
    and "PAGE_FRAME (pt OR PAGE_PRESENT OR PAGE_WRITABLE) = pt" and "page_aligned pt"
proof -
  have wf: "pmm_wf s" and kp: "table_page s (kernel_page_directory s)" using ok by (auto simp: paging_ok_def)
  obtain p where p: "p \<in> pmm_free_pages s" "0 < p" "p < 4096" "pt = page_addr p" "unat pt = 4096 * p"
      "pmm_free_pages s1 = pmm_free_pages s - {p}" "pmm_wf s1"
    using wf al by (rule pages.alloc_page)
  have ne: "pmm_free_pages s \<noteq> {}" using p(1) by auto
  obtain bm where s1: "s1 = s\<lparr>bitmap := bm\<rparr>" using al(1) by (auto simp: pmm_alloc_least [OF wf ne])
  show fp: "pmm_free_pages s' = pmm_free_pages s - {Min (pmm_free_pages s)}"
    using pmm_alloc_free_pages [OF wf ne] al(1) by (simp add: s'_def set_pde_def)
  show kd: "kernel_page_directory s' = kernel_page_directory s"
    by (simp add: s'_def s1 set_pde_def)
  show al_pt: "page_aligned pt" using p by simp
  show fr: "PAGE_FRAME (pt OR PAGE_PRESENT OR PAGE_WRITABLE) = pt"
    using al_pt by (simp only: entry_frame PAGE_FRAME_aligned)
  have other: "a \<noteq> pt" "page_aligned a" "table_page s' a" if tp: "table_page s a" for a
  proof -
    obtain q where q: "0 < q" "q < 4096" "a = page_addr q" "q \<notin> pmm_free_pages s"
      using tp by (auto simp: table_page_def)
    then have "q \<noteq> p" using p(1) by auto
    then show "a \<noteq> pt" using q(2,3) p(3,4) by (simp add: u32_eq_unat unat_page_addr)
    show "page_aligned a" using q(2,3) by simp
    show "table_page s' a" using q fp unfolding table_page_def by blast
  qed
  have kpd: "page_aligned (kernel_page_directory s)" "kernel_page_directory s \<noteq> pt" using other [OF kp] by auto
  have mem': "mem s' = st32 m (slot (kernel_page_directory s) i) (pt OR PAGE_PRESENT OR PAGE_WRITABLE)"
    by (simp add: s'_def s1 set_pde_def)
  show pde: "pde s' j = (if j = i then pt OR PAGE_PRESENT OR PAGE_WRITABLE else pde s j)" if "j < 1024" for j
    using that i(1) kpd by (simp add: pde_def kd mem' ld_slot m)
  have "p = Min (pmm_free_pages s)"
    using al(1) p(3,4) Min_in [OF _ ne] pmm_free_pages_bound [of s] unat_page_addr
    by (auto simp: pmm_alloc_least [OF wf ne] dest!: arg_cong [where f = unat])
  then have tp: "table_page s' pt" using p(2-4) fp unfolding table_page_def by blast
  have wf': "pmm_wf s'" using p(7) by (simp add: s'_def set_pde_def)
  have tables: "table_page s (PAGE_FRAME (pde s j)) \<and> PAGE_FRAME (pde s j) \<noteq> kernel_page_directory s"
    if "j < 1024" "odd (pde s j)" for j using ok that by (simp add: paging_ok_def)
  show "paging_ok s'"
    unfolding paging_ok_def kd
    using wf' other(3) [OF kp] tp kpd(2) tables other ok i(2) fr
    by (auto simp: pde paging_ok_def split: if_splits)
  show "pte s' w = (if PD_INDEX w = i then ld32 m (slot pt (PT_INDEX w)) else pte s w)" for w
  proof (cases "PD_INDEX w = i")
    case True
    then show ?thesis using fr kpd al_pt i(1) entry_present(2) [of pt] by (simp add: pte_def pde mem' ld_slot)
  next
    case False
    then show ?thesis
      using kpd i(1) tables [of "PD_INDEX w"] other [of "PAGE_FRAME (pde s (PD_INDEX w))"]
      by (auto simp: pte_def pde mem' ld_slot m)
  qed
qed


lemma paging_table_ok:
  assumes ok: "paging_ok s" and i: "i < 1024" and t: "paging_table i s = Some s'"
  shows "paging_ok s'" and "odd (pde s' i)" and "\<And>j. j < 1024 \<Longrightarrow> j \<noteq> i \<Longrightarrow> pde s' j = pde s j"
    and "bit (pde s' i) 2 \<Longrightarrow> odd (pde s i) \<and> bit (pde s i) 2" and "pte s' w = pte s w"
    and "odd (pde s i) \<Longrightarrow> s' = s" and "kernel_page_directory s' = kernel_page_directory s"
proof -
  have "paging_ok s' \<and> odd (pde s' i) \<and> (\<forall>j < 1024. j \<noteq> i \<longrightarrow> pde s' j = pde s j)
    \<and> (bit (pde s' i) 2 \<longrightarrow> odd (pde s i) \<and> bit (pde s i) 2) \<and> (\<forall>w. pte s' w = pte s w)
    \<and> (odd (pde s i) \<longrightarrow> s' = s) \<and> kernel_page_directory s' = kernel_page_directory s"
  proof (cases "odd (pde s i)")
    case True
    then show ?thesis using t ok by (simp add: paging_table_def present_odd)
  next
    case False
    obtain pt s1 where al: "pmm_alloc s = (pt, s1)" by force
    have pt: "pt \<noteq> 0" and s': "s' = set_pde i (pt OR PAGE_PRESENT OR PAGE_WRITABLE) (s1\<lparr>mem := zero_page pt (mem s1)\<rparr>)"
      using t False al by (auto simp: paging_table_def present_odd split: if_splits)
    have wf: "pmm_wf s" using ok by (simp add: paging_ok_def)
    have mem1: "mem s1 = mem s" using al by (auto simp: pmm_alloc_def split: prod.splits)
    have apt: "page_aligned pt" using wf al pt by (rule pages.alloc_page) simp
    have zero: "\<forall>a j. page_aligned a \<longrightarrow> a \<noteq> pt \<longrightarrow> j < 1024 \<longrightarrow>
        ld32 (zero_page pt (mem s1)) (slot a j) = ld32 (mem s) (slot a j)"
      using apt by (simp add: mem_simps mem1)
    have "even (pde s i)" using False by simp
    note nt = new_table [OF ok i this al pt zero, folded s']
    have "\<not> bit (pt OR 1 OR 2) 2"
      using page_aligned_bit [OF apt, of 2] by (simp add: bit_simps bit_flags)
    then show ?thesis
      using nt False apt entry_present(2) [of pt] i by (auto simp: mem_simps pte_def)
  qed
  then show "paging_ok s'" "odd (pde s' i)" "\<And>j. j < 1024 \<Longrightarrow> j \<noteq> i \<Longrightarrow> pde s' j = pde s j"
    "bit (pde s' i) 2 \<Longrightarrow> odd (pde s i) \<and> bit (pde s i) 2" "pte s' w = pte s w"
    "odd (pde s i) \<Longrightarrow> s' = s" "kernel_page_directory s' = kernel_page_directory s"
    by blast+
qed

subsection \<open>Mapping, unmapping and lookup\<close>

definition can_map :: "'z paging_scheme \<Rightarrow> u32 \<Rightarrow> bool" where
  "can_map s virt \<longleftrightarrow> odd (pde s (PD_INDEX virt)) \<or> pmm_free_pages s \<noteq> {}"

lemma paging_map_no_page:
  assumes "paging_ok s" and "\<not> can_map s virt"
  shows "paging_map virt phys flags s = s"
proof -
  have "pmm_alloc s = (0, s)" using assms by (simp add: paging_ok_def can_map_def pmm_alloc_empty)
  then show ?thesis using assms(2)
    by (simp add: paging_map_def paging_table_def present_odd can_map_def Let_def)
qed

lemma paging_map_ok:
  fixes phys flags :: u32
  assumes ok: "paging_ok s" and can: "can_map s virt"
  defines "s' \<equiv> paging_map virt phys flags s"
  shows "paging_ok s'"
    and "pte s' w = (if same_page virt w then (phys AND 0xFFFFF000) OR (flags AND 0xFFF) OR PAGE_PRESENT else pte s w)"
    and "\<And>i. i < 1024 \<Longrightarrow> bit (pde s' i) 2 \<longleftrightarrow>
      bit (pde s i) 2 \<and> odd (pde s i) \<or> i = PD_INDEX virt \<and> flags AND PAGE_USER \<noteq> 0 \<or> i \<noteq> PD_INDEX virt \<and> bit (pde s i) 2"
    and "kernel_page_directory s' = kernel_page_directory s"
proof -
  let ?i = "PD_INDEX virt"
  obtain t where t: "paging_table ?i s = Some t"
  proof (cases "odd (pde s ?i)")
    case False
    then have "fst (pmm_alloc s) \<noteq> 0"
      using ok can pages.alloc_zero_iff [of s] by (auto simp: paging_ok_def can_map_def)
    then show ?thesis using that False by (cases "pmm_alloc s") (auto simp: paging_table_def present_odd)
  qed (use that in \<open>auto simp: paging_table_def present_odd\<close>)
  note pt = paging_table_ok [OF ok index_bound(1) t]
  define u where "u = (if flags AND PAGE_USER \<noteq> 0 then set_pde ?i (pde t ?i OR PAGE_USER) t else t)"
  have sf: "paging_ok (set_pde ?i (pde t ?i OR PAGE_USER) t)" "pte (set_pde ?i (pde t ?i OR PAGE_USER) t) w = pte t w" for w
    using pt(1) by (intro set_pde_flags; simp add: entry_present entry_frame)+
  have u: "paging_ok u" "\<And>w. pte u w = pte t w" "odd (pde u ?i)"
    using sf pt(1,2) by (auto simp: u_def pde_set_pde entry_present)
  have s': "s' = u\<lparr>mem := st32 (mem u) (slot (PAGE_FRAME (pde u ?i)) (PT_INDEX virt))
      ((phys AND 0xFFFFF000) OR (flags AND 0xFFF) OR PAGE_PRESENT)\<rparr>"
    by (simp add: s'_def paging_map_def t u_def Let_def)
  note sp = store_pte [OF u(1,3), where e = "(phys AND 0xFFFFF000) OR (flags AND 0xFFF) OR PAGE_PRESENT", folded s']
  show "paging_ok s'" by (rule sp(1))
  show "pte s' w = (if same_page virt w then (phys AND 0xFFFFF000) OR (flags AND 0xFFF) OR PAGE_PRESENT else pte s w)"
    using sp(3) [of w] u(2) pt(5) by simp
  show "bit (pde s' i) 2 \<longleftrightarrow>
      bit (pde s i) 2 \<and> odd (pde s i) \<or> i = PD_INDEX virt \<and> flags AND PAGE_USER \<noteq> 0 \<or> i \<noteq> PD_INDEX virt \<and> bit (pde s i) 2"
    if "i < 1024" for i
    using sp(2) [OF that] pt(3) [OF that] pt(4,6) that pt(1) by (auto simp: u_def pde_set_pde bit_simps bit_flags)
  show "kernel_page_directory s' = kernel_page_directory s"
    using pt(7) by (simp add: s' u_def set_pde_def)
qed

lemma paging_unmap_ok:
  assumes ok: "paging_ok s"
  shows "paging_ok (paging_unmap virt s)"
    and "pte (paging_unmap virt s) w = (if same_page virt w then 0 else pte s w)"
proof -
  show "paging_ok (paging_unmap virt s)"
    using ok store_pte(1) [OF ok] by (simp add: paging_unmap_def present_odd Let_def)
  show "pte (paging_unmap virt s) w = (if same_page virt w then 0 else pte s w)"
  proof (cases "odd (pde s (PD_INDEX virt))")
    case True
    then show ?thesis using store_pte(3) [OF ok True, of 0 w] by (simp add: paging_unmap_def present_odd Let_def)
  qed (auto simp: paging_unmap_def present_odd pte_def same_page_def)
qed

lemma mapped_phys:
  "PAGE_FRAME ((phys AND 0xFFFFF000) OR (flags AND 0xFFF) OR PAGE_PRESENT) = phys AND 0xFFFFF000"
  by (simp only: entry_frame) (simp add: PAGE_FRAME_def)


subsection \<open>Initialisation\<close>

text \<open>The entry of an identity-mapped kernel page.\<close>

definition ident :: "u32 \<Rightarrow> u32" where
  "ident v = PAGE_FRAME v OR PAGE_PRESENT OR PAGE_WRITABLE"

definition paging_upto :: "nat \<Rightarrow> 'z paging_scheme \<Rightarrow> bool" where
  "paging_upto k s \<longleftrightarrow> paging_ok s
    \<and> (\<forall>i < 1024. if unat i < k then odd (pde s i) \<and> \<not> bit (pde s i) 2 else pde s i = 0)
    \<and> (\<forall>v. unat (PD_INDEX v) < k \<longrightarrow> pte s v = ident v)"

lemma unat_index:
  "unat (PD_INDEX v) = unat v div 2 ^ 22" "unat (PT_INDEX v) = unat v div 2 ^ 12 mod 2 ^ 10"
proof -
  have and_mask: "unat (x AND mask n) = unat x mod 2 ^ n" for x :: u32 and n
    by (simp only: take_bit_eq_mask [symmetric] unsigned_take_bit_eq take_bit_eq_mod [of n "unat x"])
  have dr: "unat (drop_bit n v) = unat v div 2 ^ n" for n
    by (simp only: unat_drop_bit_eq drop_bit_eq_div [of n "unat v"])
  show "unat (PT_INDEX v) = unat v div 2 ^ 12 mod 2 ^ 10"
    unfolding PT_INDEX_def frame_mask and_mask dr ..
  have "unat v div 2 ^ 22 < 2 ^ 10" using unat_u32_less [of v] by (simp add: div_less_iff_less_mult)
  then show "unat (PD_INDEX v) = unat v div 2 ^ 22"
    unfolding PD_INDEX_def frame_mask and_mask dr by (rule mod_less)
qed

lemma unat_PAGE_FRAME: "unat (PAGE_FRAME v) = 4096 * (unat v div 4096)"
  by (simp add: PAGE_FRAME_def frame_mask unat_and_not_mask)

lemma frame_of_index: "(PD_INDEX v * 1024 + PT_INDEX v) * PAGE_SIZE = PAGE_FRAME v"
proof -
  define d where "d = unat v div 4096"
  have d: "unat (PD_INDEX v) = d div 1024" "unat (PT_INDEX v) = d mod 1024" "unat (PAGE_FRAME v) = 4096 * d"
    by (simp_all add: unat_index unat_PAGE_FRAME d_def div_mult2_eq [symmetric])
  have "PD_INDEX v * 1024 + PT_INDEX v = of_nat (d div 1024 * 1024 + d mod 1024)"
    by (simp add: d(1,2) [symmetric] del: div_mult_mod_eq)
  then have "(PD_INDEX v * 1024 + PT_INDEX v) * PAGE_SIZE = of_nat (4096 * d)" by simp
  also have "\<dots> = PAGE_FRAME v" by (simp add: d(3) [symmetric])
  finally show ?thesis .
qed


lemma paging_init_entry_step:
  assumes up: "paging_upto k s" and k: "k < 4" and ne: "pmm_free_pages s \<noteq> {}"
  shows "paging_upto (Suc k) (paging_init_entry k s)"
    and "pmm_free_pages (paging_init_entry k s) = pmm_free_pages s - {Min (pmm_free_pages s)}"
    and "i < 1024 \<Longrightarrow> pde (paging_init_entry k s) i =
      (if i = of_nat k then page_addr (Min (pmm_free_pages s)) OR PAGE_PRESENT OR PAGE_WRITABLE else pde s i)"
    and "kernel_page_directory (paging_init_entry k s) = kernel_page_directory s"
proof -
  let ?k = "of_nat k :: u32"
  have uk: "unat ?k = k" using k by (intro unat_of_nat_u32) simp
  then have k1024: "?k < 1024" using k by (simp add: word_less_nat_alt)
  have ok: "paging_ok s" and wf: "pmm_wf s" using up by (auto simp: paging_upto_def paging_ok_def)
  obtain pt s1 where al: "pmm_alloc s = (pt, s1)" by force
  have pt: "pt \<noteq> 0" using pages.alloc_zero_iff [OF wf] ne al by simp
  have apt: "page_aligned pt" using wf al pt by (rule pages.alloc_page) simp
  have mem1: "mem s1 = mem s" using al by (auto simp: pmm_alloc_def split: prod.splits)
  define f where "f = (\<lambda>j. (of_nat k * 1024 + of_nat j) * PAGE_SIZE OR PAGE_PRESENT OR PAGE_WRITABLE :: u32)"
  define m where "m = fold (\<lambda>j m. st32 m (slot pt (of_nat j)) (f j)) [0 ..< 1024] (zero_page pt (mem s))"
  have ld: "ld32 m (slot a j) = (if a = pt then f (unat j) else ld32 (mem s) (slot a j))"
    if "page_aligned a" "j < 1024" for a j
    unfolding m_def using that apt by (subst fold_slots) (auto simp: mem_simps word_less_nat_alt)
  have even: "even (pde s ?k)" using up k1024 uk by (auto simp: paging_upto_def)
  define s' where "s' = set_pde ?k (pt OR PAGE_PRESENT OR PAGE_WRITABLE) (s1\<lparr>mem := m\<rparr>)"
  have s': "paging_init_entry k s = s'"
    by (simp add: paging_init_entry_def al s'_def set_pde_def m_def f_def mem1 Let_def)
  have mo: "\<forall>a j. page_aligned a \<longrightarrow> a \<noteq> pt \<longrightarrow> j < 1024 \<longrightarrow> ld32 m (slot a j) = ld32 (mem s) (slot a j)"
    using ld by simp
  note nt = new_table [OF ok k1024 even al pt mo, folded s'_def]
  show "pmm_free_pages (paging_init_entry k s) = pmm_free_pages s - {Min (pmm_free_pages s)}"
    unfolding s' by (rule nt(4))
  show "i < 1024 \<Longrightarrow> pde (paging_init_entry k s) i =
      (if i = of_nat k then page_addr (Min (pmm_free_pages s)) OR PAGE_PRESENT OR PAGE_WRITABLE else pde s i)" for i
    unfolding s' using nt(2) [of i] al pmm_alloc_least [OF wf ne] by simp
  show "kernel_page_directory (paging_init_entry k s) = kernel_page_directory s"
    using al pmm_alloc_least [OF wf ne] by (auto simp: s' s'_def set_pde_def)
  have pte: "pte s' v = ident v" if "PD_INDEX v = ?k" for v
  proof -
    have "pte s' v = f (unat (PT_INDEX v))" using nt(3) [of v] that ld [OF apt, of "PT_INDEX v"] by simp
    also have "\<dots> = (PD_INDEX v * 1024 + PT_INDEX v) * PAGE_SIZE OR PAGE_PRESENT OR PAGE_WRITABLE"
      by (simp add: f_def that)
    finally show ?thesis by (simp only: frame_of_index ident_def)
  qed
  have "\<not> bit (pt OR 1 OR 2) 2" using page_aligned_bit [OF apt, of 2] by (simp add: bit_simps bit_flags)
  then have "(if unat i < Suc k then odd (pde s' i) \<and> \<not> bit (pde s' i) 2 else pde s' i = 0)" if "i < 1024" for i
    using nt(2) [OF that] that up entry_present(2) [of pt] uk by (auto simp: paging_upto_def less_Suc_eq)
  moreover have "pte s' v = ident v" if "unat (PD_INDEX v) < Suc k" for v
  proof (cases "PD_INDEX v = ?k")
    case False
    then have "unat (PD_INDEX v) \<noteq> k" using uk u32_eq_unat [of "PD_INDEX v" ?k] by auto
    then show ?thesis using nt(3) [of v] False that up by (simp add: paging_upto_def less_Suc_eq)
  qed (rule pte)
  ultimately show "paging_upto (Suc k) (paging_init_entry k s)"
    unfolding s' paging_upto_def using nt(1) by blast
qed


lemma paging_init_entries:
  assumes "paging_upto 0 s" and "k \<le> 4" and "k \<le> card (pmm_free_pages s)"
  shows "paging_upto k (fold paging_init_entry [0 ..< k] s)
    \<and> card (pmm_free_pages (fold paging_init_entry [0 ..< k] s)) = card (pmm_free_pages s) - k"
  using assms(2,3)
proof (induction k)
  case (Suc k)
  let ?t = "fold paging_init_entry [0 ..< k] s"
  have t: "paging_upto k ?t" "card (pmm_free_pages ?t) = card (pmm_free_pages s) - k" using Suc by auto
  then have ne: "pmm_free_pages ?t \<noteq> {}" using Suc.prems by auto
  have "fold paging_init_entry [0 ..< Suc k] s = paging_init_entry k ?t" by simp
  then show ?case
    using paging_init_entry_step [OF t(1) _ ne] Suc.prems t(2) ne by (simp add: card_Diff_singleton)
qed (use assms(1) in simp)

lemma paging_start:
  assumes wf: "pmm_wf s" and ne: "pmm_free_pages s \<noteq> {}" and al: "pmm_alloc s = (pd, s1)"
  defines "s0 \<equiv> s1\<lparr>kernel_page_directory := pd, mem := zero_page pd (mem s1)\<rparr>"
  shows "paging_upto 0 s0" and "card (pmm_free_pages s0) = card (pmm_free_pages s) - 1"
proof -
  have pd: "pd \<noteq> 0" using pages.alloc_zero_iff [OF wf] ne al by simp
  obtain p where p: "p \<in> pmm_free_pages s" "0 < p" "p < 4096" "pd = page_addr p"
      "pmm_free_pages s1 = pmm_free_pages s - {p}" "pmm_wf s1"
    using wf al pd by (rule pages.alloc_page)
  show "card (pmm_free_pages s0) = card (pmm_free_pages s) - 1" using p(1,5) by (simp add: s0_def)
  have "pde s0 i = 0" if "i < 1024" for i
    using that p(3,4) by (simp add: pde_def s0_def mem_simps)
  moreover have "table_page s0 pd" using p by (auto simp: table_page_def s0_def)
  ultimately show "paging_upto 0 s0" using p(6) by (simp add: paging_upto_def paging_ok_def s0_def)
qed

lemma view_control [simp]:
  "pde (s\<lparr>cr3 := a, cr0 := b\<rparr>) i = pde s i" "pte (s\<lparr>cr3 := a, cr0 := b\<rparr>) v = pte s v"
  "paging_ok (s\<lparr>cr3 := a, cr0 := b\<rparr>) = paging_ok s"
  by (simp_all add: pde_def pte_def paging_ok_def table_page_def)

lemma paging_init_ok:
  assumes wf: "pmm_wf s" and five: "5 \<le> card (pmm_free_pages s)"
  shows "paging_ok (paging_init s)" and "pte (paging_init s) v = (if unat v < 2 ^ 24 then ident v else 0)"
    and "i < 1024 \<Longrightarrow> \<not> bit (pde (paging_init s) i) 2"
    and "cr3 (paging_init s) = kernel_page_directory (paging_init s)" and "bit (cr0 (paging_init s)) 31"
proof -
  obtain pd s1 where al: "pmm_alloc s = (pd, s1)" by force
  define s0 where "s0 = s1\<lparr>kernel_page_directory := pd, mem := zero_page pd (mem s1)\<rparr>"
  define t where "t = fold paging_init_entry [0 ..< 4] s0"
  have ne: "pmm_free_pages s \<noteq> {}" using five by auto
  have up: "paging_upto 4 t"
    using paging_init_entries [of s0 4] paging_start [OF wf ne al] five by (simp add: s0_def t_def)
  have init: "paging_init s = t\<lparr>cr3 := kernel_page_directory t, cr0 := cr0 t OR 0x80000000\<rparr>"
    by (simp add: paging_init_def al t_def s0_def Let_def)
  show "paging_ok (paging_init s)" using up by (simp add: init paging_upto_def)
  show "i < 1024 \<Longrightarrow> \<not> bit (pde (paging_init s) i) 2"
    using up by (auto simp: init paging_upto_def split: if_splits)
  have "unat (PD_INDEX v) < 4 \<longleftrightarrow> unat v < 2 ^ 24" by (simp add: unat_index div_less_iff_less_mult)
  then show "pte (paging_init s) v = (if unat v < 2 ^ 24 then ident v else 0)"
    using up index_bound(1) [of v] by (auto simp: init paging_upto_def pte_def)
  show "cr3 (paging_init s) = kernel_page_directory (paging_init s)" by (simp add: init)
  show "bit (cr0 (paging_init s)) 31" by (simp add: init bit_or_iff)
qed

lemma frame_and_offset: "PAGE_FRAME v OR (v AND 0xFFF) = v"
  unfolding PAGE_FRAME_def frame_mask by (rule bit_word_eqI) (auto simp: bit_simps)

subsection \<open>Properties\<close>

text \<open>
  C17: after \<open>paging_init\<close> the first 16 MB are mapped to themselves, everything above is unmapped, no
  page is accessible from ring 3, and paging is enabled on the new directory.
\<close>

theorem paging_init_identity:
  assumes "pmm_wf s" and "5 \<le> card (pmm_free_pages s)"
  shows "paging_ok (paging_init s)
    \<and> (\<forall>v. paging_get_phys v (paging_init s) = (if unat v < 2 ^ 24 then v else 0))
    \<and> (\<forall>v. \<not> user_page (paging_init s) v)
    \<and> cr3 (paging_init s) = kernel_page_directory (paging_init s) \<and> bit (cr0 (paging_init s)) 31"
proof -
  note init = paging_init_ok [OF assms]
  have "PAGE_FRAME (ident v) = PAGE_FRAME v" "odd (ident v)" for v
    using entry_frame(2) [of "PAGE_FRAME v"] entry_present(2) [of "PAGE_FRAME v"]
    by (simp_all add: ident_def PAGE_FRAME_aligned)
  then have "paging_get_phys v (paging_init s) = (if unat v < 2 ^ 24 then v else 0)" for v
    by (simp add: paging_get_phys_pte init(2) frame_and_offset)
  moreover have "\<not> user_page (paging_init s) v" for v
    using init(3) [OF index_bound(1)] by (simp add: user_page_def)
  ultimately show ?thesis using init by blast
qed

text \<open>
  C6: \<open>paging_map\<close> changes the translation of exactly the page it is given, and a page becomes
  accessible from ring 3 only if its own entry carries the user flag; when a page table is needed
  and no page is left, nothing changes.
\<close>

theorem paging_map_exact:
  assumes "paging_ok s"
  shows "let s' = paging_map virt phys flags s in
    if can_map s virt then
      paging_ok s'
      \<and> (\<forall>w. paging_get_phys w s' =
          (if same_page virt w then (phys AND 0xFFFFF000) OR (w AND 0xFFF) else paging_get_phys w s))
      \<and> (\<forall>w. user_page s' w \<longrightarrow> (if same_page virt w then flags AND PAGE_USER \<noteq> 0 else bit (pte s w) 2))
      \<and> (flags AND PAGE_USER \<noteq> 0 \<longrightarrow> user_page s' virt)
    else s' = s"
proof (cases "can_map s virt")
  case True
  let ?s = "paging_map virt phys flags s"
  let ?e = "(phys AND 0xFFFFF000) OR (flags AND 0xFFF) OR PAGE_PRESENT"
  note map = paging_map_ok [OF assms True, where phys = phys and flags = flags]
  have e: "odd ?e" by (rule entry_present)
  have "paging_get_phys w ?s =
      (if same_page virt w then (phys AND 0xFFFFF000) OR (w AND 0xFFF) else paging_get_phys w s)" for w
    using map(2) [of w] e by (simp add: paging_get_phys_pte mapped_phys)
  moreover have flag: "bit ?e 2 \<longleftrightarrow> flags AND PAGE_USER \<noteq> 0"
  proof -
    have "bit ?e 2 \<longleftrightarrow> bit flags 2" by (simp add: frame_mask bit_simps)
    also have "\<dots> \<longleftrightarrow> flags AND PAGE_USER \<noteq> 0" using and_single_bit_eq_0 [of 2 flags] by simp
    finally show ?thesis .
  qed
  have "user_page ?s w \<Longrightarrow> (if same_page virt w then flags AND PAGE_USER \<noteq> 0 else bit (pte s w) 2)" for w
    using map(2) [of w] flag by (auto simp: user_page_def split: if_splits)
  moreover have "flags AND PAGE_USER \<noteq> 0 \<Longrightarrow> user_page ?s virt"
    using map(2) [of virt] map(3) [OF index_bound(1), of virt] e flag by (simp add: user_page_def same_page_def)
  ultimately show ?thesis using True map(1) by (simp add: Let_def)
next
  case False
  then show ?thesis using paging_map_no_page [OF assms False] by (simp add: Let_def)
qed

text \<open>\<open>paging_unmap\<close> removes exactly one page, so it undoes a \<open>paging_map\<close> of an unmapped page.\<close>

theorem paging_unmap_exact:
  assumes "paging_ok s"
  shows "paging_ok (paging_unmap virt s)
    \<and> (\<forall>w. paging_get_phys w (paging_unmap virt s) = (if same_page virt w then 0 else paging_get_phys w s))
    \<and> (paging_get_phys virt s = 0 \<and> even (pte s virt) \<longrightarrow>
        (\<forall>w. paging_get_phys w (paging_unmap virt (paging_map virt phys flags s)) = paging_get_phys w s))"
proof -
  have un: "paging_get_phys w (paging_unmap virt t) = (if same_page virt w then 0 else paging_get_phys w t)"
    if "paging_ok t" for w and t :: "'a paging_scheme"
    using paging_unmap_ok(2) [OF that, of virt w] by (simp add: paging_get_phys_pte)
  moreover have "paging_get_phys w (paging_unmap virt (paging_map virt phys flags s)) = paging_get_phys w s"
    if "even (pte s virt)" for w
  proof (cases "can_map s virt")
    case True
    note map = paging_map_ok [OF assms True, where phys = phys and flags = flags]
    have "pte s w = pte s virt" if "same_page virt w" using that by (simp add: same_page_def pte_def)
    then show ?thesis using un [OF map(1)] map(2) [of w] that by (auto simp: paging_get_phys_pte)
  next
    case False
    have "pte s w = pte s virt" if "same_page virt w" using that by (simp add: same_page_def pte_def)
    then show ?thesis
      using un [OF assms] paging_map_no_page [OF assms False] that by (auto simp: paging_get_phys_pte)
  qed
  ultimately show ?thesis using assms paging_unmap_ok(1) [OF assms] by blast
qed

subsection \<open>The boot state\<close>

definition boot_paging0 :: paging where
  "boot_paging0 = \<lparr>mem = (\<lambda>_. 0), bitmap = bitmap boot_pmm, free_list = 0, heap_pages = 0,
    kernel_page_directory = 0, cr0 = 1, cr3 = 0\<rparr>"

definition boot_paging :: paging where
  "boot_paging = paging_init boot_paging0"

lemma boot_paging0_ok: "pmm_wf boot_paging0" "5 \<le> card (pmm_free_pages boot_paging0)"
proof -
  have fp: "pmm_free_pages boot_paging0 = {0x127 ..< 0x1F0} \<union> {0x300 ..< 0x1000}"
    using boot_pmm_free_pages by (simp add: pmm_free_pages_def boot_paging0_def)
  show "pmm_wf boot_paging0" using boot_pmm_wf fp boot_pmm_free_pages by (simp add: pmm_wf_def boot_paging0_def)
  show "5 \<le> card (pmm_free_pages boot_paging0)" by (simp add: fp card_Un_disjoint)
qed

lemma boot_paging_ok: "paging_ok boot_paging"
  unfolding boot_paging_def by (rule paging_init_ok) (fact boot_paging0_ok)+

theorem paging_init_identity_witness:
  "pmm_wf boot_paging0 \<and> 5 \<le> card (pmm_free_pages boot_paging0)
    \<and> paging_get_phys 0x200123 (paging_init boot_paging0) = 0x200123
    \<and> paging_get_phys 0x1000000 (paging_init boot_paging0) = 0"
  using paging_init_identity [OF boot_paging0_ok] boot_paging0_ok by simp

theorem paging_map_exact_witness:
  "paging_ok boot_paging \<and> can_map boot_paging 0x400000
    \<and> paging_get_phys 0x400123 (paging_map 0x400000 0x800000 7 boot_paging) = 0x800123
    \<and> user_page (paging_map 0x400000 0x800000 7 boot_paging) 0x400000"
proof -
  have "pte boot_paging 0x400000 = ident 0x400000"
    unfolding boot_paging_def by (simp add: paging_init_ok(2) [OF boot_paging0_ok])
  moreover have "ident 0x400000 \<noteq> 0" by (simp add: ident_def PAGE_FRAME_def)
  ultimately have can: "can_map boot_paging 0x400000" by (auto simp: can_map_def pte_def split: if_splits)
  have sp: "same_page 0x400000 0x400123" by (simp add: same_page_def PD_INDEX_def PT_INDEX_def)
  show ?thesis
    using paging_map_exact [OF boot_paging_ok, of "0x400000" "0x800000" 7] can sp boot_paging_ok
    by (simp add: Let_def)
qed

theorem paging_unmap_exact_witness:
  "paging_ok boot_paging \<and> paging_get_phys 0x400123 (paging_unmap 0x400000 boot_paging) = 0"
proof -
  have sp: "same_page 0x400000 0x400123" by (simp add: same_page_def PD_INDEX_def PT_INDEX_def)
  then show ?thesis using paging_unmap_exact [OF boot_paging_ok, of "0x400000"] boot_paging_ok by simp
qed

end
