(* ===== verification/Process.thy ===== *)
theory Process
  imports Paging
begin

text \<open>
  Processes (kernel/process.c, kernel/process.h, kernel/switch.asm): the table of 16 processes, the
  round-robin scheduler and the context switch with the registers it saves on the kernel stacks.
  A pointer into the table is a slot number. The saved stack pointer of a process is a field of its
  table entry; the frames themselves are in memory. \<open>cpu\<close> is the state of the processor at the
  entry of context\_switch, with \<open>esp\<close> at the return address of the call.
\<close>

subsection \<open>State\<close>

datatype proc_state = PROC_UNUSED | PROC_READY | PROC_RUNNING | PROC_BLOCKED | PROC_TERMINATED

record process_t =
  pid :: u32
  pname :: "u8 list" \<comment> \<open>char name[16]\<close>
  pstate :: proc_state
  saved_esp :: u32
  saved_eip :: u32
  page_directory :: u32
  kernel_stack :: u32

record regs =
  eax :: u32
  ecx :: u32
  edx :: u32
  ebx :: u32
  ebp :: u32
  esi :: u32
  edi :: u32
  esp :: u32
  eip :: u32
  interrupts :: bool

record process = paging +
  proc_table :: "process_t list"
  current_proc :: "nat option"
  next_pid :: u32
  cpu :: regs

abbreviation (input) MAX_PROCESSES :: nat where "MAX_PROCESSES \<equiv> 16"

subsection \<open>The context switch\<close>

text \<open>\<open>*(--sp) = v\<close>, which is also what \<open>push\<close> does.\<close>

definition push_word :: "u32 \<Rightarrow> u32 \<times> memory \<Rightarrow> u32 \<times> memory" where
  "push_word v spm = (let (sp, m) = spm in (sp - 4, st32 m (sp - 4) v))"

definition pop :: "regs \<Rightarrow> memory \<Rightarrow> u32 \<times> regs" where
  "pop c m = (ld32 m (esp c), c\<lparr>esp := esp c + 4\<rparr>)"

definition pusha :: "regs \<Rightarrow> memory \<Rightarrow> regs \<times> memory" where
  "pusha c m =
    (let (sp, m) = fold push_word [eax c, ecx c, edx c, ebx c, esp c, ebp c, esi c, edi c] (esp c, m)
     in (c\<lparr>esp := sp\<rparr>, m))"

definition popa :: "regs \<Rightarrow> memory \<Rightarrow> regs" where
  "popa c m =
    (let (a_edi, c) = pop c m; (a_esi, c) = pop c m; (a_ebp, c) = pop c m; (_, c) = pop c m;
         (a_ebx, c) = pop c m; (a_edx, c) = pop c m; (a_ecx, c) = pop c m; (a_eax, c) = pop c m
     in c\<lparr>edi := a_edi, esi := a_esi, ebp := a_ebp, ebx := a_ebx, edx := a_edx, ecx := a_ecx, eax := a_eax\<rparr>)"

definition ret :: "regs \<Rightarrow> memory \<Rightarrow> regs" where
  "ret c m = (let (a, c) = pop c m in c\<lparr>eip := a\<rparr>)"

definition set_proc :: "nat \<Rightarrow> (process_t \<Rightarrow> process_t) \<Rightarrow> 'z process_scheme \<Rightarrow> 'z process_scheme" where
  "set_proc i f s = s\<lparr>proc_table := (proc_table s)[i := f (proc_table s ! i)]\<rparr>"

text \<open>\<open>context_switch(&proc_table[old].esp, new_esp)\<close>\<close>

definition context_switch :: "nat \<Rightarrow> u32 \<Rightarrow> 'z process_scheme \<Rightarrow> 'z process_scheme" where
  "context_switch old new_esp s =
    (let (c, m) = pusha (cpu s) (mem s);
         s = set_proc old (saved_esp_update (\<lambda>_. esp c)) (s\<lparr>mem := m\<rparr>);
         c = popa (c\<lparr>esp := new_esp\<rparr>) m;
         c = ret (c\<lparr>interrupts := True\<rparr>) m
     in s\<lparr>cpu := c\<rparr>)"

subsection \<open>Operations\<close>

function copy_name :: "nat \<Rightarrow> cstring \<Rightarrow> u8 list \<Rightarrow> u8 list" where
  "copy_name i name arr =
    (if deref name \<noteq> 0 \<and> i < 15 then copy_name (i + 1) (tl name) (arr[i := deref name]) else arr[i := 0])"
  by auto
termination by (relation "measure (\<lambda>(i, name, arr). 15 - i)") auto

declare copy_name.simps [simp del]

definition process_init :: "'z process_scheme \<Rightarrow> 'z process_scheme" where
  "process_init s =
    (let s = s\<lparr>proc_table := map (\<lambda>p. p\<lparr>pstate := PROC_UNUSED, pid := 0\<rparr>) (proc_table s)\<rparr>;
         s = set_proc 0 (\<lambda>p. p\<lparr>pid := next_pid s, pstate := PROC_RUNNING, saved_esp := 0x1F0000,
               kernel_stack := 0x1F0000, page_directory := 0, pname := copy_name 0 (str ''kernel'') (pname p)\<rparr>) s
     in s\<lparr>next_pid := next_pid s + 1, current_proc := Some 0\<rparr>)"

definition process_create :: "cstring \<Rightarrow> u32 \<Rightarrow> 'z process_scheme \<Rightarrow> int \<times> 'z process_scheme" where
  "process_create name entry s =
    (case find (\<lambda>i. pstate (proc_table s ! i) = PROC_UNUSED) [0 ..< MAX_PROCESSES] of
       None \<Rightarrow> (-1, s)
     | Some slt \<Rightarrow>
         let (stack_page, s) = pmm_alloc s
         in if stack_page = 0 then (-1, s)
            else let p = next_pid s;
                     (sp, m) = fold push_word [entry, 0, 0, 0, 0, 0, 0, 0, 0] (stack_page + PAGE_SIZE, mem s);
                     s = s\<lparr>mem := m, next_pid := p + 1\<rparr>;
                     s = set_proc slt (\<lambda>q. q\<lparr>pid := p, pstate := PROC_READY, kernel_stack := stack_page,
                           saved_eip := entry, page_directory := 0, saved_esp := sp,
                           pname := copy_name 0 name (pname q)\<rparr>) s
                 in (sint p, s))"

definition process_get_current :: "'z process_scheme \<Rightarrow> nat option" where
  "process_get_current s = current_proc s"

text \<open>The search of schedule for the next READY slot after \<open>cur\<close>, wrapping around.\<close>

definition next_ready :: "process_t list \<Rightarrow> nat \<Rightarrow> nat option" where
  "next_ready t cur = map_option (\<lambda>i. (cur + i) mod MAX_PROCESSES)
     (find (\<lambda>i. pstate (t ! ((cur + i) mod MAX_PROCESSES)) = PROC_READY) [1 ..< MAX_PROCESSES + 1])"

definition schedule :: "'z process_scheme \<Rightarrow> 'z process_scheme" where
  "schedule s =
    (case current_proc s of
       None \<Rightarrow> s
     | Some cur \<Rightarrow>
         (case next_ready (proc_table s) cur of
            None \<Rightarrow> s
          | Some nxt \<Rightarrow>
              if nxt = cur then s
              else let s = (if pstate (proc_table s ! cur) = PROC_RUNNING
                            then set_proc cur (pstate_update (\<lambda>_. PROC_READY)) s else s);
                       s = set_proc nxt (pstate_update (\<lambda>_. PROC_RUNNING)) s;
                       s = s\<lparr>current_proc := Some nxt\<rparr>
                   in context_switch cur (saved_esp (proc_table s ! nxt)) s))"

definition process_get :: "u32 \<Rightarrow> 'z process_scheme \<Rightarrow> nat option" where
  "process_get p s =
    find (\<lambda>i. pstate (proc_table s ! i) \<noteq> PROC_UNUSED \<and> pid (proc_table s ! i) = p) [0 ..< MAX_PROCESSES]"

subsection \<open>Frames on the stack\<close>

lemma aligned4_minus: "aligned4 a \<Longrightarrow> aligned4 b \<Longrightarrow> aligned4 (a - b)"
  using aligned4_diff by (simp add: aligned4_def)

lemma aligned4_numerals:
  "aligned4 4" "aligned4 8" "aligned4 12" "aligned4 16" "aligned4 20" "aligned4 24" "aligned4 28" "aligned4 32" "aligned4 36"
  by (simp_all add: aligned4_def)

lemmas frame_simps = ram.ld_st aligned4_minus aligned4_numerals push_word_def

text \<open>The frame at \<open>a\<close> from which popa and ret restore the registers.\<close>

definition frame_at :: "memory \<Rightarrow> u32 \<Rightarrow> u32 list" where
  "frame_at m a = map (ld32 m) [a, a + 4, a + 8, a + 12, a + 16, a + 20, a + 24, a + 28, a + 32]"

definition restored :: "regs \<Rightarrow> u32 list \<Rightarrow> bool" where
  "restored c vs \<longleftrightarrow> [edi c, esi c, ebp c, ebx c, edx c, ecx c, eax c, eip c] =
     [vs ! 0, vs ! 1, vs ! 2, vs ! 4, vs ! 5, vs ! 6, vs ! 7, vs ! 8]"

lemma resume:
  "restored (ret ((popa (c\<lparr>esp := a\<rparr>) m)\<lparr>interrupts := True\<rparr>) m) (frame_at m a)
    \<and> esp (ret ((popa (c\<lparr>esp := a\<rparr>) m)\<lparr>interrupts := True\<rparr>) m) = a + 36
    \<and> interrupts (ret ((popa (c\<lparr>esp := a\<rparr>) m)\<lparr>interrupts := True\<rparr>) m)"
  by (simp add: restored_def frame_at_def popa_def ret_def pop_def Let_def algebra_simps)

lemma pusha_frame:
  assumes "aligned4 (esp c)"
  shows "esp (fst (pusha c m)) = esp c - 32"
    and "frame_at (snd (pusha c m)) (esp c - 32) =
      [edi c, esi c, ebp c, esp c, ebx c, edx c, ecx c, eax c, ld32 m (esp c)]"
proof -
  show "esp (fst (pusha c m)) = esp c - 32" by (simp add: pusha_def push_word_def)
  show "frame_at (snd (pusha c m)) (esp c - 32) =
      [edi c, esi c, ebp c, esp c, ebx c, edx c, ecx c, eax c, ld32 m (esp c)]"
    using assms by (simp add: pusha_def frame_at_def frame_simps)
qed

lemma create_frame:
  assumes "aligned4 sp"
  shows "fold push_word [entry, 0, 0, 0, 0, 0, 0, 0, 0] (sp, m) =
      (sp - 36, snd (fold push_word [entry, 0, 0, 0, 0, 0, 0, 0, 0] (sp, m)))"
    and "frame_at (snd (fold push_word [entry, 0, 0, 0, 0, 0, 0, 0, 0] (sp, m))) (sp - 36) =
      [0, 0, 0, 0, 0, 0, 0, 0, entry]"
proof -
  show "fold push_word [entry, 0, 0, 0, 0, 0, 0, 0, 0] (sp, m) =
      (sp - 36, snd (fold push_word [entry, 0, 0, 0, 0, 0, 0, 0, 0] (sp, m)))"
    by (simp add: push_word_def)
  show "frame_at (snd (fold push_word [entry, 0, 0, 0, 0, 0, 0, 0, 0] (sp, m))) (sp - 36) =
      [0, 0, 0, 0, 0, 0, 0, 0, entry]"
    using assms by (simp add: frame_at_def frame_simps)
qed

subsection \<open>The process table\<close>

text \<open>
  \<open>n\<close> processes exist, in the first \<open>n\<close> slots; a slot number is the pid of its process. Exactly the
  current process is RUNNING.
\<close>

definition proc_ok :: "'z process_scheme \<Rightarrow> nat \<Rightarrow> nat \<Rightarrow> bool" where
  "proc_ok s n cur \<longleftrightarrow> length (proc_table s) = 16 \<and> n \<le> 16 \<and> cur < n \<and> current_proc s = Some cur
    \<and> next_pid s = of_nat n
    \<and> (\<forall>i < 16. pstate (proc_table s ! i) = PROC_UNUSED \<longleftrightarrow> n \<le> i)
    \<and> (\<forall>i < 16. pstate (proc_table s ! i) = PROC_RUNNING \<longleftrightarrow> i = cur)
    \<and> (\<forall>i < n. pid (proc_table s ! i) = of_nat i)"

lemma set_proc_simps [simp]:
  "proc_table (set_proc i f s) = (proc_table s)[i := f (proc_table s ! i)]"
  "current_proc (set_proc i f s) = current_proc s" "next_pid (set_proc i f s) = next_pid s"
  "mem (set_proc i f s) = mem s" "cpu (set_proc i f s) = cpu s"
  by (simp_all add: set_proc_def)

lemma find_first:
  assumes "find P [a ..< b] = Some i"
  shows "P i" and "a \<le> i" and "i < b" and "\<And>j. a \<le> j \<Longrightarrow> j < i \<Longrightarrow> \<not> P j"
proof -
  obtain k where k: "k < length [a ..< b]" "P ([a ..< b] ! k)" "i = [a ..< b] ! k" "\<forall>j < k. \<not> P ([a ..< b] ! j)"
    using assms by (auto simp: find_Some_iff)
  then show "P i" "a \<le> i" "i < b" by auto
  show "\<not> P j" if "a \<le> j" "j < i" for j
    using k that by (auto dest!: spec [of _ "j - a"])
qed

lemma find_upt_None: "find P [a ..< b] = None \<longleftrightarrow> (\<forall>i. a \<le> i \<and> i < b \<longrightarrow> \<not> P i)"
  by (auto simp: find_None_iff)

lemma next_ready_Some:
  assumes "next_ready t cur = Some nxt"
  obtains d where "1 \<le> d" "d \<le> 16" "nxt = (cur + d) mod 16" "pstate (t ! nxt) = PROC_READY" "nxt < 16"
    "\<forall>e. 1 \<le> e \<longrightarrow> e < d \<longrightarrow> pstate (t ! ((cur + e) mod 16)) \<noteq> PROC_READY"
proof -
  obtain d where d: "find (\<lambda>i. pstate (t ! ((cur + i) mod 16)) = PROC_READY) [1 ..< 17] = Some d" "nxt = (cur + d) mod 16"
    using assms by (auto simp: next_ready_def)
  show ?thesis using that [of d] find_first [OF d(1)] d(2) by simp
qed

text \<open>How far slot \<open>j\<close> is ahead of slot \<open>cur\<close>.\<close>

definition ahead :: "nat \<Rightarrow> nat \<Rightarrow> nat" where
  "ahead cur j = (if cur < j then j - cur else j + 16 - cur)"

lemma ahead:
  assumes "cur < 16" and "j < 16"
  shows "(cur + ahead cur j) mod 16 = j" and "1 \<le> ahead cur j" and "ahead cur j \<le> 16"
  using assms by (auto simp: ahead_def)

lemma ahead_step:
  assumes "cur < 16" and "j < 16" and "1 \<le> d" and "d < ahead cur j" and "nxt = (cur + d) mod 16"
  shows "ahead nxt j = ahead cur j - d"
proof (cases "cur + d < 16")
  case True
  then show ?thesis using assms by (auto simp: ahead_def split: if_splits)
next
  case False
  then have "(cur + d) mod 16 = cur + d - 16" using assms by (subst le_mod_geq) (auto simp: ahead_def split: if_splits)
  then show ?thesis using assms False by (auto simp: ahead_def split: if_splits)
qed

lemma next_ready_None:
  assumes "cur < 16"
  shows "next_ready t cur = None \<longleftrightarrow> (\<forall>i < 16. pstate (t ! i) \<noteq> PROC_READY)"
proof -
  have "(\<forall>d. 1 \<le> d \<and> d < 17 \<longrightarrow> pstate (t ! ((cur + d) mod 16)) \<noteq> PROC_READY)
      \<longleftrightarrow> (\<forall>i < 16. pstate (t ! i) \<noteq> PROC_READY)"
  proof (intro iffI allI impI)
    fix i :: nat
    assume all: "\<forall>d. 1 \<le> d \<and> d < 17 \<longrightarrow> pstate (t ! ((cur + d) mod 16)) \<noteq> PROC_READY" and i: "i < 16"
    note a = ahead [OF assms i]
    have "1 \<le> ahead cur i \<and> ahead cur i < 17" using a(2,3) by simp
    with all have "pstate (t ! ((cur + ahead cur i) mod 16)) \<noteq> PROC_READY" by blast
    then show "pstate (t ! i) \<noteq> PROC_READY" by (simp add: a(1))
  qed auto
  then show ?thesis unfolding next_ready_def map_option_is_None find_upt_None by simp
qed

lemma context_switch_simps:
  "proc_table (context_switch old e s) = (proc_table s)[old := (proc_table s ! old)\<lparr>saved_esp := esp (fst (pusha (cpu s) (mem s)))\<rparr>]"
  "current_proc (context_switch old e s) = current_proc s" "next_pid (context_switch old e s) = next_pid s"
  "mem (context_switch old e s) = snd (pusha (cpu s) (mem s))"
  "cpu (context_switch old e s) = ret ((popa ((fst (pusha (cpu s) (mem s)))\<lparr>esp := e\<rparr>) (snd (pusha (cpu s) (mem s))))\<lparr>interrupts := True\<rparr>)
     (snd (pusha (cpu s) (mem s)))"
  by (simp_all add: context_switch_def Let_def case_prod_beta)

text \<open>What schedule does to the table.\<close>

lemma schedule_switch:
  assumes ok: "proc_ok s n cur" and nx: "next_ready (proc_table s) cur = Some nxt"
  shows "nxt \<noteq> cur" and "nxt < n" and "proc_ok (schedule s) n nxt"
    and "\<And>i. i < 16 \<Longrightarrow> pstate (proc_table (schedule s) ! i) =
      (if i = nxt then PROC_RUNNING else if i = cur then PROC_READY else pstate (proc_table s ! i))"
    and "\<And>i. i < 16 \<Longrightarrow> saved_esp (proc_table (schedule s) ! i) =
      (if i = cur then esp (cpu s) - 32 else saved_esp (proc_table s ! i))"
    and "mem (schedule s) = snd (pusha (cpu s) (mem s))"
    and "cpu (schedule s) = ret ((popa ((fst (pusha (cpu s) (mem s)))\<lparr>esp := saved_esp (proc_table s ! nxt)\<rparr>)
      (mem (schedule s)))\<lparr>interrupts := True\<rparr>) (mem (schedule s))"
proof -
  obtain d where d: "nxt < 16" "pstate (proc_table s ! nxt) = PROC_READY" using nx by (rule next_ready_Some)
  have facts: "length (proc_table s) = 16" "cur < 16" "current_proc s = Some cur"
      "pstate (proc_table s ! cur) = PROC_RUNNING"
    using ok by (auto simp: proc_ok_def)
  show ne: "nxt \<noteq> cur" using d(2) facts(4) by auto
  show nn: "nxt < n" using d ok by (metis linorder_not_le proc_ok_def proc_state.distinct(1))
  define t where "t = (set_proc nxt (pstate_update (\<lambda>_. PROC_RUNNING)) (set_proc cur (pstate_update (\<lambda>_. PROC_READY)) s))
    \<lparr>current_proc := Some nxt\<rparr>"
  have sch: "schedule s = context_switch cur (saved_esp (proc_table s ! nxt)) t"
    using facts nx ne d(1) by (simp add: schedule_def Let_def t_def)
  have tt: "mem t = mem s" "cpu t = cpu s" "current_proc t = Some nxt" "next_pid t = next_pid s"
    "proc_table t = (proc_table s)[cur := (proc_table s ! cur)\<lparr>pstate := PROC_READY\<rparr>,
      nxt := (proc_table s ! nxt)\<lparr>pstate := PROC_RUNNING\<rparr>]"
    using ne by (simp_all add: t_def)
  show st: "pstate (proc_table (schedule s) ! i) =
      (if i = nxt then PROC_RUNNING else if i = cur then PROC_READY else pstate (proc_table s ! i))" if "i < 16" for i
    using that facts ne d(1) by (simp add: sch context_switch_simps tt nth_list_update)
  show "saved_esp (proc_table (schedule s) ! i) =
      (if i = cur then esp (cpu s) - 32 else saved_esp (proc_table s ! i))" if "i < 16" for i
    using that facts ne d(1) by (simp add: sch context_switch_simps tt nth_list_update pusha_def push_word_def)
  have pid: "pid (proc_table (schedule s) ! i) = pid (proc_table s ! i)" if "i < 16" for i
    using that facts ne d(1) by (simp add: sch context_switch_simps tt nth_list_update)
  show mem: "mem (schedule s) = snd (pusha (cpu s) (mem s))" by (simp add: sch context_switch_simps tt)
  show "cpu (schedule s) = ret ((popa ((fst (pusha (cpu s) (mem s)))\<lparr>esp := saved_esp (proc_table s ! nxt)\<rparr>)
      (mem (schedule s)))\<lparr>interrupts := True\<rparr>) (mem (schedule s))"
    unfolding mem by (simp add: sch context_switch_simps tt)
  have "length (proc_table (schedule s)) = 16" "current_proc (schedule s) = Some nxt" "next_pid (schedule s) = next_pid s"
    using facts by (simp_all add: sch context_switch_simps tt)
  then show "proc_ok (schedule s) n nxt"
    using ok nn st pid d(1) ne facts(2,4) unfolding proc_ok_def by auto
qed


lemma schedule_idle:
  assumes "proc_ok s n cur" and "next_ready (proc_table s) cur = None"
  shows "schedule s = s"
  using assms by (auto simp: schedule_def proc_ok_def)

lemma schedule_ok [inv_intros]:
  assumes "proc_ok s n cur"
  shows "\<exists>cur'. proc_ok (schedule s) n cur'"
  using assms schedule_switch(3) [OF assms] schedule_idle [OF assms]
  by (cases "next_ready (proc_table s) cur") auto

lemma schedule_reaches:
  assumes "proc_ok s n cur" and "j < 16" and "pstate (proc_table s ! j) = PROC_READY"
  shows "\<exists>k \<le> ahead cur j. 0 < k \<and> current_proc ((schedule ^^ k) s) = Some j"
  using assms
proof (induction "ahead cur j" arbitrary: s cur rule: less_induct)
  case less
  have c: "cur < 16" using less.prems(1) by (simp add: proc_ok_def)
  obtain nxt where nx: "next_ready (proc_table s) cur = Some nxt"
    using less.prems(2,3) next_ready_None [OF c] by (metis not_None_eq)
  obtain d where d: "1 \<le> d" "nxt = (cur + d) mod 16" "nxt < 16"
      "\<forall>e. 1 \<le> e \<longrightarrow> e < d \<longrightarrow> pstate (proc_table s ! ((cur + e) mod 16)) \<noteq> PROC_READY"
    using nx by (rule next_ready_Some)
  note sw = schedule_switch [OF less.prems(1) nx]
  note a = ahead [OF c less.prems(2)]
  have le: "d \<le> ahead cur j" using d(4) a less.prems(3) by (metis linorder_not_le)
  show ?case
  proof (cases "d = ahead cur j")
    case True
    then have "nxt = j" using d(2) a(1) by simp
    then show ?thesis using sw(3) a(2) by (intro exI [of _ 1]) (simp add: proc_ok_def)
  next
    case False
    then have step: "ahead nxt j = ahead cur j - d" using d(1,2) le c less.prems(2) by (intro ahead_step) auto
    then have lt: "ahead nxt j < ahead cur j" using d(1) le by simp
    have "pstate (proc_table s ! cur) = PROC_RUNNING" using less.prems(1) c unfolding proc_ok_def by blast
    then have "j \<noteq> cur" using less.prems(3) by auto
    moreover have "j \<noteq> nxt"
    proof
      assume "j = nxt"
      then have "ahead nxt j = 16" by (simp add: ahead_def)
      then show False using step a(3) d(1) le by simp
    qed
    ultimately have "pstate (proc_table (schedule s) ! j) = PROC_READY" using sw(4) less.prems(2,3) by simp
    from less.hyps [OF lt sw(3) less.prems(2) this] obtain k where
      "k \<le> ahead nxt j" "0 < k" "current_proc ((schedule ^^ k) (schedule s)) = Some j" by blast
    then show ?thesis using lt by (intro exI [of _ "Suc k"]) (simp add: funpow_swap1)
  qed
qed


subsection \<open>Creating processes\<close>

lemma first_unused:
  assumes "proc_ok s n cur"
  shows "find (\<lambda>i. pstate (proc_table s ! i) = PROC_UNUSED) [0 ..< 16] = (if n < 16 then Some n else None)"
proof (cases "n < 16")
  case True
  then show ?thesis using assms
    by (simp add: proc_ok_def) (subst find_Some_iff, intro exI [of _ n], auto)
next
  case False
  then show ?thesis using assms by (auto simp: proc_ok_def find_upt_None)
qed

lemma pmm_alloc_other:
  assumes "pmm_alloc s = (a, s')"
  shows "mem s' = mem s" and "proc_table s' = proc_table s" and "current_proc s' = current_proc s"
    and "next_pid s' = next_pid s" and "cpu s' = cpu s"
  using assms by (auto simp: pmm_alloc_def split: prod.splits)

lemma process_create_ok:
  assumes ok: "proc_ok s n cur" and wf: "pmm_wf s"
  shows "if n < 16 \<and> pmm_free_pages s \<noteq> {} then
      \<exists>s'. process_create name entry s = (int n, s') \<and> proc_ok s' (Suc n) cur
        \<and> pstate (proc_table s' ! n) = PROC_READY
        \<and> pname (proc_table s' ! n) = copy_name 0 name (pname (proc_table s ! n))
        \<and> frame_at (mem s') (saved_esp (proc_table s' ! n)) = [0, 0, 0, 0, 0, 0, 0, 0, entry]
        \<and> saved_esp (proc_table s' ! n) + 36 = page_addr (Min (pmm_free_pages s)) + PAGE_SIZE
        \<and> (\<forall>i < n. proc_table s' ! i = proc_table s ! i)
      else process_create name entry s = (-1, s)"
proof (cases "n < 16 \<and> pmm_free_pages s \<noteq> {}")
  case True
  then have ne: "pmm_free_pages s \<noteq> {}" and n: "n < 16" by auto
  obtain a s1 where al: "pmm_alloc s = (a, s1)" by force
  have a0: "a \<noteq> 0" and a: "a = page_addr (Min (pmm_free_pages s))"
    using pages.alloc_zero_iff [OF wf] pages.alloc_addr [OF wf ne] ne al by auto
  have "page_aligned a" using wf al a0 by (rule pages.alloc_page) simp
  then have "aligned4 a" by (auto simp: page_aligned_def aligned4_def elim!: dvdE)
  moreover have "a + PAGE_SIZE = a - (- PAGE_SIZE)" by simp
  moreover have "aligned4 (- PAGE_SIZE)" by (simp add: aligned4_def)
  ultimately have al4: "aligned4 (a + PAGE_SIZE)" by (simp only: aligned4_minus)
  define m where "m = snd (fold push_word [entry, 0, 0, 0, 0, 0, 0, 0, 0] (a + PAGE_SIZE, mem s))"
  note fr = create_frame [OF al4, of entry "mem s", folded m_def]
  note s1 = pmm_alloc_other [OF al]
  define s' where "s' = set_proc n (\<lambda>q. q\<lparr>pid := next_pid s, pstate := PROC_READY, kernel_stack := a,
      saved_eip := entry, page_directory := 0, saved_esp := a + PAGE_SIZE - 36, pname := copy_name 0 name (pname q)\<rparr>)
      (s1\<lparr>mem := m, next_pid := next_pid s + 1\<rparr>)"
  have len: "length (proc_table s) = 16" and np: "next_pid s = of_nat n" using ok by (auto simp: proc_ok_def)
  have sint: "sint (of_nat n :: u32) = int n"
    using n by (simp add: signed_of_nat signed_take_bit_int_eq_self)
  have create: "process_create name entry s = (int n, s')"
    using n a0 by (simp add: process_create_def first_unused [OF ok] al s1 np sint s'_def Let_def fr(1)
      del: fold.simps)
  have tab: "proc_table s' ! i = (if i = n then (proc_table s ! n)\<lparr>pid := next_pid s, pstate := PROC_READY,
      kernel_stack := a, saved_eip := entry, page_directory := 0, saved_esp := a + PAGE_SIZE - 36,
      pname := copy_name 0 name (pname (proc_table s ! n))\<rparr> else proc_table s ! i)" if "i < 16" for i
    using that n len by (simp add: s'_def s1 nth_list_update)
  have "length (proc_table s') = 16" "current_proc s' = current_proc s" "next_pid s' = of_nat (Suc n)" "mem s' = m"
    using len np by (simp_all add: s'_def s1)
  moreover from this have "proc_ok s' (Suc n) cur"
    using ok n unfolding proc_ok_def by (auto simp: tab np less_Suc_eq_le)
  ultimately show ?thesis using create True fr(2) a n tab by auto
next
  case False
  then show ?thesis
  proof (cases "n < 16")
    case True
    then have "pmm_alloc s = (0, s)" using False wf by (simp add: pmm_alloc_empty)
    then show ?thesis using False by (simp add: process_create_def first_unused [OF ok])
  qed (simp add: process_create_def first_unused [OF ok])
qed

lemma copy_name_spec:
  assumes "is_cstring name" and "i \<le> 15" and "length arr = 16"
  shows "length (copy_name i name arr) = 16
    \<and> take (Suc (i + min (15 - i) (length name))) (copy_name i name arr) = take i arr @ take (15 - i) name @ [0]"
  using assms
proof (induction i name arr rule: copy_name.induct)
  case (1 i name arr)
  show ?case
  proof (cases "deref name \<noteq> 0 \<and> i < 15")
    case True
    then obtain c name' where n: "name = c # name'" by (cases name) auto
    have "i < 15" using True by simp
    then have "15 - i = Suc (15 - Suc i)" by linarith
    then show ?thesis using True 1 n by (subst (1 2) copy_name.simps) (simp add: take_Suc_conv_app_nth)
  next
    case False
    then have "min (15 - i) (length name) = 0" using 1 by (cases name) auto
    then show ?thesis using False 1 deref_eq_0 [of name] by (subst (1 2) copy_name.simps) (auto simp: take_Suc_conv_app_nth)
  qed
qed

lemma push_other:
  assumes "aligned4 sp" and "aligned4 y" and "4 * length vs \<le> unat sp"
    and "unat sp \<le> unat y \<or> unat y < unat sp - 4 * length vs"
  shows "ld32 (snd (fold push_word vs (sp, m))) y = ld32 m y"
  using assms
proof (induction vs arbitrary: sp m)
  case (Cons v vs)
  have "4 \<le> sp" using Cons.prems(3) by (simp add: word_le_nat_alt)
  then have sp4: "unat (sp - 4) = unat sp - 4" by (simp add: unat_sub)
  have al: "aligned4 (sp - 4)" using Cons.prems(1) by (simp add: aligned4_minus aligned4_numerals)
  have ne: "y \<noteq> sp - 4" using Cons.prems(3,4) sp4 by auto
  have "ld32 (snd (fold push_word vs (sp - 4, st32 m (sp - 4) v))) y = ld32 (st32 m (sp - 4) v) y"
    using Cons.prems sp4 al by (intro Cons.IH) auto
  moreover have "push_word v (sp, m) = (sp - 4, st32 m (sp - 4) v)" by (simp add: push_word_def)
  ultimately show ?case using ne al Cons.prems(2) by (simp add: ram.ld_st)
qed simp

lemma pusha_keeps_frame:
  assumes "aligned4 (esp c)" and "aligned4 a" and "32 \<le> unat (esp c)" and "unat a + 36 \<le> 2 ^ 32"
    and "unat (esp c) \<le> unat a \<or> unat a + 68 \<le> unat (esp c)"
  shows "frame_at (snd (pusha c m)) a = frame_at m a"
proof -
  have "ld32 (snd (pusha c m)) (a + of_nat (4 * k)) = ld32 m (a + of_nat (4 * k))" if "k < 9" for k
  proof -
    have u: "unat (a + of_nat (4 * k)) = unat a + 4 * k"
      using that assms(4) by (intro unat_add_le [of a 36]) auto
    then have al: "aligned4 (a + of_nat (4 * k))" using assms(2) by (simp add: aligned4_def)
    have "snd (pusha c m) = snd (fold push_word [eax c, ecx c, edx c, ebx c, esp c, ebp c, esi c, edi c] (esp c, m))"
      by (simp add: pusha_def case_prod_beta del: fold.simps)
    then show ?thesis using assms u al that by (simp only:) (intro push_other, auto)
  qed
  from this [of 0] this [of 1] this [of 2] this [of 3] this [of 4] this [of 5] this [of 6] this [of 7] this [of 8]
  show ?thesis by (simp add: frame_at_def)
qed

subsection \<open>Properties\<close>

text \<open>
  C16: schedule switches to the first READY process after the current one in cyclic order; exactly
  one process is RUNNING before and after, and no other process changes its state.
\<close>

theorem schedule_round_robin:
  assumes "proc_ok s n cur"
  shows "case next_ready (proc_table s) cur of
      None \<Rightarrow> schedule s = s \<and> (\<forall>i < 16. pstate (proc_table s ! i) \<noteq> PROC_READY)
    | Some nxt \<Rightarrow> proc_ok (schedule s) n nxt \<and> nxt \<noteq> cur \<and> pstate (proc_table s ! nxt) = PROC_READY
        \<and> (\<forall>i < 16. pstate (proc_table s ! i) = PROC_READY \<longrightarrow> ahead cur nxt \<le> ahead cur i)
        \<and> (\<forall>i < 16. i \<noteq> cur \<longrightarrow> i \<noteq> nxt \<longrightarrow> pstate (proc_table (schedule s) ! i) = pstate (proc_table s ! i))"
proof -
  have c: "cur < 16" using assms by (simp add: proc_ok_def)
  show ?thesis
  proof (cases "next_ready (proc_table s) cur")
    case None
    then have "\<forall>i < 16. pstate (proc_table s ! i) \<noteq> PROC_READY" by (simp only: next_ready_None [OF c])
    then show ?thesis using schedule_idle [OF assms None] unfolding None by simp
  next
    case (Some nxt)
    note sw = schedule_switch [OF assms Some]
    obtain d where d: "1 \<le> d" "d \<le> 16" "nxt = (cur + d) mod 16" "pstate (proc_table s ! nxt) = PROC_READY" "nxt < 16"
        "\<forall>e. 1 \<le> e \<longrightarrow> e < d \<longrightarrow> pstate (proc_table s ! ((cur + e) mod 16)) \<noteq> PROC_READY"
      using Some by (rule next_ready_Some)
    have "ahead cur nxt \<le> d"
    proof (cases "cur + d < 16")
      case False
      then have "nxt = cur + d - 16" using d(2,3) c by (simp add: le_mod_geq)
      then show ?thesis using c False d(1,2) by (simp add: ahead_def)
    qed (use c d in \<open>simp add: ahead_def\<close>)
    moreover have "d \<le> ahead cur i" if "i < 16" "pstate (proc_table s ! i) = PROC_READY" for i
      using d(6) ahead [OF c that(1)] that(2) by (metis linorder_not_le)
    ultimately show ?thesis using Some sw d(4) by (auto intro: order_trans)
  qed
qed

text \<open>
  C14: the scheduler is fair: a READY process runs after at most 16 calls of schedule, however the
  other processes are set up.
\<close>

theorem schedule_fair:
  assumes "proc_ok s n cur" and "j < 16" and "pstate (proc_table s ! j) = PROC_READY"
  shows "\<exists>k \<le> 16. 0 < k \<and> current_proc ((schedule ^^ k) s) = Some j"
proof -
  have "cur < 16" using assms(1) by (simp add: proc_ok_def)
  then have "ahead cur j \<le> 16" using assms(2) by (rule ahead(3))
  then show ?thesis using schedule_reaches [OF assms] by (meson order_trans)
qed

text \<open>
  C7: a process that was switched away from continues where it stopped: when it is scheduled again
  and its frame was left alone, all its registers have their old values, it runs from the return
  address of its call of context\_switch, and interrupts are on.
\<close>

theorem schedule_resumes:
  assumes s: "proc_ok s n cur" "next_ready (proc_table s) cur = Some other" "aligned4 (esp (cpu s))"
    and t: "proc_ok t k run" "next_ready (proc_table t) run = Some cur" "aligned4 (esp (cpu t))"
    and kept: "saved_esp (proc_table t ! cur) = saved_esp (proc_table (schedule s) ! cur)"
      "frame_at (mem t) (esp (cpu s) - 32) = frame_at (mem (schedule s)) (esp (cpu s) - 32)"
    and stacks: "32 \<le> unat (esp (cpu s))" "unat (esp (cpu s)) + 4 \<le> 2 ^ 32" "32 \<le> unat (esp (cpu t))"
      "unat (esp (cpu t)) + 32 \<le> unat (esp (cpu s)) \<or> unat (esp (cpu s)) + 36 \<le> unat (esp (cpu t))"
  shows "let c = cpu (schedule t) in
    [eax c, ecx c, edx c, ebx c, ebp c, esi c, edi c] =
      [eax (cpu s), ecx (cpu s), edx (cpu s), ebx (cpu s), ebp (cpu s), esi (cpu s), edi (cpu s)]
    \<and> eip c = ld32 (mem s) (esp (cpu s)) \<and> esp c = esp (cpu s) + 4 \<and> interrupts c
    \<and> current_proc (schedule t) = Some cur"
proof -
  let ?a = "esp (cpu s) - 32"
  have cur: "cur < 16" using s(1) by (simp add: proc_ok_def)
  note sw = schedule_switch [OF s(1,2)] and sw' = schedule_switch [OF t(1,2)]
  have a: "saved_esp (proc_table t ! cur) = ?a" using kept(1) sw(5) [OF cur] by simp
  have "unat ?a = unat (esp (cpu s)) - 32" using stacks(1) by (simp add: unat_sub word_le_nat_alt)
  then have "frame_at (mem (schedule t)) ?a = frame_at (mem t) ?a"
    unfolding sw'(6) using stacks s(3) t(3) by (intro pusha_keeps_frame) (auto simp: aligned4_minus aligned4_numerals)
  also have "\<dots> = frame_at (snd (pusha (cpu s) (mem s))) ?a" using kept(2) by (simp add: sw(6))
  also have "\<dots> = [edi (cpu s), esi (cpu s), ebp (cpu s), esp (cpu s), ebx (cpu s), edx (cpu s), ecx (cpu s),
      eax (cpu s), ld32 (mem s) (esp (cpu s))]"
    using s(3) by (rule pusha_frame)
  finally have fr: "frame_at (mem (schedule t)) ?a = \<dots>" .
  have "restored (cpu (schedule t)) (frame_at (mem (schedule t)) ?a) \<and> esp (cpu (schedule t)) = ?a + 36
      \<and> interrupts (cpu (schedule t))"
    using resume [where c = "fst (pusha (cpu t) (mem t))" and a = ?a and m = "mem (schedule t)"] unfolding sw'(7) a .
  then show ?thesis using sw'(3) unfolding fr restored_def by (simp add: Let_def proc_ok_def)
qed


lemma process_init_ok [inv_intros]:
  assumes "length (proc_table s) = 16" and "next_pid s = 0"
  shows "proc_ok (process_init s) 1 0"
  using assms by (simp add: proc_ok_def process_init_def Let_def nth_list_update)

text \<open>
  C20: \<open>process_create\<close> fails, and changes nothing, exactly when the table is full or no page is free.
  Otherwise the new process gets the next pid and the name cut to 15 characters, nothing else in the
  table changes, and the first switch to it starts at its entry point with cleared registers and
  interrupts on, on an empty stack.
\<close>

theorem process_create_starts:
  assumes "proc_ok s n cur" and "pmm_wf s"
  shows "if n < 16 \<and> pmm_free_pages s \<noteq> {} then
      \<exists>s'. process_create name entry s = (int n, s') \<and> proc_ok s' (Suc n) cur
        \<and> pstate (proc_table s' ! n) = PROC_READY \<and> (\<forall>i < n. proc_table s' ! i = proc_table s ! i)
        \<and> (is_cstring name \<and> length (pname (proc_table s ! n)) = 16 \<longrightarrow>
            take (Suc (min 15 (length name))) (pname (proc_table s' ! n)) = take 15 name @ [0])
        \<and> (let c = ret ((popa (c\<lparr>esp := saved_esp (proc_table s' ! n)\<rparr>) (mem s'))\<lparr>interrupts := True\<rparr>) (mem s') in
            [eax c, ecx c, edx c, ebx c, ebp c, esi c, edi c] = replicate 7 0 \<and> eip c = entry
            \<and> esp c = page_addr (Min (pmm_free_pages s)) + PAGE_SIZE \<and> interrupts c)
      else process_create name entry s = (-1, s)"
proof (cases "n < 16 \<and> pmm_free_pages s \<noteq> {}")
  case True
  then obtain s' where s': "process_create name entry s = (int n, s')" "proc_ok s' (Suc n) cur"
      "pstate (proc_table s' ! n) = PROC_READY"
      "frame_at (mem s') (saved_esp (proc_table s' ! n)) = [0, 0, 0, 0, 0, 0, 0, 0, entry]"
      "saved_esp (proc_table s' ! n) + 36 = page_addr (Min (pmm_free_pages s)) + PAGE_SIZE"
      "\<forall>i < n. proc_table s' ! i = proc_table s ! i"
      "pname (proc_table s' ! n) = copy_name 0 name (pname (proc_table s ! n))"
    using process_create_ok [OF assms, of name entry] by auto
  moreover have "take (Suc (min 15 (length name))) (pname (proc_table s' ! n)) = take 15 name @ [0]"
    if "is_cstring name" "length (pname (proc_table s ! n)) = 16"
    using copy_name_spec [OF that(1) _ that(2), of 0] s'(7) by simp
  moreover note resume [where c = c and a = "saved_esp (proc_table s' ! n)" and m = "mem s'", unfolded s'(4) s'(5)]
  ultimately show ?thesis using True by (simp add: restored_def Let_def numeral_eq_Suc)
qed (use process_create_ok [OF assms, of name entry] in \<open>simp split: if_splits\<close>)

subsection \<open>A concrete table\<close>

text \<open>The table after boot, and after the kernel has created its first thread.\<close>

definition boot_process0 :: process where
  "boot_process0 = \<lparr>mem = (\<lambda>_. 0), bitmap = bitmap boot_pmm, free_list = 0, heap_pages = 0,
    kernel_page_directory = 0, cr0 = 1, cr3 = 0,
    proc_table = replicate 16 \<lparr>pid = 0, pname = replicate 16 0, pstate = PROC_UNUSED, saved_esp = 0,
      saved_eip = 0, page_directory = 0, kernel_stack = 0\<rparr>,
    current_proc = None, next_pid = 0,
    cpu = \<lparr>eax = 1, ecx = 2, edx = 3, ebx = 4, ebp = 5, esi = 6, edi = 7, esp = 0x1EFF00, eip = 0x1000,
      interrupts = False\<rparr>\<rparr>"

definition boot_process :: process where
  "boot_process = process_init boot_process0"

definition demo_process :: process where
  "demo_process = snd (process_create (str ''thread_a'') 0x1234 boot_process)"

lemma boot_process_ok: "proc_ok boot_process 1 0" "pmm_wf boot_process"
    "pmm_free_pages boot_process = {0x127 ..< 0x1F0} \<union> {0x300 ..< 0x1000}"
proof -
  show "proc_ok boot_process 1 0"
    unfolding boot_process_def by (rule process_init_ok) (simp_all add: boot_process0_def)
  have bm: "bitmap boot_process = bitmap boot_pmm"
    by (simp add: boot_process_def process_init_def boot_process0_def set_proc_def Let_def)
  then show fp: "pmm_free_pages boot_process = {0x127 ..< 0x1F0} \<union> {0x300 ..< 0x1000}"
    using boot_pmm_free_pages by (simp add: pmm_free_pages_def)
  show "pmm_wf boot_process" using boot_pmm_wf fp bm boot_pmm_free_pages by (simp add: pmm_wf_def)
qed

lemma demo_process_ok:
  shows "proc_ok demo_process 2 0" and "next_ready (proc_table demo_process) 0 = Some 1"
    and "pstate (proc_table demo_process ! 1) = PROC_READY" and "cpu demo_process = cpu boot_process0"
    and "saved_esp (proc_table demo_process ! 1) = 0x127FDC"
    and "process_create (str ''thread_a'') 0x1234 boot_process = (1, demo_process)"
    and "frame_at (mem demo_process) 0x127FDC = [0, 0, 0, 0, 0, 0, 0, 0, 0x1234]"
proof -
  have min: "Min ({0x127 ..< 0x1F0} \<union> {0x300 ..< 0x1000 :: nat}) = 0x127" by (rule Min_eqI) auto
  obtain s' where s': "process_create (str ''thread_a'') 0x1234 boot_process = (1, s')" "proc_ok s' 2 0"
      "pstate (proc_table s' ! 1) = PROC_READY"
      "frame_at (mem s') (saved_esp (proc_table s' ! 1)) = [0, 0, 0, 0, 0, 0, 0, 0, 0x1234]"
      "saved_esp (proc_table s' ! 1) + 36 = page_addr 0x127 + PAGE_SIZE"
    using process_create_ok [OF boot_process_ok(1,2), of "str ''thread_a''" "0x1234"]
    by (auto simp: boot_process_ok(3) min numeral_2_eq_2)
  then have d: "demo_process = s'" by (simp add: demo_process_def)
  show "proc_ok demo_process 2 0" "pstate (proc_table demo_process ! 1) = PROC_READY"
    "process_create (str ''thread_a'') 0x1234 boot_process = (1, demo_process)"
    using s' d by simp_all
  then show "next_ready (proc_table demo_process) 0 = Some 1"
    by (simp add: next_ready_def upt_conv_Cons)
  have "saved_esp (proc_table s' ! 1) = page_addr 0x127 + PAGE_SIZE - 36" using s'(5) by (simp add: eq_diff_eq)
  then show e: "saved_esp (proc_table demo_process ! 1) = 0x127FDC" by (simp add: d page_addr_def)
  show "frame_at (mem demo_process) 0x127FDC = [0, 0, 0, 0, 0, 0, 0, 0, 0x1234]" using s'(4) e by (simp add: d)
  show "cpu demo_process = cpu boot_process0"
    by (simp add: demo_process_def process_create_def boot_process_def process_init_def Let_def pmm_alloc_def set_proc_def
      del: fold.simps split: option.split prod.split)
qed


lemma demo_process_next:
  shows "proc_ok (schedule demo_process) 2 1" and "next_ready (proc_table (schedule demo_process)) 1 = Some 0"
    and "esp (cpu (schedule demo_process)) = 0x128000"
proof -
  note sw = schedule_switch [OF demo_process_ok(1,2)]
  show "proc_ok (schedule demo_process) 2 1" by (rule sw(3))
  have p: "pstate (proc_table (schedule demo_process) ! i) \<noteq> PROC_READY" if "0 < i" "i < 16" for i
  proof (cases "i = 1")
    case False
    then have "pstate (proc_table demo_process ! i) = PROC_UNUSED" using that demo_process_ok(1) by (auto simp: proc_ok_def)
    then show ?thesis using sw(4) [OF that(2)] that False by simp
  qed (use sw(4) [of 1] in simp)
  have p0: "pstate (proc_table (schedule demo_process) ! 0) = PROC_READY" using sw(4) [of 0] by simp
  have "find (\<lambda>i. pstate (proc_table (schedule demo_process) ! ((1 + i) mod 16)) = PROC_READY) [1 ..< 17] = Some 15"
  proof (subst find_Some_iff, intro exI [of _ 14] conjI allI impI)
    show "pstate (proc_table (schedule demo_process) ! ((1 + [1 ..< 17] ! 14) mod 16)) = PROC_READY" using p0 by simp
    show "pstate (proc_table (schedule demo_process) ! ((1 + [1 ..< 17] ! j) mod 16)) \<noteq> PROC_READY" if "j < 14" for j
      using p [of "(1 + [1 ..< 17] ! j) mod 16"] that by simp
  qed simp_all
  then show "next_ready (proc_table (schedule demo_process)) 1 = Some 0" by (simp add: next_ready_def)
  show "esp (cpu (schedule demo_process)) = 0x128000"
    using resume [where c = "fst (pusha (cpu demo_process) (mem demo_process))" and a = "0x127FDC"
        and m = "mem (schedule demo_process)"]
    unfolding sw(7) demo_process_ok(5) by simp
qed

theorem schedule_round_robin_witness:
  "proc_ok demo_process 2 0 \<and> proc_ok (schedule demo_process) 2 1"
  using schedule_round_robin [OF demo_process_ok(1)] demo_process_ok by simp

theorem schedule_fair_witness:
  "proc_ok demo_process 2 0 \<and> pstate (proc_table demo_process ! 1) = PROC_READY
    \<and> (\<exists>k \<le> 16. 0 < k \<and> current_proc ((schedule ^^ k) demo_process) = Some 1)"
  using schedule_fair [OF demo_process_ok(1) _ demo_process_ok(3)] demo_process_ok by simp

theorem schedule_resumes_witness:
  "proc_ok demo_process 2 0 \<and> proc_ok (schedule demo_process) 2 1
    \<and> (let c = cpu (schedule (schedule demo_process)) in [eax c, ecx c, edx c] = [1, 2, 3] \<and> esp c = 0x1EFF04)"
proof -
  have c: "esp (cpu demo_process) = 0x1EFF00" "eax (cpu demo_process) = 1" "ecx (cpu demo_process) = 2"
      "edx (cpu demo_process) = 3"
    by (simp_all add: demo_process_ok(4) boot_process0_def)
  show ?thesis
    using schedule_resumes [OF demo_process_ok(1,2) _ demo_process_next(1,2)] demo_process_ok(1) demo_process_next(1)
    by (simp add: c demo_process_next(3) aligned4_def Let_def)
qed

theorem process_create_starts_witness:
  "proc_ok boot_process 1 0 \<and> pmm_wf boot_process
    \<and> process_create (str ''thread_a'') 0x1234 boot_process = (1, demo_process) \<and> proc_ok demo_process 2 0"
  using process_create_starts [OF boot_process_ok(1,2), of "str ''thread_a''" "0x1234"] boot_process_ok
    demo_process_ok(6) by (auto simp: numeral_2_eq_2)

end
