(* ===== verification/Bus.thy ===== *)
theory Bus
  imports C_Prelude
begin

text \<open>
  Port I/O (kernel/io.h). The devices behind the ports are not part of the program: a \<open>bus\<close> is a
  parameter, four functions on an arbitrary device state \<open>'d\<close>, and every operation that does port
  I/O threads the device state. What a component relies on about its device is a hypothesis on the
  bus; \<open>log_bus\<close> is a concrete bus that records the writes and replays a list of input bytes.
\<close>

record 'd bus =
  bus_in :: "u16 \<Rightarrow> 'd \<Rightarrow> u8 \<times> 'd"
  bus_out :: "u16 \<Rightarrow> u8 \<Rightarrow> 'd \<Rightarrow> 'd"
  bus_inw :: "u16 \<Rightarrow> 'd \<Rightarrow> u16 \<times> 'd"
  bus_outw :: "u16 \<Rightarrow> u16 \<Rightarrow> 'd \<Rightarrow> 'd"

definition outb :: "'d bus \<Rightarrow> u16 \<Rightarrow> u8 \<Rightarrow> 'd \<Rightarrow> 'd" where
  "outb bus port val d = bus_out bus port val d"

definition inb :: "'d bus \<Rightarrow> u16 \<Rightarrow> 'd \<Rightarrow> u8 \<times> 'd" where
  "inb bus port d = bus_in bus port d"

definition io_wait :: "'d bus \<Rightarrow> 'd \<Rightarrow> 'd" where
  "io_wait bus d = outb bus 0x80 0 d"

text \<open>\<open>rep insw\<close> and \<open>rep outsw\<close>: the buffer is the list of its words.\<close>

fun inw_buffer :: "'d bus \<Rightarrow> u16 \<Rightarrow> nat \<Rightarrow> 'd \<Rightarrow> u16 list \<times> 'd" where
  "inw_buffer bus port 0 d = ([], d)"
| "inw_buffer bus port (Suc n) d =
     (let (w, d) = bus_inw bus port d; (ws, d) = inw_buffer bus port n d in (w # ws, d))"

fun outw_buffer :: "'d bus \<Rightarrow> u16 \<Rightarrow> u16 list \<Rightarrow> 'd \<Rightarrow> 'd" where
  "outw_buffer bus port [] d = d"
| "outw_buffer bus port (w # ws) d = outw_buffer bus port ws (bus_outw bus port w d)"

text \<open>A sequence of port writes.\<close>

definition outs :: "'d bus \<Rightarrow> (u16 \<times> u8) list \<Rightarrow> 'd \<Rightarrow> 'd" where
  "outs bus pvs d = fold (\<lambda>(p, v). outb bus p v) pvs d"

lemma outs_simps [simp]:
  "outs bus [] d = d" "outs bus ((p, v) # pvs) d = outs bus pvs (outb bus p v d)"
  by (simp_all add: outs_def)

lemma outs_append [simp]: "outs bus (xs @ ys) d = outs bus ys (outs bus xs d)"
  by (simp add: outs_def)

subsection \<open>Words and bytes\<close>

definition word_bytes :: "u16 \<Rightarrow> u8 list" where
  "word_bytes w = [ucast w, ucast (drop_bit 8 w)]"

definition bytes_word :: "u8 \<Rightarrow> u8 \<Rightarrow> u16" where
  "bytes_word lo hi = ucast lo OR push_bit 8 (ucast hi)"

lemma word_bytes_bytes_word [simp]: "word_bytes (bytes_word lo hi) = [lo, hi]"
proof -
  have "(ucast (bytes_word lo hi) :: u8) = lo"
    unfolding bytes_word_def by (rule bit_word_eqI) (auto simp: bit_simps)
  moreover have "(ucast (drop_bit 8 (bytes_word lo hi)) :: u8) = hi"
    unfolding bytes_word_def by (rule bit_word_eqI) (auto simp: bit_simps dest: bit_imp_le_length)
  ultimately show ?thesis by (simp add: word_bytes_def)
qed

lemma length_word_bytes [simp]: "length (word_bytes w) = 2"
  by (simp add: word_bytes_def)

subsection \<open>A recording bus\<close>

record log =
  writes :: "(u16 \<times> u8) list"
  inputs :: "u8 list"

definition log_bus :: "log bus" where
  "log_bus = \<lparr>bus_in = (\<lambda>p l. case inputs l of [] \<Rightarrow> (0, l) | v # vs \<Rightarrow> (v, l\<lparr>inputs := vs\<rparr>)),
    bus_out = (\<lambda>p v l. l\<lparr>writes := writes l @ [(p, v)]\<rparr>),
    bus_inw = (\<lambda>p l. (0, l)), bus_outw = (\<lambda>p w l. l)\<rparr>"

lemma log_bus_outb [simp]: "outb log_bus p v l = l\<lparr>writes := writes l @ [(p, v)]\<rparr>"
  by (simp add: outb_def log_bus_def)

lemma log_bus_inb [simp]:
  "inb log_bus p l = (case inputs l of [] \<Rightarrow> (0, l) | v # vs \<Rightarrow> (v, l\<lparr>inputs := vs\<rparr>))"
  by (simp add: inb_def log_bus_def)

lemma log_bus_outs [simp]: "outs log_bus pvs l = l\<lparr>writes := writes l @ pvs\<rparr>"
  by (induction pvs arbitrary: l) auto

end
