(* ===== verification/Keyboard.thy ===== *)
theory Keyboard
  imports Bus
begin

text \<open>
  The keyboard driver (kernel/keyboard.c): the translation of scancodes with its modifier state, the
  controller set-up, and the ring buffer between the interrupt handler and the readers. The ring
  buffer refines a bounded queue of 255 characters; \<open>bounded_queue\<close> is that interface.
\<close>

subsection \<open>State\<close>

record keyboard =
  shift_pressed :: u8
  ctrl_pressed :: u8
  alt_pressed :: u8
  capslock_on :: u8
  kb_buffer :: "u8 list" \<comment> \<open>static volatile char kb_buffer[KB_BUFFER_SIZE]\<close>
  kb_head :: nat
  kb_tail :: nat

abbreviation (input) KB_BUFFER_SIZE :: nat where "KB_BUFFER_SIZE \<equiv> 256"
abbreviation (input) KB_DATA_PORT :: u16 where "KB_DATA_PORT \<equiv> 0x60"
abbreviation (input) KB_STATUS_PORT :: u16 where "KB_STATUS_PORT \<equiv> 0x64"
abbreviation (input) KB_CMD_PORT :: u16 where "KB_CMD_PORT \<equiv> 0x64"
abbreviation (input) KB_STATUS_OUTPUT_FULL :: u8 where "KB_STATUS_OUTPUT_FULL \<equiv> 1"
abbreviation (input) KB_STATUS_INPUT_FULL :: u8 where "KB_STATUS_INPUT_FULL \<equiv> 2"
abbreviation (input) KEY_ESCAPE :: u8 where "KEY_ESCAPE \<equiv> 0x01"
abbreviation (input) KEY_BACKSPACE :: u8 where "KEY_BACKSPACE \<equiv> 0x0E"
abbreviation (input) KEY_LCTRL :: u8 where "KEY_LCTRL \<equiv> 0x1D"
abbreviation (input) KEY_LSHIFT :: u8 where "KEY_LSHIFT \<equiv> 0x2A"
abbreviation (input) KEY_RSHIFT :: u8 where "KEY_RSHIFT \<equiv> 0x36"
abbreviation (input) KEY_LALT :: u8 where "KEY_LALT \<equiv> 0x38"
abbreviation (input) KEY_CAPSLOCK :: u8 where "KEY_CAPSLOCK \<equiv> 0x3A"
abbreviation (input) KEY_RELEASE :: u8 where "KEY_RELEASE \<equiv> 0x80"

subsection \<open>Scancodes\<close>

definition scancode_to_ascii :: "u8 list" where
  "scancode_to_ascii =
     [0, 0] @ str ''1234567890-='' @ [0, 9] @
     str ''qwertyuiop[]'' @ [10, 0] @ str ''asdfghjkl;'' @ [39, 96, 0, 92] @
     str ''zxcvbnm,./'' @ [0] @ str ''*'' @ [0] @ str '' '' @ replicate 13 0 @
     str ''789-456+1230.'' @ replicate 4 0"

definition scancode_to_ascii_shift :: "u8 list" where
  "scancode_to_ascii_shift =
     [0, 0] @ str ''!@#$%^&*()_+'' @ [0, 9] @
     str ''QWERTYUIOP{}'' @ [10, 0] @ str ''ASDFGHJKL:'' @ [34, 126, 0, 124] @
     str ''ZXCVBNM<>?'' @ [0] @ str ''*'' @ [0] @ str '' '' @ replicate 13 0 @
     str ''789-456+1230.'' @ replicate 4 0"

definition use_shift :: "u8 \<Rightarrow> 'z keyboard_scheme \<Rightarrow> u8" where
  "use_shift scancode k =
    (if 0x10 \<le> scancode \<and> scancode \<le> 0x19 then shift_pressed k XOR capslock_on k
     else if 0x1E \<le> scancode \<and> scancode \<le> 0x26 then shift_pressed k XOR capslock_on k
     else if 0x2C \<le> scancode \<and> scancode \<le> 0x32 then shift_pressed k XOR capslock_on k
     else shift_pressed k)"

definition translate_scancode :: "u8 \<Rightarrow> 'z keyboard_scheme \<Rightarrow> u8 \<times> 'z keyboard_scheme" where
  "translate_scancode scancode k =
    (if scancode AND KEY_RELEASE \<noteq> 0 then
       let released = scancode AND NOT KEY_RELEASE
       in (0, if released = KEY_LSHIFT \<or> released = KEY_RSHIFT then k\<lparr>shift_pressed := 0\<rparr>
              else if released = KEY_LCTRL then k\<lparr>ctrl_pressed := 0\<rparr>
              else if released = KEY_LALT then k\<lparr>alt_pressed := 0\<rparr> else k)
     else if scancode = KEY_LSHIFT \<or> scancode = KEY_RSHIFT then (0, k\<lparr>shift_pressed := 1\<rparr>)
     else if scancode = KEY_LCTRL then (0, k\<lparr>ctrl_pressed := 1\<rparr>)
     else if scancode = KEY_LALT then (0, k\<lparr>alt_pressed := 1\<rparr>)
     else if scancode = KEY_CAPSLOCK then (0, k\<lparr>capslock_on := (if capslock_on k = 0 then 1 else 0)\<rparr>)
     else if scancode = KEY_BACKSPACE then (8, k)
     else if scancode = KEY_ESCAPE then (27, k)
     else if unat scancode < length scancode_to_ascii then
       (if use_shift scancode k \<noteq> 0 then scancode_to_ascii_shift ! unat scancode
        else scancode_to_ascii ! unat scancode, k)
     else (0, k))"

subsection \<open>The ring buffer\<close>

text \<open>The part of the interrupt handler that stores a character; a full buffer drops it.\<close>

definition kb_put :: "u8 \<Rightarrow> 'z keyboard_scheme \<Rightarrow> 'z keyboard_scheme" where
  "kb_put c k =
    (let next_head = (kb_head k + 1) mod KB_BUFFER_SIZE
     in if next_head \<noteq> kb_tail k then k\<lparr>kb_buffer := (kb_buffer k)[kb_head k := c], kb_head := next_head\<rparr> else k)"

definition keyboard_irq_handler :: "'d bus \<Rightarrow> 'd \<Rightarrow> 'z keyboard_scheme \<Rightarrow> 'd \<times> 'z keyboard_scheme" where
  "keyboard_irq_handler bus d k =
    (let (scancode, d) = inb bus KB_DATA_PORT d;
         (c, k) = translate_scancode scancode k
     in (d, if c \<noteq> 0 then kb_put c k else k))"

definition keyboard_getchar :: "'z keyboard_scheme \<Rightarrow> u8 \<times> 'z keyboard_scheme" where
  "keyboard_getchar k =
    (if kb_tail k = kb_head k then (0, k)
     else (kb_buffer k ! kb_tail k, k\<lparr>kb_tail := (kb_tail k + 1) mod KB_BUFFER_SIZE\<rparr>))"

definition keyboard_shift_pressed :: "'z keyboard_scheme \<Rightarrow> u8" where
  "keyboard_shift_pressed k = shift_pressed k"

definition keyboard_ctrl_pressed :: "'z keyboard_scheme \<Rightarrow> u8" where
  "keyboard_ctrl_pressed k = ctrl_pressed k"

definition keyboard_alt_pressed :: "'z keyboard_scheme \<Rightarrow> u8" where
  "keyboard_alt_pressed k = alt_pressed k"

subsection \<open>Controller set-up\<close>

text \<open>\<open>while (busy(inb(KB_STATUS_PORT)) && timeout > 0) timeout--;\<close>\<close>

fun kb_wait :: "'d bus \<Rightarrow> (u8 \<Rightarrow> bool) \<Rightarrow> nat \<Rightarrow> 'd \<Rightarrow> 'd" where
  "kb_wait bus busy 0 d = snd (inb bus KB_STATUS_PORT d)"
| "kb_wait bus busy (Suc timeout) d =
     (let (v, d) = inb bus KB_STATUS_PORT d in if busy v then kb_wait bus busy timeout d else d)"

fun kb_drain :: "'d bus \<Rightarrow> nat \<Rightarrow> 'd \<Rightarrow> 'd" where
  "kb_drain bus 0 d = snd (inb bus KB_STATUS_PORT d)"
| "kb_drain bus (Suc timeout) d =
     (let (v, d) = inb bus KB_STATUS_PORT d
      in if v AND KB_STATUS_OUTPUT_FULL \<noteq> 0 then kb_drain bus timeout (snd (inb bus KB_DATA_PORT d)) else d)"

definition keyboard_init :: "'d bus \<Rightarrow> 'd \<Rightarrow> 'z keyboard_scheme \<Rightarrow> 'd \<times> 'z keyboard_scheme" where
  "keyboard_init bus d k =
    (let input_full = (\<lambda>v. v AND KB_STATUS_INPUT_FULL \<noteq> 0);
         d = kb_wait bus input_full 10000 d;
         d = outb bus KB_CMD_PORT 0x20 d;
         d = kb_wait bus (\<lambda>v. v AND KB_STATUS_OUTPUT_FULL = 0) 10000 d;
         (config, d) = inb bus KB_DATA_PORT d;
         config = config OR 1;
         d = kb_wait bus input_full 10000 d;
         d = outb bus KB_CMD_PORT 0x60 d;
         d = kb_wait bus input_full 10000 d;
         d = outb bus KB_DATA_PORT config d;
         d = kb_wait bus input_full 10000 d;
         d = outb bus KB_CMD_PORT 0xAE d;
         d = kb_drain bus 100 d
     in (d, k\<lparr>shift_pressed := 0, ctrl_pressed := 0, alt_pressed := 0, capslock_on := 0,
           kb_head := 0, kb_tail := 0\<rparr>))"

subsection \<open>A bounded queue\<close>

text \<open>
  The contract between the interrupt handler, which puts characters, and the readers, which take
  them: first in, first out, at most \<open>cap\<close> characters, further ones are dropped, 0 for an empty queue.
\<close>

fun put_all :: "(u8 \<Rightarrow> 'q \<Rightarrow> 'q) \<Rightarrow> u8 list \<Rightarrow> 'q \<Rightarrow> 'q" where
  "put_all put [] q = q"
| "put_all put (c # cs) q = put_all put cs (put c q)"

fun get_many :: "('q \<Rightarrow> u8 \<times> 'q) \<Rightarrow> nat \<Rightarrow> 'q \<Rightarrow> u8 list \<times> 'q" where
  "get_many get 0 q = ([], q)"
| "get_many get (Suc n) q = (let (c, q) = get q; (cs, q) = get_many get n q in (c # cs, q))"

locale bounded_queue =
  fixes put :: "u8 \<Rightarrow> 'q \<Rightarrow> 'q"
    and get :: "'q \<Rightarrow> u8 \<times> 'q"
    and contents :: "'q \<Rightarrow> u8 list"
    and invar :: "'q \<Rightarrow> bool"
    and cap :: nat
  assumes put_contents: "invar q \<Longrightarrow>
      contents (put c q) = (if length (contents q) < cap then contents q @ [c] else contents q)"
    and get_empty: "invar q \<Longrightarrow> contents q = [] \<Longrightarrow> get q = (0, q)"
    and get_contents: "invar q \<Longrightarrow> contents q = c # cs \<Longrightarrow> fst (get q) = c \<and> contents (snd (get q)) = cs"
    and put_invar: "invar q \<Longrightarrow> invar (put c q)"
    and get_invar: "invar q \<Longrightarrow> invar (snd (get q))"
begin

lemma put_all_contents:
  assumes "invar q"
  shows "contents (put_all put cs q) = contents q @ take (cap - length (contents q)) cs
    \<and> invar (put_all put cs q)"
  using assms
proof (induction cs arbitrary: q)
  case (Cons c cs)
  show ?case
  proof (cases "length (contents q) < cap")
    case True
    then have "cap - length (contents q) = Suc (cap - length (contents (put c q)))"
      using put_contents [OF Cons.prems] by simp
    then show ?thesis using Cons.IH [OF put_invar [OF Cons.prems]] put_contents [OF Cons.prems] True by simp
  next
    case False
    then show ?thesis using Cons.IH [OF put_invar [OF Cons.prems]] put_contents [OF Cons.prems] by simp
  qed
qed simp

lemma get_many_contents:
  assumes "invar q" and "get_many get n q = (cs, q')"
  shows "cs = take n (contents q) @ replicate (n - length (contents q)) 0
    \<and> contents q' = drop n (contents q) \<and> invar q'"
  using assms
proof (induction n arbitrary: q cs)
  case (Suc n)
  obtain c q1 where g: "get q = (c, q1)" by force
  obtain cs1 where m: "get_many get n q1 = (cs1, q')" "cs = c # cs1"
    using Suc.prems(2) g by (auto split: prod.splits)
  have inv1: "invar q1" using get_invar [OF Suc.prems(1)] g by simp
  note IH = Suc.IH [OF inv1 m(1)]
  show ?case
  proof (cases "contents q")
    case Nil
    then show ?thesis using get_empty [OF Suc.prems(1) Nil] g IH m(2) by simp
  next
    case (Cons x xs)
    then show ?thesis using get_contents [OF Suc.prems(1) Cons] g IH m(2) by simp
  qed
qed simp

lemma fifo:
  assumes "invar q" and "contents q = []" and "length cs \<le> cap"
  shows "fst (get_many get (length cs) (put_all put cs q)) = cs"
  using put_all_contents [OF assms(1), of cs] get_many_contents [of "put_all put cs q" "length cs"] assms(2,3)
  by (metis append_Nil cancel_comm_monoid_add_class.diff_cancel diff_zero list.size(3) prod.collapse
      replicate_0 self_append_conv take_all_iff order.refl)

end

subsection \<open>The ring buffer is a queue of 255 characters\<close>

definition kb_ok :: "'z keyboard_scheme \<Rightarrow> bool" where
  "kb_ok k \<longleftrightarrow> length (kb_buffer k) = 256 \<and> kb_head k < 256 \<and> kb_tail k < 256"

definition kb_count :: "'z keyboard_scheme \<Rightarrow> nat" where
  "kb_count k = (if kb_tail k \<le> kb_head k then kb_head k - kb_tail k else kb_head k + 256 - kb_tail k)"

definition kb_contents :: "'z keyboard_scheme \<Rightarrow> u8 list" where
  "kb_contents k = map (\<lambda>i. kb_buffer k ! ((kb_tail k + i) mod 256)) [0 ..< kb_count k]"

lemma length_kb_contents [simp]: "length (kb_contents k) = kb_count k"
  by (simp add: kb_contents_def)

lemma kb_contents_put:
  assumes "kb_ok k"
  shows "kb_contents (kb_put c k) = (if kb_count k < 255 then kb_contents k @ [c] else kb_contents k)"
proof -
  have len: "length (kb_buffer k) = 256" and h: "kb_head k < 256" and t: "kb_tail k < 256"
    using assms by (auto simp: kb_ok_def)
  have full: "(kb_head k + 1) mod 256 = kb_tail k \<longleftrightarrow> \<not> kb_count k < 255"
    using h t by (cases "kb_head k = 255") (auto simp: kb_count_def split: if_splits)
  show ?thesis
  proof (cases "kb_count k < 255")
    case True
    define k' where "k' = kb_put c k"
    have k': "k' = k\<lparr>kb_buffer := (kb_buffer k)[kb_head k := c], kb_head := (kb_head k + 1) mod 256\<rparr>"
      using full True by (simp add: k'_def kb_put_def Let_def)
    have cnt: "kb_count k' = Suc (kb_count k)"
      using True h t by (cases "kb_head k = 255") (auto simp: k' kb_count_def split: if_splits)
    have pos: "(kb_tail k + kb_count k) mod 256 = kb_head k"
      using h t by (cases "kb_tail k \<le> kb_head k") (simp_all add: kb_count_def)
    have other: "kb_head k \<noteq> (kb_tail k + i) mod 256" if "i < kb_count k" for i
    proof (cases "kb_tail k + i < 256")
      case True
      then show ?thesis using that h t by (auto simp: kb_count_def split: if_splits)
    next
      case False
      then have "(kb_tail k + i) mod 256 = kb_tail k + i - 256" using that t True by (simp add: le_mod_geq)
      then show ?thesis using that h t False by (auto simp: kb_count_def split: if_splits)
    qed
    have "kb_contents k' = kb_contents k @ [c]"
      unfolding kb_contents_def cnt using len h pos by (auto simp: k' other)
    then show ?thesis using True by (simp add: k'_def)
  next
    case False
    then show ?thesis using full by (simp add: kb_put_def Let_def)
  qed
qed

lemma kb_contents_get:
  assumes "kb_ok k" and "kb_contents k = c # cs"
  shows "fst (keyboard_getchar k) = c \<and> kb_contents (snd (keyboard_getchar k)) = cs"
proof -
  have h: "kb_head k < 256" and t: "kb_tail k < 256" using assms(1) by (auto simp: kb_ok_def)
  have pos: "0 < kb_count k" using assms(2) length_kb_contents [of k] by simp
  then have ne: "kb_tail k \<noteq> kb_head k" by (auto simp: kb_count_def)
  define k' where "k' = snd (keyboard_getchar k)"
  have k': "k' = k\<lparr>kb_tail := (kb_tail k + 1) mod 256\<rparr>" using ne by (simp add: k'_def keyboard_getchar_def)
  have cnt: "kb_count k = Suc (kb_count k')"
    using ne h t by (cases "kb_tail k = 255") (auto simp: k' kb_count_def split: if_splits)
  have "kb_contents k = kb_buffer k ! kb_tail k # map (\<lambda>i. kb_buffer k ! ((kb_tail k + Suc i) mod 256)) [0 ..< kb_count k']"
    unfolding kb_contents_def cnt using t by (simp add: upt_conv_Cons map_Suc_upt [symmetric] comp_def del: upt_Suc)
  moreover have "((kb_tail k + 1) mod 256 + i) mod 256 = (kb_tail k + Suc i) mod 256" for i
    by (simp add: mod_add_left_eq)
  ultimately show ?thesis using assms(2) ne unfolding k'_def [symmetric]
    by (simp add: kb_contents_def k' keyboard_getchar_def)
qed

interpretation kbq: bounded_queue kb_put keyboard_getchar kb_contents kb_ok 255
proof unfold_locales
  fix k :: "'a keyboard_scheme" and c cs
  assume ok: "kb_ok k"
  show "kb_contents (kb_put c k) = (if length (kb_contents k) < 255 then kb_contents k @ [c] else kb_contents k)"
    using kb_contents_put [OF ok] by simp
  show "keyboard_getchar k = (0, k)" if "kb_contents k = []"
    using arg_cong [OF that, of length] by (auto simp: keyboard_getchar_def kb_count_def split: if_splits)
      (use ok in \<open>simp add: kb_ok_def\<close>)+
  show "fst (keyboard_getchar k) = c \<and> kb_contents (snd (keyboard_getchar k)) = cs" if "kb_contents k = c # cs"
    using ok that by (rule kb_contents_get)
  show "kb_ok (kb_put c k)" using ok by (simp add: kb_ok_def kb_put_def Let_def)
  show "kb_ok (snd (keyboard_getchar k))" using ok by (simp add: kb_ok_def keyboard_getchar_def)
qed


subsection \<open>Properties\<close>

lemma length_tables: "length scancode_to_ascii = 88" "length scancode_to_ascii_shift = 88"
  by (simp_all add: scancode_to_ascii_def scancode_to_ascii_shift_def str_def)

lemma translate_keeps_buffer:
  assumes "translate_scancode sc k = (c, k')"
  shows "kb_contents k' = kb_contents k" and "kb_ok k' = kb_ok k"
  using assms by (auto simp: translate_scancode_def Let_def kb_contents_def kb_count_def kb_ok_def split: if_splits)

text \<open>
  what the interrupt handler stores is what the readers get: a keystroke with a character is
  appended to the buffered characters unless 255 are waiting, any other leaves them alone, and
  reading takes them out in the order they were typed.
\<close>

theorem keyboard_fifo:
  assumes "kb_ok k" and "inb bus KB_DATA_PORT d = (sc, d')"
  shows "(let c = fst (translate_scancode sc k); k' = snd (keyboard_irq_handler bus d k) in
      kb_ok k' \<and> kb_contents k' =
        (if c \<noteq> 0 \<and> length (kb_contents k) < 255 then kb_contents k @ [c] else kb_contents k))
    \<and> (case keyboard_getchar k of (c, k') \<Rightarrow>
        kb_ok k' \<and> (if kb_contents k = [] then c = 0 \<and> k' = k else kb_contents k = c # kb_contents k'))"
proof -
  obtain c k1 where tr: "translate_scancode sc k = (c, k1)" by force
  note keep = translate_keeps_buffer [OF tr]
  have ok1: "kb_ok k1" using keep(2) assms(1) by simp
  have irq: "snd (keyboard_irq_handler bus d k) = (if c \<noteq> 0 then kb_put c k1 else k1)"
    by (simp add: keyboard_irq_handler_def assms(2) tr)
  have "kb_ok (snd (keyboard_getchar k))" by (rule kbq.get_invar [OF assms(1)])
  moreover have "if kb_contents k = [] then keyboard_getchar k = (0, k)
      else kb_contents k = fst (keyboard_getchar k) # kb_contents (snd (keyboard_getchar k))"
    using kbq.get_empty [OF assms(1)] kbq.get_contents [OF assms(1)] by (cases "kb_contents k") auto
  ultimately show ?thesis
    using irq tr ok1 keep(1) kbq.put_invar [OF ok1, of c] kbq.put_contents [OF ok1, of c]
    by (auto simp: Let_def case_prod_beta split: if_splits)
qed

subsection \<open>Letters\<close>

definition is_letter :: "u8 \<Rightarrow> bool" where
  "is_letter c \<longleftrightarrow> 65 \<le> c \<and> c \<le> 90 \<or> 97 \<le> c \<and> c \<le> 122"

definition letter_key :: "u8 \<Rightarrow> bool" where
  "letter_key sc \<longleftrightarrow> 0x10 \<le> sc \<and> sc \<le> 0x19 \<or> 0x1E \<le> sc \<and> sc \<le> 0x26 \<or> 0x2C \<le> sc \<and> sc \<le> 0x32"

lemma table_bytes:
  "scancode_to_ascii =
     [0, 0, 49, 50, 51, 52, 53, 54, 55, 56, 57, 48, 45, 61, 0, 9, 113, 119, 101, 114, 116, 121, 117,
      105, 111, 112, 91, 93, 10, 0, 97, 115, 100, 102, 103, 104, 106, 107, 108, 59, 39, 96, 0, 92,
      122, 120, 99, 118, 98, 110, 109, 44, 46, 47, 0, 42, 0, 32, 0, 0, 0, 0, 0, 0, 0, 0, 0, 0, 0, 0,
      0, 55, 56, 57, 45, 52, 53, 54, 43, 49, 50, 51, 48, 46, 0, 0, 0, 0]"
  "scancode_to_ascii_shift =
     [0, 0, 33, 64, 35, 36, 37, 94, 38, 42, 40, 41, 95, 43, 0, 9, 81, 87, 69, 82, 84, 89, 85, 73, 79,
      80, 123, 125, 10, 0, 65, 83, 68, 70, 71, 72, 74, 75, 76, 58, 34, 126, 0, 124, 90, 88, 67, 86,
      66, 78, 77, 60, 62, 63, 0, 42, 0, 32, 0, 0, 0, 0, 0, 0, 0, 0, 0, 0, 0, 0, 0, 55, 56, 57, 45,
      52, 53, 54, 43, 49, 50, 51, 48, 46, 0, 0, 0, 0]"
  by (simp_all add: scancode_to_ascii_def scancode_to_ascii_shift_def str_def ord_c_def of_char_def numeral_eq_Suc)

lemma letter_keys:
  assumes "i < 88"
  shows "is_letter (scancode_to_ascii ! i) = letter_key (of_nat i)"
    and "is_letter (scancode_to_ascii_shift ! i) = letter_key (of_nat i)"
    and "letter_key (of_nat i) \<Longrightarrow> scancode_to_ascii_shift ! i = scancode_to_ascii ! i XOR 0x20"
proof -
  let ?is = "[0, 1, 2, 3, 4, 5, 6, 7, 8, 9, 10, 11, 12, 13, 14, 15, 16, 17, 18, 19, 20, 21, 22, 23, 24, 25,
      26, 27, 28, 29, 30, 31, 32, 33, 34, 35, 36, 37, 38, 39, 40, 41, 42, 43, 44, 45, 46, 47, 48, 49,
      50, 51, 52, 53, 54, 55, 56, 57, 58, 59, 60, 61, 62, 63, 64, 65, 66, 67, 68, 69, 70, 71, 72, 73,
      74, 75, 76, 77, 78, 79, 80, 81, 82, 83, 84, 85, 86, 87] :: u8 list"
  have le1: "\<not> 16 \<le> (1 :: u8)" "\<not> 30 \<le> (1 :: u8)" "\<not> 44 \<le> (1 :: u8)"
    by (simp_all add: word_le_nat_alt)
  have "list_all (\<lambda>(i, a, b). is_letter a = letter_key i \<and> is_letter b = letter_key i \<and> (letter_key i \<longrightarrow> b = a XOR 0x20))
      (zip ?is (zip scancode_to_ascii scancode_to_ascii_shift))"
    by (simp add: table_bytes letter_key_def is_letter_def le1)
  moreover have "[0 ..< 88] = 0 # 1 # [2 ..< 88]" by (simp add: upt_conv_Cons numeral_2_eq_2)
  then have "?is = map of_nat [0 ..< 88]" by (simp add: upt_rec_numeral)
  ultimately have all: "list_all (\<lambda>(i, a, b). is_letter a = letter_key i \<and> is_letter b = letter_key i \<and> (letter_key i \<longrightarrow> b = a XOR 0x20))
      (zip (map of_nat [0 ..< 88]) (zip scancode_to_ascii scancode_to_ascii_shift))" by (simp only:)
  have n: "zip (map of_nat [0 ..< 88]) (zip scancode_to_ascii scancode_to_ascii_shift) ! i =
      (of_nat i, scancode_to_ascii ! i, scancode_to_ascii_shift ! i)"
    using assms length_tables by simp
  from all assms have "case (of_nat i, scancode_to_ascii ! i, scancode_to_ascii_shift ! i) of
      (i, a, b) \<Rightarrow> is_letter a = letter_key i \<and> is_letter b = letter_key i \<and> (letter_key i \<longrightarrow> b = a XOR 0x20)"
    unfolding list_all_length n [symmetric] by (simp add: length_tables)
  then show "is_letter (scancode_to_ascii ! i) = letter_key (of_nat i)"
    "is_letter (scancode_to_ascii_shift ! i) = letter_key (of_nat i)"
    "letter_key (of_nat i) \<Longrightarrow> scancode_to_ascii_shift ! i = scancode_to_ascii ! i XOR 0x20"
    by simp_all
qed

lemma use_shift_caps:
  "use_shift sc (k\<lparr>capslock_on := v\<rparr>) = (if letter_key sc then shift_pressed k XOR v else shift_pressed k)"
  by (auto simp: use_shift_def letter_key_def)

text \<open>
  caps lock matters for letters only: with and without caps lock a key gives the same character
  unless that character is a letter, and then the two characters are its two cases, whether a shift
  key is held or not.
\<close>

theorem caps_lock_letters_only:
  assumes "shift_pressed k = 0 \<or> shift_pressed k = 1"
  shows "(let c = fst (translate_scancode sc (k\<lparr>capslock_on := 0\<rparr>)) in
      fst (translate_scancode sc (k\<lparr>capslock_on := 1\<rparr>)) = (if is_letter c then c XOR 0x20 else c))"
proof (cases "unat sc < 88")
  case True
  have "\<not> is_letter 0" "\<not> is_letter 8" "\<not> is_letter 27" by (simp_all add: is_letter_def word_le_nat_alt)
  moreover have "(a XOR 0x20) XOR 0x20 = a" for a :: u8 by (simp add: xor.assoc)
  ultimately show ?thesis
    using assms letter_keys [OF True]
    by (auto simp: translate_scancode_def Let_def length_tables use_shift_caps)
next
  case False
  have "\<not> is_letter 0" "\<not> is_letter 8" "\<not> is_letter 27" by (simp_all add: is_letter_def word_le_nat_alt)
  then show ?thesis
    using False by (auto simp: translate_scancode_def Let_def length_tables)
qed

subsection \<open>Typing\<close>

text \<open>\<open>irqs n\<close> is n keyboard interrupts; \<open>scancodes\<close> is what the controller delivers to them and
  \<open>typed\<close> the characters these scancodes stand for.\<close>

fun irqs :: "'d bus \<Rightarrow> nat \<Rightarrow> 'd \<Rightarrow> 'z keyboard_scheme \<Rightarrow> 'd \<times> 'z keyboard_scheme" where
  "irqs bus 0 d k = (d, k)"
| "irqs bus (Suc n) d k = (let (d, k) = keyboard_irq_handler bus d k in irqs bus n d k)"

fun scancodes :: "'d bus \<Rightarrow> nat \<Rightarrow> 'd \<Rightarrow> u8 list" where
  "scancodes bus 0 d = []"
| "scancodes bus (Suc n) d = (let (sc, d) = inb bus KB_DATA_PORT d in sc # scancodes bus n d)"

fun typed :: "u8 list \<Rightarrow> 'z keyboard_scheme \<Rightarrow> u8 list" where
  "typed [] k = []"
| "typed (sc # scs) k =
     (let (c, k) = translate_scancode sc k in if c \<noteq> 0 then c # typed scs k else typed scs k)"

lemma use_shift_frame:
  "use_shift sc (k\<lparr>kb_buffer := b, kb_head := h\<rparr>) = use_shift sc k"
  by (simp add: use_shift_def)

lemma translate_frame:
  "translate_scancode sc (k\<lparr>kb_buffer := b, kb_head := h\<rparr>) =
    (fst (translate_scancode sc k), (snd (translate_scancode sc k))\<lparr>kb_buffer := b, kb_head := h\<rparr>)"
  "kb_head (snd (translate_scancode sc k)) = kb_head k" "kb_tail (snd (translate_scancode sc k)) = kb_tail k"
  "kb_buffer (snd (translate_scancode sc k)) = kb_buffer k"
  by (auto simp: translate_scancode_def Let_def use_shift_frame)

lemma translate_put:
  "translate_scancode sc (kb_put c k) = (fst (translate_scancode sc k), kb_put c (snd (translate_scancode sc k)))"
  by (simp add: kb_put_def Let_def translate_frame)

lemma typed_put: "typed scs (kb_put c k) = typed scs k"
  by (induction scs arbitrary: k) (auto simp: translate_put Let_def case_prod_beta)

lemma irqs_contents:
  assumes "kb_ok k" and "length (kb_contents k) + length (typed (scancodes bus n d) k) \<le> 255"
  shows "kb_ok (snd (irqs bus n d k))
    \<and> kb_contents (snd (irqs bus n d k)) = kb_contents k @ typed (scancodes bus n d) k"
  using assms
proof (induction n arbitrary: d k)
  case (Suc n)
  obtain sc d1 where i: "inb bus KB_DATA_PORT d = (sc, d1)" by force
  obtain c k1 where tr: "translate_scancode sc k = (c, k1)" by force
  note keep = translate_keeps_buffer [OF tr]
  have ok1: "kb_ok k1" using keep(2) Suc.prems(1) by simp
  show ?case
  proof (cases "c = 0")
    case True
    then show ?thesis using Suc.IH [OF ok1] Suc.prems(2) i tr keep(1)
      by (simp add: keyboard_irq_handler_def del: length_kb_contents)
  next
    case False
    then show ?thesis
      using Suc.IH [OF kbq.put_invar [OF ok1, of c]] Suc.prems(2) i tr keep(1) kbq.put_contents [OF ok1, of c]
      by (simp add: keyboard_irq_handler_def typed_put del: length_kb_contents)
  qed
qed simp

text \<open>
  C27: what is typed is what is read: after \<open>keyboard_init\<close>, whatever the controller answered, any
  number of keyboard interrupts that stand for at most 255 characters leave these characters to be
  read by \<open>keyboard_getchar\<close>, in order and complete.
\<close>

theorem keyboard_typing_roundtrip:
  assumes "length (kb_buffer k) = 256" and "keyboard_init bus d k = (d0, k0)"
    and "typed (scancodes bus n d0) k0 = cs" and "length cs \<le> 255"
  shows "fst (get_many keyboard_getchar (length cs) (snd (irqs bus n d0 k0))) = cs"
proof -
  have ok: "kb_ok k0" and e: "kb_contents k0 = []"
    using assms(1,2) by (auto simp: keyboard_init_def kb_ok_def kb_contents_def kb_count_def Let_def split: prod.splits)
  have "kb_ok (snd (irqs bus n d0 k0))" "kb_contents (snd (irqs bus n d0 k0)) = cs"
    using irqs_contents [OF ok, of bus n d0] e assms(3,4) by (simp_all del: length_kb_contents)
  then show ?thesis
    using kbq.get_many_contents [of "snd (irqs bus n d0 k0)" "length cs"] by (metis (no_types) append_Nil2 diff_self_eq_0 order_refl prod.collapse replicate_0 take_all)
qed

subsection \<open>Witnesses\<close>

definition demo_keyboard :: keyboard where
  "demo_keyboard = \<lparr>shift_pressed = 0, ctrl_pressed = 0, alt_pressed = 0, capslock_on = 0,
     kb_buffer = replicate 256 0, kb_head = 0, kb_tail = 0\<rparr>"

text \<open>The controller answers the set-up and then delivers the scancodes of a, shift, A.\<close>

definition demo_controller :: log where
  "demo_controller = \<lparr>writes = [], inputs = [0, 1, 0x41, 0, 0, 0, 0, 0x1E, 0x9E, 0x2A, 0x1E]\<rparr>"

lemma kb_wait_unfold:
  "kb_wait bus busy n d =
    (let (v, d) = inb bus KB_STATUS_PORT d in if busy v \<and> 0 < n then kb_wait bus busy (n - 1) d else d)"
  by (cases n) (auto simp: Let_def case_prod_beta)

lemma kb_drain_unfold:
  "kb_drain bus n d =
    (let (v, d) = inb bus KB_STATUS_PORT d
     in if v AND KB_STATUS_OUTPUT_FULL \<noteq> 0 \<and> 0 < n then kb_drain bus (n - 1) (snd (inb bus KB_DATA_PORT d)) else d)"
  by (cases n) (auto simp: Let_def case_prod_beta)

lemma demo_keyboard_init:
  "keyboard_init log_bus demo_controller demo_keyboard =
    (\<lparr>writes = [(0x64, 0x20), (0x64, 0x60), (0x60, 0x41), (0x64, 0xAE)], inputs = [0x1E, 0x9E, 0x2A, 0x1E]\<rparr>,
     demo_keyboard)"
  by (simp add: keyboard_init_def demo_controller_def demo_keyboard_def kb_wait_unfold [of _ _ 10000]
      kb_drain_unfold [of _ 100])

lemma demo_typed:
  "typed (scancodes log_bus 4 (fst (keyboard_init log_bus demo_controller demo_keyboard))) demo_keyboard = str ''aA''"
proof -
  have four: "(4 :: nat) = Suc (Suc (Suc (Suc 0)))" by simp
  have "scancodes log_bus 4 (fst (keyboard_init log_bus demo_controller demo_keyboard)) = [0x1E, 0x9E, 0x2A, 0x1E]"
    unfolding demo_keyboard_init four by simp
  moreover have "translate_scancode 0x1E demo_keyboard = (97, demo_keyboard)"
    "translate_scancode 0x9E demo_keyboard = (0, demo_keyboard)"
    "translate_scancode 0x2A demo_keyboard = (0, demo_keyboard\<lparr>shift_pressed := 1\<rparr>)"
    "translate_scancode 0x1E (demo_keyboard\<lparr>shift_pressed := 1\<rparr>) = (65, demo_keyboard\<lparr>shift_pressed := 1\<rparr>)"
    by (simp_all add: demo_keyboard_def translate_scancode_def table_bytes use_shift_def)
  ultimately show ?thesis by (simp add: str_def ord_c_def of_char_def)
qed

theorem keyboard_fifo_witness:
  "kb_contents (snd (keyboard_irq_handler log_bus \<lparr>writes = [], inputs = [0x1E]\<rparr> demo_keyboard)) = str ''a''"
proof -
  have "kb_ok demo_keyboard" "kb_contents demo_keyboard = []"
    by (simp_all add: demo_keyboard_def kb_ok_def kb_contents_def kb_count_def)
  moreover have "fst (translate_scancode 0x1E demo_keyboard) = 97"
    by (simp add: demo_keyboard_def translate_scancode_def table_bytes use_shift_def)
  ultimately show ?thesis
    using keyboard_fifo [of demo_keyboard log_bus "\<lparr>writes = [], inputs = [0x1E]\<rparr>" "0x1E" "\<lparr>writes = [], inputs = []\<rparr>"]
    by (simp add: Let_def str_def ord_c_def of_char_def)
qed

theorem caps_lock_letters_only_witness:
  "shift_pressed demo_keyboard = 0 \<and> fst (translate_scancode 0x1E (demo_keyboard\<lparr>capslock_on := 1\<rparr>)) = ord_c (CHR ''A'')
    \<and> fst (translate_scancode 0x02 (demo_keyboard\<lparr>capslock_on := 1\<rparr>)) = ord_c (CHR ''1'')"
proof -
  have "fst (translate_scancode 0x1E (demo_keyboard\<lparr>capslock_on := 0\<rparr>)) = 97"
    "fst (translate_scancode 0x02 (demo_keyboard\<lparr>capslock_on := 0\<rparr>)) = 49"
    by (simp_all add: demo_keyboard_def translate_scancode_def table_bytes use_shift_def)
  moreover have "shift_pressed demo_keyboard = 0" by (simp add: demo_keyboard_def)
  ultimately show ?thesis
    using caps_lock_letters_only [of demo_keyboard "0x1E"] caps_lock_letters_only [of demo_keyboard "0x02"]
    by (simp add: Let_def is_letter_def ord_c_def of_char_def)
qed

theorem keyboard_typing_roundtrip_witness:
  "fst (get_many keyboard_getchar 2 (snd (irqs log_bus 4 (fst (keyboard_init log_bus demo_controller demo_keyboard))
      demo_keyboard))) = str ''aA''"
proof -
  have "length (kb_buffer demo_keyboard) = 256" by (simp add: demo_keyboard_def)
  moreover have "keyboard_init log_bus demo_controller demo_keyboard =
      (fst (keyboard_init log_bus demo_controller demo_keyboard), demo_keyboard)"
    by (simp add: demo_keyboard_init)
  ultimately show ?thesis
    using keyboard_typing_roundtrip [OF _ _ demo_typed, of demo_keyboard demo_controller] by (simp add: str_def numeral_2_eq_2)
qed

end
