(* ===== verification/Vga.thy ===== *)
theory Vga
  imports Bus
begin

text \<open>
  The text console (kernel/vga.c). The state is the 80 x 25 text buffer at 0xB8000, the cursor and the
  colour; the cursor registers are behind the port bus. \<open>terminal\<close> is the abstract console, lines of
  cells with a cursor, and \<open>vga_putchar\<close> is shown to implement its character operation.
\<close>

subsection \<open>State\<close>

datatype vga_color_code =
    VGA_COLOR_BLACK | VGA_COLOR_BLUE | VGA_COLOR_GREEN | VGA_COLOR_CYAN | VGA_COLOR_RED
  | VGA_COLOR_MAGENTA | VGA_COLOR_BROWN | VGA_COLOR_LIGHT_GREY | VGA_COLOR_DARK_GREY
  | VGA_COLOR_LIGHT_BLUE | VGA_COLOR_LIGHT_GREEN | VGA_COLOR_LIGHT_CYAN | VGA_COLOR_LIGHT_RED
  | VGA_COLOR_LIGHT_MAGENTA | VGA_COLOR_YELLOW | VGA_COLOR_WHITE

fun color_value :: "vga_color_code \<Rightarrow> u8" where
  "color_value VGA_COLOR_BLACK = 0" | "color_value VGA_COLOR_BLUE = 1"
| "color_value VGA_COLOR_GREEN = 2" | "color_value VGA_COLOR_CYAN = 3"
| "color_value VGA_COLOR_RED = 4" | "color_value VGA_COLOR_MAGENTA = 5"
| "color_value VGA_COLOR_BROWN = 6" | "color_value VGA_COLOR_LIGHT_GREY = 7"
| "color_value VGA_COLOR_DARK_GREY = 8" | "color_value VGA_COLOR_LIGHT_BLUE = 9"
| "color_value VGA_COLOR_LIGHT_GREEN = 10" | "color_value VGA_COLOR_LIGHT_CYAN = 11"
| "color_value VGA_COLOR_LIGHT_RED = 12" | "color_value VGA_COLOR_LIGHT_MAGENTA = 13"
| "color_value VGA_COLOR_YELLOW = 14" | "color_value VGA_COLOR_WHITE = 15"

abbreviation (input) VGA_WIDTH :: nat where "VGA_WIDTH \<equiv> 80"
abbreviation (input) VGA_HEIGHT :: nat where "VGA_HEIGHT \<equiv> 25"

record vga =
  vga_buffer :: "u16 list" \<comment> \<open>the VGA_HEIGHT * VGA_WIDTH cells at VGA_MEMORY\<close>
  vga_row :: nat
  vga_column :: nat
  vga_color :: u8

definition vga_entry_color :: "vga_color_code \<Rightarrow> vga_color_code \<Rightarrow> u8" where
  "vga_entry_color fg bg = color_value fg OR push_bit 4 (color_value bg)"

definition vga_entry :: "u8 \<Rightarrow> u8 \<Rightarrow> u16" where
  "vga_entry c color = ucast c OR push_bit 8 (ucast color)"

subsection \<open>Operations\<close>

definition vga_update_cursor :: "'d bus \<Rightarrow> vga \<Rightarrow> 'd \<Rightarrow> 'd" where
  "vga_update_cursor bus s d =
    (let pos = of_nat (vga_row s * VGA_WIDTH + vga_column s) :: u16;
         d = outb bus 0x3D4 0x0F d;
         d = outb bus 0x3D5 (ucast (pos AND 0xFF)) d;
         d = outb bus 0x3D4 0x0E d
     in outb bus 0x3D5 (ucast (drop_bit 8 pos AND 0xFF)) d)"

definition vga_clear :: "'d bus \<Rightarrow> vga \<Rightarrow> 'd \<Rightarrow> 'd \<times> vga" where
  "vga_clear bus s d =
    (let b = fold (\<lambda>y. fold (\<lambda>x b. b[y * VGA_WIDTH + x := vga_entry (ord_c CHR '' '') (vga_color s)])
               [0 ..< VGA_WIDTH]) [0 ..< VGA_HEIGHT] (vga_buffer s);
         s = s\<lparr>vga_buffer := b, vga_row := 0, vga_column := 0\<rparr>
     in (vga_update_cursor bus s d, s))"

definition vga_init :: "'d bus \<Rightarrow> vga \<Rightarrow> 'd \<Rightarrow> 'd \<times> vga" where
  "vga_init bus s d =
    vga_clear bus (s\<lparr>vga_row := 0, vga_column := 0,
      vga_color := vga_entry_color VGA_COLOR_LIGHT_GREY VGA_COLOR_BLACK\<rparr>) d"

definition vga_scroll :: "vga \<Rightarrow> vga" where
  "vga_scroll s =
    (let b = fold (\<lambda>y. fold (\<lambda>x b. b[y * VGA_WIDTH + x := b ! ((y + 1) * VGA_WIDTH + x)])
               [0 ..< VGA_WIDTH]) [0 ..< VGA_HEIGHT - 1] (vga_buffer s);
         b = fold (\<lambda>x b. b[(VGA_HEIGHT - 1) * VGA_WIDTH + x := vga_entry (ord_c CHR '' '') (vga_color s)])
               [0 ..< VGA_WIDTH] b
     in s\<lparr>vga_buffer := b, vga_row := VGA_HEIGHT - 1\<rparr>)"

text \<open>\<open>vga_column = 0; if (++vga_row >= VGA_HEIGHT) vga_scroll();\<close>\<close>

definition vga_newline :: "vga \<Rightarrow> vga" where
  "vga_newline s =
    (let s = s\<lparr>vga_column := 0, vga_row := vga_row s + 1\<rparr>
     in if vga_row s \<ge> VGA_HEIGHT then vga_scroll s else s)"

definition vga_putchar :: "'d bus \<Rightarrow> u8 \<Rightarrow> vga \<Rightarrow> 'd \<Rightarrow> 'd \<times> vga" where
  "vga_putchar bus c s d =
    (let s =
       (if c = 10 then vga_newline s
        else if c = 13 then s\<lparr>vga_column := 0\<rparr>
        else if c = 8 then
          (if vga_column s > 0 then s\<lparr>vga_column := vga_column s - 1\<rparr>
           else if vga_row s > 0 then s\<lparr>vga_row := vga_row s - 1, vga_column := VGA_WIDTH - 1\<rparr>
           else s)
        else if c = 9 then
          (let s = s\<lparr>vga_column := 4 * ((vga_column s + 4) div 4)\<rparr> \<comment> \<open>& ~3\<close>
           in if vga_column s \<ge> VGA_WIDTH then vga_newline s else s)
        else
          (let index = vga_row s * VGA_WIDTH + vga_column s;
               s = s\<lparr>vga_buffer := (vga_buffer s)[index := vga_entry c (vga_color s)],
                     vga_column := vga_column s + 1\<rparr>
           in if vga_column s \<ge> VGA_WIDTH then vga_newline s else s))
     in (vga_update_cursor bus s d, s))"

fun vga_puts :: "'d bus \<Rightarrow> cstring \<Rightarrow> vga \<Rightarrow> 'd \<Rightarrow> 'd \<times> vga" where
  "vga_puts bus [] s d = (d, s)"
| "vga_puts bus (c # cs) s d =
     (if c = 0 then (d, s) else let (d, s) = vga_putchar bus c s d in vga_puts bus cs s d)"

definition vga_set_color :: "vga_color_code \<Rightarrow> vga_color_code \<Rightarrow> vga \<Rightarrow> vga" where
  "vga_set_color fg bg s = s\<lparr>vga_color := vga_entry_color fg bg\<rparr>"

definition hex_digits :: cstring where
  "hex_digits = str ''0123456789ABCDEF''"

definition vga_puthex :: "'d bus \<Rightarrow> u32 \<Rightarrow> vga \<Rightarrow> 'd \<Rightarrow> 'd \<times> vga" where
  "vga_puthex bus n s d =
    (let (d, s) = vga_puts bus (str ''0x'') s d
     in fold (\<lambda>i (d, s). vga_putchar bus (hex_digits ! unat (drop_bit i n AND 0xF)) s d)
          [28, 24, 20, 16, 12, 8, 4, 0] (d, s))"

subsection \<open>The loops over the buffer\<close>

lemma fold_nested:
  "fold (\<lambda>y. fold (\<lambda>x. f (y * w + x)) [0 ..< w]) [0 ..< h] b = fold f [0 ..< h * w] b"
proof (induction h)
  case (Suc h)
  have "[0 ..< Suc h * w] = [0 ..< h * w] @ map (\<lambda>x. h * w + x) [0 ..< w]"
    using upt_add_eq_append [of 0 "h * w" w] map_add_upt [of "h * w" w]
    by (simp add: add.commute)
  then show ?case using Suc by (simp add: fold_map comp_def)
qed simp

lemma fold_fill:
  assumes "k + n \<le> length b"
  shows "fold (\<lambda>i b. b[k + i := v]) [0 ..< n] b = take k b @ replicate n v @ drop (k + n) b"
  using assms
proof (induction n)
  case (Suc n)
  have "(take k b @ replicate n v @ drop (k + n) b)[k + n := v] =
      take k b @ replicate n v @ (drop (k + n) b)[0 := v]"
    using Suc.prems by (simp add: list_update_append)
  also have "(drop (k + n) b)[0 := v] = v # drop (Suc (k + n)) b"
    using Suc.prems by (subst Cons_nth_drop_Suc [symmetric]) auto
  finally show ?case using Suc by (simp add: replicate_append_same [symmetric] del: replicate_append_same replicate_Suc)
    (simp add: replicate_append_same [symmetric])
qed simp

lemma fold_shift:
  assumes "n + w \<le> length b" and "0 < w"
  shows "fold (\<lambda>i b. b[i := b ! (i + w)]) [0 ..< n] b = take n (drop w b) @ drop n b"
  using assms(1)
proof (induction n)
  case (Suc n)
  let ?l = "take n (drop w b) @ drop n b"
  have "?l ! (n + w) = b ! (n + w)" using Suc.prems assms(2) by (simp add: nth_append)
  then have "?l[n := ?l ! (n + w)] = take n (drop w b) @ (drop n b)[0 := b ! (n + w)]"
    using Suc.prems by (simp add: list_update_append)
  also have "(drop n b)[0 := b ! (n + w)] = b ! (n + w) # drop (Suc n) b"
    using Suc.prems by (subst Cons_nth_drop_Suc [symmetric]) auto
  also have "take n (drop w b) @ b ! (n + w) # drop (Suc n) b = take (Suc n) (drop w b) @ drop (Suc n) b"
    using Suc.prems by (simp add: take_Suc_conv_app_nth add.commute)
  finally show ?case using Suc by simp
qed simp

lemma vga_clear_buffer:
  assumes "length (vga_buffer s) = 2000"
  shows "vga_buffer (snd (vga_clear bus s d)) = replicate 2000 (vga_entry (ord_c CHR '' '') (vga_color s))"
proof -
  let ?v = "vga_entry (ord_c CHR '' '') (vga_color s)"
  have "fold (\<lambda>y. fold (\<lambda>x b. b[y * 80 + x := ?v]) [0 ..< 80]) [0 ..< 25] (vga_buffer s) =
      fold (\<lambda>i b. b[0 + i := ?v]) [0 ..< 25 * 80] (vga_buffer s)"
    by (subst fold_nested [where f = "\<lambda>i b. b[i := ?v]"]) simp
  also have "\<dots> = replicate 2000 ?v" using assms by (subst fold_fill) auto
  finally show ?thesis by (simp add: vga_clear_def Let_def)
qed

lemma vga_scroll_buffer:
  assumes "length (vga_buffer s) = 2000"
  shows "vga_buffer (vga_scroll s) =
    drop 80 (vga_buffer s) @ replicate 80 (vga_entry (ord_c CHR '' '') (vga_color s))"
proof -
  let ?v = "vga_entry (ord_c CHR '' '') (vga_color s)" and ?b = "vga_buffer s"
  have "fold (\<lambda>y. fold (\<lambda>x b. b[y * 80 + x := b ! ((y + 1) * 80 + x)]) [0 ..< 80]) [0 ..< 24] ?b =
      fold (\<lambda>i b. b[i := b ! (i + 80)]) [0 ..< 24 * 80] ?b"
    by (subst fold_nested [where f = "\<lambda>i b. b[i := b ! (i + 80)]", symmetric]) (simp add: ac_simps)
  also have "\<dots> = drop 80 ?b @ drop 1920 ?b" using assms by (subst fold_shift) auto
  finally have *: "fold (\<lambda>y. fold (\<lambda>x b. b[y * 80 + x := b ! ((y + 1) * 80 + x)]) [0 ..< 80]) [0 ..< 24] ?b =
      drop 80 ?b @ drop 1920 ?b" .
  have "fold (\<lambda>x b. b[1920 + x := ?v]) [0 ..< 80] (drop 80 ?b @ drop 1920 ?b) = drop 80 ?b @ replicate 80 ?v"
    using assms by (subst fold_fill) auto
  with * show ?thesis by (simp add: vga_scroll_def Let_def del: fold_simps fold.simps)
qed


subsection \<open>The abstract console\<close>

record terminal =
  t_lines :: "u16 list list"
  t_row :: nat
  t_col :: nat
  t_color :: u8

definition t_blank :: "terminal \<Rightarrow> u16 list" where
  "t_blank t = replicate 80 (vga_entry (ord_c CHR '' '') (t_color t))"

definition t_newline :: "terminal \<Rightarrow> terminal" where
  "t_newline t =
    (if t_row t < 24 then t\<lparr>t_row := t_row t + 1, t_col := 0\<rparr>
     else t\<lparr>t_lines := tl (t_lines t) @ [t_blank t], t_col := 0\<rparr>)"

definition t_goto :: "nat \<Rightarrow> terminal \<Rightarrow> terminal" where
  "t_goto c t = (if c < 80 then t\<lparr>t_col := c\<rparr> else t_newline t)"

definition t_set :: "u16 \<Rightarrow> terminal \<Rightarrow> terminal" where
  "t_set v t = t\<lparr>t_lines := (t_lines t)[t_row t := (t_lines t ! t_row t)[t_col t := v]]\<rparr>"

definition t_back :: "terminal \<Rightarrow> terminal" where
  "t_back t =
    (if 0 < t_col t then t\<lparr>t_col := t_col t - 1\<rparr>
     else if 0 < t_row t then t\<lparr>t_row := t_row t - 1, t_col := 79\<rparr> else t)"

definition t_put :: "u8 \<Rightarrow> terminal \<Rightarrow> terminal" where
  "t_put c t =
    (if c = 10 then t_newline t
     else if c = 13 then t\<lparr>t_col := 0\<rparr>
     else if c = 8 then t_back t
     else if c = 9 then t_goto (4 * (t_col t div 4 + 1)) t
     else t_goto (t_col t + 1) (t_set (vga_entry c (t_color t)) t))"

definition vga_ok :: "vga \<Rightarrow> bool" where
  "vga_ok s \<longleftrightarrow> length (vga_buffer s) = 2000 \<and> vga_row s < 25 \<and> vga_column s < 80"

definition lines_of :: "nat \<Rightarrow> u16 list \<Rightarrow> u16 list list" where
  "lines_of h b = map (\<lambda>y. take 80 (drop (y * 80) b)) [0 ..< h]"

definition terminal_of :: "vga \<Rightarrow> terminal" where
  "terminal_of s = \<lparr>t_lines = lines_of 25 (vga_buffer s), t_row = vga_row s, t_col = vga_column s, t_color = vga_color s\<rparr>"

lemma lines_of_update:
  assumes "length b = h * 80" and "r < h" and "c < 80"
  shows "lines_of h (b[r * 80 + c := v]) = (lines_of h b)[r := (lines_of h b ! r)[c := v]]"
proof (rule nth_equalityI)
  fix y assume "y < length (lines_of h (b[r * 80 + c := v]))"
  then have y: "y < h" by (simp add: lines_of_def)
  consider "y = r" | "y < r" | "r < y" by linarith
  then show "lines_of h (b[r * 80 + c := v]) ! y = (lines_of h b)[r := (lines_of h b ! r)[c := v]] ! y"
  proof cases
    case 1
    then show ?thesis using y assms(3) by (simp add: lines_of_def drop_update_swap take_update_swap)
  next
    case 2
    then have "y * 80 + 80 \<le> r * 80 + c" by simp
    then have "take 80 (drop (y * 80) (b[r * 80 + c := v])) = take 80 (drop (y * 80) b)"
      by (simp add: drop_update_swap take_update_cancel)
    then show ?thesis using y 2 by (simp add: lines_of_def)
  next
    case 3
    then have "r * 80 + c < y * 80" using assms(3) by linarith
    then show ?thesis using y 3 by (simp add: lines_of_def drop_update_cancel)
  qed
qed (simp add: lines_of_def)

lemma lines_of_scroll:
  assumes "length b = Suc h * 80" and "length l = 80"
  shows "lines_of (Suc h) (drop 80 b @ l) = tl (lines_of (Suc h) b) @ [l]"
proof -
  have "take 80 (drop (y * 80) (drop 80 b @ l)) = take 80 (drop (Suc y * 80) b)" if "y < h" for y
    using that assms by (auto simp: add.commute)
  moreover have "take 80 (drop (h * 80) (drop 80 b @ l)) = l" using assms by simp
  moreover have "tl (lines_of (Suc h) b) = map (\<lambda>y. take 80 (drop (Suc y * 80) b)) [0 ..< h]"
    by (simp add: lines_of_def upt_conv_Cons map_Suc_upt [symmetric] comp_def del: upt_Suc)
  ultimately show ?thesis by (simp add: lines_of_def)
qed

lemma vga_newline_refines:
  assumes "length (vga_buffer s) = 2000" and "vga_row s < 25"
  shows "vga_ok (vga_newline s) \<and> terminal_of (vga_newline s) = t_newline (terminal_of s)"
proof -
  let ?s = "s\<lparr>vga_column := 0, vga_row := Suc (vga_row s)\<rparr>"
  have b: "vga_buffer (vga_scroll ?s) = drop 80 (vga_buffer s) @ t_blank (terminal_of s)"
    using vga_scroll_buffer [of ?s] assms(1) by (simp add: t_blank_def terminal_of_def)
  have rest: "vga_row (vga_scroll ?s) = 24" "vga_column (vga_scroll ?s) = 0" "vga_color (vga_scroll ?s) = vga_color s"
    by (simp_all add: vga_scroll_def Let_def del: fold_simps fold.simps)
  show ?thesis
  proof (cases "vga_row s < 24")
    case True
    then show ?thesis using assms by (simp add: vga_newline_def vga_ok_def terminal_of_def t_newline_def)
  next
    case False
    have l: "length (t_blank (terminal_of s)) = 80" by (simp add: t_blank_def)
    have "lines_of 25 (drop 80 (vga_buffer s) @ t_blank (terminal_of s)) =
        tl (lines_of 25 (vga_buffer s)) @ [t_blank (terminal_of s)]"
      using lines_of_scroll [of "vga_buffer s" 24] assms(1) l by simp
    moreover have "vga_newline s = vga_scroll ?s" using False by (simp add: vga_newline_def)
    ultimately show ?thesis using False assms b rest l
      by (simp add: vga_ok_def t_newline_def) (simp add: terminal_of_def)
  qed
qed

lemma vga_advance_refines:
  assumes "length (vga_buffer s) = 2000" and "vga_row s < 25"
  shows "vga_ok (if 80 \<le> c then vga_newline (s\<lparr>vga_column := c\<rparr>) else s\<lparr>vga_column := c\<rparr>)
    \<and> terminal_of (if 80 \<le> c then vga_newline (s\<lparr>vga_column := c\<rparr>) else s\<lparr>vga_column := c\<rparr>) =
      t_goto c (terminal_of s)"
  using assms vga_newline_refines [of "s\<lparr>vga_column := c\<rparr>"]
  by (auto simp: t_goto_def vga_ok_def terminal_of_def t_newline_def t_blank_def)

lemma vga_putchar_refines:
  assumes "vga_ok s"
  shows "vga_ok (snd (vga_putchar bus c s d))
    \<and> terminal_of (snd (vga_putchar bus c s d)) = t_put c (terminal_of s)"
proof -
  have ok: "length (vga_buffer s) = 2000" "vga_row s < 25" "vga_column s < 80"
    using assms by (auto simp: vga_ok_def)
  let ?s = "s\<lparr>vga_buffer := (vga_buffer s)[vga_row s * 80 + vga_column s := vga_entry c (vga_color s)]\<rparr>"
  have put: "terminal_of ?s = t_set (vga_entry c (t_color (terminal_of s))) (terminal_of s)"
    using lines_of_update [of "vga_buffer s" 25] ok by (simp add: terminal_of_def t_set_def)
  define tab where "tab = 4 * ((vga_column s + 4) div 4)"
  then have tab: "tab = 4 * (vga_column s div 4 + 1)" "tab = 4 * ((vga_column s + 4) div 4)"
    by presburger+
  have col: "t_col (terminal_of s) = vga_column s" by (simp add: terminal_of_def)
  have "c = 8 \<Longrightarrow> ?thesis" "c = 13 \<Longrightarrow> ?thesis"
    using ok by (auto simp: vga_putchar_def t_put_def t_back_def vga_ok_def terminal_of_def Let_def)
  moreover have "c = 10 \<Longrightarrow> ?thesis"
    using vga_newline_refines [OF ok(1,2)] by (simp add: vga_putchar_def t_put_def Let_def)
  moreover have "snd (vga_putchar bus 9 s d) = (if 80 \<le> tab then vga_newline (s\<lparr>vga_column := tab\<rparr>) else s\<lparr>vga_column := tab\<rparr>)"
    "t_put 9 (terminal_of s) = t_goto tab (terminal_of s)"
    by (simp add: vga_putchar_def Let_def tab(2)) (simp add: t_put_def col tab(1))
  then have "c = 9 \<Longrightarrow> ?thesis" using vga_advance_refines [OF ok(1,2), of tab] by presburger
  moreover have "c \<notin> {8, 9, 10, 13} \<Longrightarrow> ?thesis"
    using vga_advance_refines [of ?s "vga_column s + 1"] ok put col
    by (simp add: vga_putchar_def t_put_def Let_def split: if_splits)
  ultimately show ?thesis by blast
qed


lemma vga_puts_refines:
  assumes "vga_ok s" and "is_cstring cs"
  shows "vga_ok (snd (vga_puts bus cs s d)) \<and> terminal_of (snd (vga_puts bus cs s d)) = fold t_put cs (terminal_of s)"
  using assms
proof (induction cs arbitrary: s d)
  case (Cons c cs)
  obtain d1 s1 where p: "vga_putchar bus c s d = (d1, s1)" by force
  have "vga_ok s1" "terminal_of s1 = t_put c (terminal_of s)"
    using vga_putchar_refines [OF Cons.prems(1), of bus c d] p by simp_all
  then show ?case using Cons.IH [of s1 d1] Cons.prems(2) p by simp
qed simp

subsection \<open>The cursor registers\<close>

text \<open>
  The CRT controller: port 0x3D4 selects a register, port 0x3D5 writes the selected one; registers 14
  and 15 hold the position of the hardware cursor.
\<close>

definition crtc_ok :: "'d bus \<Rightarrow> ('d \<Rightarrow> u8) \<Rightarrow> ('d \<Rightarrow> u8 \<Rightarrow> u8) \<Rightarrow> bool" where
  "crtc_ok bus sel reg \<longleftrightarrow>
    (\<forall>v d. sel (outb bus 0x3D4 v d) = v \<and> reg (outb bus 0x3D4 v d) = reg d \<and>
           sel (outb bus 0x3D5 v d) = sel d \<and> reg (outb bus 0x3D5 v d) = (reg d)(sel d := v))"

lemma u16_halves: "256 * unat (ucast (drop_bit 8 w AND 0xFF) :: u8) + unat (ucast (w AND 0xFF) :: u8) = unat (w :: u16)"
proof -
  have "unat w < 65536" using unsigned_less [of w] by simp
  have m: "(0xFF :: u16) = mask 8" by (simp add: mask_eq_exp_minus_1)
  have "(ucast (w AND 0xFF) :: u8) = ucast w" "(ucast (drop_bit 8 w AND 0xFF) :: u8) = ucast (drop_bit 8 w)"
    unfolding m by (rule bit_word_eqI; auto simp: bit_simps)+
  moreover have "unat (ucast w :: u8) = unat w mod 256" by (simp add: unsigned_ucast_eq take_bit_eq_mod)
  moreover have "unat (ucast (drop_bit 8 w) :: u8) = unat w div 256"
    using \<open>unat w < 65536\<close> by (simp add: unsigned_ucast_eq take_bit_eq_mod unat_drop_bit_eq drop_bit_eq_div [of 8 "unat w"])
  ultimately show ?thesis by simp
qed

lemma vga_update_cursor_regs:
  assumes "crtc_ok bus sel reg" and "vga_ok s"
  shows "256 * unat (reg (vga_update_cursor bus s d) 14) + unat (reg (vga_update_cursor bus s d) 15) =
    vga_row s * 80 + vga_column s"
proof -
  let ?n = "vga_row s * 80 + vga_column s"
  let ?p = "of_nat ?n :: u16"
  have "?n < 2000" using assms(2) by (auto simp: vga_ok_def)
  then have "unat ?p = ?n" unfolding unat_of_nat by simp
  moreover have "reg (vga_update_cursor bus s d) 14 = ucast (drop_bit 8 ?p AND 0xFF)"
    "reg (vga_update_cursor bus s d) 15 = ucast (?p AND 0xFF)"
    using assms(1) by (simp_all add: crtc_ok_def vga_update_cursor_def Let_def)
  ultimately show ?thesis using u16_halves [of ?p] by simp
qed

text \<open>
  C26: \<open>vga_putchar\<close> implements the console: it keeps the cursor on the screen, changes the 80 x 25
  cells and the cursor as the abstract console does for every character, scrolling one line when
  the last line is full, and leaves the hardware cursor at the new position.
\<close>

theorem vga_console:
  assumes "vga_ok s" and "crtc_ok bus sel reg" and "vga_putchar bus c s d = (d', s')"
  shows "vga_ok s' \<and> terminal_of s' = t_put c (terminal_of s)
    \<and> 256 * unat (reg d' 14) + unat (reg d' 15) = vga_row s' * 80 + vga_column s'"
proof -
  have ok: "vga_ok s'" and t: "terminal_of s' = t_put c (terminal_of s)"
    using vga_putchar_refines [OF assms(1), of bus c d] assms(3) by simp_all
  have "d' = vga_update_cursor bus s' d" using assms(3) by (auto simp: vga_putchar_def Let_def)
  then show ?thesis using ok t vga_update_cursor_regs [OF assms(2) ok] by simp
qed


subsection \<open>Printed text\<close>

definition vga_pos :: "vga \<Rightarrow> nat" where
  "vga_pos s = vga_row s * 80 + vga_column s"

definition printable :: "u8 \<Rightarrow> bool" where
  "printable c \<longleftrightarrow> c \<noteq> 0 \<and> c \<noteq> 8 \<and> c \<noteq> 9 \<and> c \<noteq> 10 \<and> c \<noteq> 13"

lemma vga_putchar_printable:
  assumes "vga_ok s" and "printable c" and "vga_pos s + 1 < 2000"
  shows "vga_ok (snd (vga_putchar bus c s d)) \<and> vga_pos (snd (vga_putchar bus c s d)) = vga_pos s + 1
    \<and> vga_color (snd (vga_putchar bus c s d)) = vga_color s
    \<and> vga_buffer (snd (vga_putchar bus c s d)) = (vga_buffer s)[vga_pos s := vga_entry c (vga_color s)]"
  using assms
  by (auto simp: vga_putchar_def vga_ok_def printable_def vga_pos_def vga_newline_def Let_def)

lemma vga_puts_printable:
  assumes "vga_ok s" and "list_all printable cs" and "vga_pos s + length cs < 2000"
  shows "vga_ok (snd (vga_puts bus cs s d)) \<and> vga_pos (snd (vga_puts bus cs s d)) = vga_pos s + length cs
    \<and> vga_color (snd (vga_puts bus cs s d)) = vga_color s
    \<and> vga_buffer (snd (vga_puts bus cs s d)) =
      take (vga_pos s) (vga_buffer s) @ map (\<lambda>c. vga_entry c (vga_color s)) cs @
      drop (vga_pos s + length cs) (vga_buffer s)"
  using assms
proof (induction cs arbitrary: s d)
  case (Cons c cs)
  obtain d1 s1 where p: "vga_putchar bus c s d = (d1, s1)" by force
  have l: "length (vga_buffer s) = 2000" using Cons.prems(1) by (simp add: vga_ok_def)
  have s1: "vga_ok s1" "vga_pos s1 = vga_pos s + 1" "vga_color s1 = vga_color s"
    "vga_buffer s1 = (vga_buffer s)[vga_pos s := vga_entry c (vga_color s)]"
    using vga_putchar_printable [OF Cons.prems(1), of c bus d] Cons.prems p by simp_all
  have "take (vga_pos s + 1) (vga_buffer s1) = take (vga_pos s) (vga_buffer s) @ [vga_entry c (vga_color s)]"
    using Cons.prems(3) l by (simp add: s1(4) take_Suc_conv_app_nth)
  moreover have "c \<noteq> 0" using Cons.prems(2) by (simp add: printable_def)
  ultimately show ?case using Cons.IH [of s1 d1] Cons.prems s1 p by (simp add: drop_update_cancel)
qed (auto simp: vga_ok_def)

lemma vga_init_blank:
  assumes "length (vga_buffer s) = 2000" and "vga_init bus s d = (d0, s0)"
  shows "vga_ok s0 \<and> vga_pos s0 = 0 \<and> vga_color s0 = 7 \<and> vga_buffer s0 = replicate 2000 (vga_entry (ord_c CHR '' '') 7)"
proof -
  let ?s = "s\<lparr>vga_row := 0, vga_column := 0, vga_color := vga_entry_color VGA_COLOR_LIGHT_GREY VGA_COLOR_BLACK\<rparr>"
  have s0: "s0 = snd (vga_clear bus ?s d)" using assms(2) by (simp add: vga_init_def)
  have "vga_buffer s0 = replicate 2000 (vga_entry (ord_c CHR '' '') 7)"
    using vga_clear_buffer [of ?s bus d] assms(1) by (simp add: s0 vga_entry_color_def)
  then show ?thesis
    by (simp add: s0 vga_ok_def vga_pos_def) (simp add: vga_clear_def vga_entry_color_def Let_def)
qed

text \<open>
  C29: what the kernel prints is what the screen shows: after \<open>vga_init\<close>, fewer than 2000 printable
  characters appear from the top left corner on, in light grey on black, and every cell behind
  them is blank.
\<close>

theorem vga_shows_text:
  assumes "length (vga_buffer s) = 2000" and "vga_init bus s d = (d0, s0)"
    and "list_all printable cs" and "length cs < 2000"
  shows "vga_buffer (snd (vga_puts bus cs s0 d0)) =
    map (\<lambda>c. vga_entry c 0x07) (cs @ replicate (2000 - length cs) (ord_c CHR '' ''))"
proof -
  note i = vga_init_blank [OF assms(1,2)]
  show ?thesis using vga_puts_printable [of s0 cs bus d0] i assms(3,4) by (simp add: drop_replicate)
qed

subsection \<open>Hexadecimal numbers\<close>

definition hex_of :: "u32 \<Rightarrow> cstring" where
  "hex_of n = map (\<lambda>i. hex_digits ! unat (drop_bit i n AND 0xF)) [28, 24, 20, 16, 12, 8, 4, 0]"

fun hex_value :: "nat \<Rightarrow> cstring \<Rightarrow> nat" where
  "hex_value a [] = a"
| "hex_value a (c # cs) = hex_value (16 * a + (if c \<le> 57 then unat c - 48 else unat c - 55)) cs"

lemma hex_digits_list: "hex_digits = [48, 49, 50, 51, 52, 53, 54, 55, 56, 57, 65, 66, 67, 68, 69, 70]"
  by (simp add: hex_digits_def str_def ord_c_def of_char_def)

lemma hex_digit:
  assumes "k < 16"
  shows "printable (hex_digits ! k)"
    "(if hex_digits ! k \<le> 57 then unat (hex_digits ! k) - 48 else unat (hex_digits ! k) - 55) = k"
proof -
  have "k = 0 \<or> k = 1 \<or> k = 2 \<or> k = 3 \<or> k = 4 \<or> k = 5 \<or> k = 6 \<or> k = 7 \<or> k = 8 \<or> k = 9 \<or> k = 10 \<or> k = 11
      \<or> k = 12 \<or> k = 13 \<or> k = 14 \<or> k = 15" using assms by presburger
  then show "printable (hex_digits ! k)"
    "(if hex_digits ! k \<le> 57 then unat (hex_digits ! k) - 48 else unat (hex_digits ! k) - 55) = k"
    by (auto simp: hex_digits_list printable_def)
qed

lemma unat_nibble: "unat (drop_bit i (n :: u32) AND 0xF) = unat n div 2 ^ i mod 16"
proof -
  have m: "(0xF :: u32) = mask 4" by (simp add: mask_eq_exp_minus_1)
  have "unat (drop_bit i n AND 0xF) = take_bit 4 (unat (drop_bit i n))"
    unfolding m take_bit_eq_mask [symmetric] by (rule unsigned_take_bit_eq)
  then show ?thesis by (simp add: unat_drop_bit_eq drop_bit_eq_div [of i "unat n"] take_bit_eq_mod)
qed

lemma hex_of_value: "hex_value 0 (hex_of n) = unat n"
proof -
  have k: "(if hex_digits ! (k mod 16) \<le> 57 then unat (hex_digits ! (k mod 16)) - 48 else unat (hex_digits ! (k mod 16)) - 55) = k mod 16" for k
    by (rule hex_digit) simp
  have d: "16 * (m div (b * 16)) + m div b mod 16 = m div b" for m b :: nat
    by (simp add: div_mult2_eq)
  note ds = d [of "unat n" "2 ^ 24"] d [of "unat n" "2 ^ 20"] d [of "unat n" "2 ^ 16"] d [of "unat n" "2 ^ 12"]
    d [of "unat n" "2 ^ 8"] d [of "unat n" "2 ^ 4"] d [of "unat n" "2 ^ 0"]
  have "unat n div 2 ^ 28 mod 16 = unat n div 2 ^ 28"
    using less_mult_imp_div_less [of "unat n" 16 "2 ^ 28"] unat_u32_less [of n]
    by (intro mod_less) (simp del: unat_u32_less)
  then show ?thesis using ds unfolding hex_of_def list.map hex_value.simps unat_nibble k by simp
qed

lemma hex_of_printable: "list_all printable (hex_of n)"
  by (simp add: hex_of_def hex_digit(1) unat_nibble)

lemma vga_puthex_puts: "vga_puthex bus n s d = vga_puts bus (str ''0x'' @ hex_of n) s d"
proof -
  have f: "fold (\<lambda>i (d, s). vga_putchar bus (f i) s d) is (d, s) = vga_puts bus (map f is) s d"
    if "list_all printable (map f is)" for f and "is" :: "nat list" and d s
    using that
  proof (induction "is" arbitrary: d s)
    case (Cons i "is")
    then show ?case by (cases "vga_putchar bus (f i) s d") (simp add: printable_def)
  qed simp
  have a: "vga_puts bus (xs @ ys) s d = (let (d, s) = vga_puts bus xs s d in vga_puts bus ys s d)"
    if "is_cstring xs" for xs ys d s
    using that by (induction xs arbitrary: d s) (auto simp: Let_def case_prod_beta)
  have "is_cstring (str ''0x'')" by (simp add: str_def ord_c_def of_char_def)
  moreover have "fold (\<lambda>i (d, s). vga_putchar bus (hex_digits ! unat (drop_bit i n AND 0xF)) s d)
      [28, 24, 20, 16, 12, 8, 4, 0] (d, s) = vga_puts bus (hex_of n) s d" for d s
    using f [OF hex_of_printable [of n, unfolded hex_of_def]] unfolding hex_of_def .
  ultimately show ?thesis by (simp only: vga_puthex_def a)
qed

text \<open>
  \<open>vga_puthex\<close> shows the number: where ten cells are left it writes \<open>0x\<close> and eight hexadecimal
  digits whose value is the number, and nothing else on the screen changes.
\<close>

theorem vga_puthex_shows:
  assumes "vga_ok s" and "vga_pos s + 10 < 2000"
  shows "\<exists>ds. length ds = 8 \<and> set ds \<subseteq> set hex_digits \<and> hex_value 0 ds = unat n
    \<and> vga_buffer (snd (vga_puthex bus n s d)) =
      take (vga_pos s) (vga_buffer s) @ map (\<lambda>c. vga_entry c (vga_color s)) (str ''0x'' @ ds) @
      drop (vga_pos s + 10) (vga_buffer s)"
proof (intro exI conjI)
  have l: "length hex_digits = 16" "length (str ''0x'') = 2" "length (hex_of n) = 8"
    by (simp_all add: hex_digits_list hex_of_def str_def)
  show "length (hex_of n) = 8" by (rule l(3))
  show "set (hex_of n) \<subseteq> set hex_digits"
    unfolding hex_of_def unat_nibble by (auto intro!: nth_mem simp: l(1))
  show "hex_value 0 (hex_of n) = unat n" by (rule hex_of_value)
  have "list_all printable (str ''0x'' @ hex_of n)"
    using hex_of_printable by (simp add: str_def ord_c_def of_char_def printable_def)
  then show "vga_buffer (snd (vga_puthex bus n s d)) =
      take (vga_pos s) (vga_buffer s) @ map (\<lambda>c. vga_entry c (vga_color s)) (str ''0x'' @ hex_of n) @
      drop (vga_pos s + 10) (vga_buffer s)"
    using vga_puts_printable [OF assms(1), of "str ''0x'' @ hex_of n" bus d] assms(2) l(2,3)
    by (simp add: vga_puthex_puts)
qed


subsection \<open>Witnesses\<close>

definition crtc_bus :: "(u8 \<times> (u8 \<Rightarrow> u8)) bus" where
  "crtc_bus = \<lparr>bus_in = (\<lambda>p d. (0, d)),
    bus_out = (\<lambda>p v (sel, reg). if p = 0x3D4 then (v, reg) else if p = 0x3D5 then (sel, reg(sel := v)) else (sel, reg)),
    bus_inw = (\<lambda>p d. (0, d)), bus_outw = (\<lambda>p w d. d)\<rparr>"

lemma crtc_bus_ok: "crtc_ok crtc_bus fst snd"
  by (auto simp: crtc_ok_def crtc_bus_def outb_def)

definition demo_vga :: vga where
  "demo_vga = \<lparr>vga_buffer = replicate 2000 0, vga_row = 24, vga_column = 79, vga_color = 7\<rparr>"

lemma demo_vga_ok: "vga_ok demo_vga"
  by (simp add: demo_vga_def vga_ok_def)

theorem vga_console_witness:
  "case vga_putchar crtc_bus 65 demo_vga (0, \<lambda>_. 0) of (d', s') \<Rightarrow>
     vga_row s' = 24 \<and> vga_column s' = 0 \<and> t_lines (terminal_of s') ! 23 ! 79 = vga_entry 65 7
     \<and> 256 * unat (snd d' 14) + unat (snd d' 15) = 1920"
proof -
  obtain d' s' where p: "vga_putchar crtc_bus 65 demo_vga (0, \<lambda>_. 0) = (d', s')" by (meson surj_pair)
  have t: "terminal_of s' = t_put 65 (terminal_of demo_vga)"
    and c: "256 * unat (snd d' 14) + unat (snd d' 15) = vga_row s' * 80 + vga_column s'"
    using vga_console [OF demo_vga_ok crtc_bus_ok p] by blast+
  have l: "length (lines_of 25 b) = 25" "length b = 2000 \<Longrightarrow> length (lines_of 25 b ! 24) = 80" for b
    by (simp_all add: lines_of_def)
  have "terminal_of s' = t_newline (t_set (vga_entry 65 7) (terminal_of demo_vga))"
    unfolding t by (simp add: t_put_def t_goto_def t_set_def t_newline_def terminal_of_def demo_vga_def)
  then have "t_row (terminal_of s') = 24" "t_col (terminal_of s') = 0"
    "t_lines (terminal_of s') ! 23 = (lines_of 25 (vga_buffer demo_vga) ! 24)[79 := vga_entry 65 7]"
    "length (t_lines (terminal_of s')) = 25"
    using l by (simp_all add: t_newline_def t_set_def terminal_of_def demo_vga_def nth_append nth_tl)
  moreover have "length (lines_of 25 (vga_buffer demo_vga) ! 24) = 80" by (rule l(2)) (simp add: demo_vga_def)
  ultimately show ?thesis using c p by (simp add: terminal_of_def)
qed

theorem vga_shows_text_witness:
  "take 2 (vga_buffer (snd (vga_puts log_bus (str ''OK'') (snd (vga_init log_bus demo_vga \<lparr>writes = [], inputs = []\<rparr>))
      (fst (vga_init log_bus demo_vga \<lparr>writes = [], inputs = []\<rparr>))))) = [vga_entry 79 7, vga_entry 75 7]"
proof -
  have "length (vga_buffer demo_vga) = 2000" by (simp add: demo_vga_def)
  moreover have "list_all printable (str ''OK'')" "length (str ''OK'') < 2000" "str ''OK'' = [79, 75]"
    by (simp_all add: str_def ord_c_def of_char_def printable_def)
  moreover note vga_shows_text [OF calculation(1) prod.collapse [symmetric] calculation(2,3),
      of log_bus "\<lparr>writes = [], inputs = []\<rparr>"]
  ultimately show ?thesis by (simp del: vga_puts.simps)
qed

theorem vga_puthex_shows_witness:
  "\<exists>ds. length ds = 8 \<and> hex_value 0 ds = 0xBEEF \<and> take 10 (vga_buffer (snd (vga_puthex log_bus 0xBEEF
      (demo_vga\<lparr>vga_row := 0, vga_column := 0\<rparr>) \<lparr>writes = [], inputs = []\<rparr>))) =
      map (\<lambda>c. vga_entry c 7) (str ''0x'' @ ds)"
proof -
  let ?s = "demo_vga\<lparr>vga_row := 0, vga_column := 0\<rparr>"
  have "vga_ok ?s" "vga_pos ?s = 0" "vga_color ?s = 7" "length (str ''0x'') = 2"
    by (simp_all add: demo_vga_def vga_ok_def vga_pos_def str_def)
  then show ?thesis
    using vga_puthex_shows [of ?s "0xBEEF" log_bus "\<lparr>writes = [], inputs = []\<rparr>"] by auto
qed

end
