(* ===== verification/Serial.thy ===== *)
theory Serial
  imports Bus
begin

text \<open>
  The serial port driver (kernel/serial.c). The UART is behind the port bus. Its polling loops are
  partial functions: they end under the documented behaviour of the chip, \<open>uart_tx\<close> for the
  transmitter and \<open>uart_rx\<close> for the receiver, and nothing is assumed of it otherwise.
\<close>

subsection \<open>Operations\<close>

abbreviation (input) SERIAL_COM1 :: u16 where "SERIAL_COM1 \<equiv> 0x3F8"
abbreviation (input) SERIAL_DATA :: u16 where "SERIAL_DATA \<equiv> 0"
abbreviation (input) SERIAL_INT_ENABLE :: u16 where "SERIAL_INT_ENABLE \<equiv> 1"
abbreviation (input) SERIAL_FIFO_CTRL :: u16 where "SERIAL_FIFO_CTRL \<equiv> 2"
abbreviation (input) SERIAL_LINE_CTRL :: u16 where "SERIAL_LINE_CTRL \<equiv> 3"
abbreviation (input) SERIAL_MODEM_CTRL :: u16 where "SERIAL_MODEM_CTRL \<equiv> 4"
abbreviation (input) SERIAL_LINE_STATUS :: u16 where "SERIAL_LINE_STATUS \<equiv> 5"

definition serial_init :: "'d bus \<Rightarrow> u16 \<Rightarrow> 'd \<Rightarrow> int \<times> 'd" where
  "serial_init bus port d =
    (let d = outb bus (port + SERIAL_INT_ENABLE) 0x00 d;
         d = outb bus (port + SERIAL_LINE_CTRL) 0x80 d;
         d = outb bus (port + SERIAL_DATA) 0x03 d;
         d = outb bus (port + SERIAL_INT_ENABLE) 0x00 d;
         d = outb bus (port + SERIAL_LINE_CTRL) 0x03 d;
         d = outb bus (port + SERIAL_FIFO_CTRL) 0xC7 d;
         d = outb bus (port + SERIAL_MODEM_CTRL) 0x0B d;
         d = outb bus (port + SERIAL_MODEM_CTRL) 0x1E d;
         d = outb bus (port + SERIAL_DATA) 0xAE d;
         (v, d) = inb bus (port + SERIAL_DATA) d
     in if v \<noteq> 0xAE then (1, d)
        else (0, outb bus (port + SERIAL_MODEM_CTRL) 0x0F d))"

definition serial_is_transmit_empty :: "'d bus \<Rightarrow> u16 \<Rightarrow> 'd \<Rightarrow> u8 \<times> 'd" where
  "serial_is_transmit_empty bus port d =
    (let (v, d) = inb bus (port + SERIAL_LINE_STATUS) d in (v AND 0x20, d))"

partial_function (option) serial_tx_wait :: "'d bus \<Rightarrow> u16 \<Rightarrow> 'd \<Rightarrow> 'd option" where
  "serial_tx_wait bus port d =
    (let (v, d) = serial_is_transmit_empty bus port d
     in if v = 0 then serial_tx_wait bus port d else Some d)"

definition serial_putchar :: "'d bus \<Rightarrow> u16 \<Rightarrow> u8 \<Rightarrow> 'd \<Rightarrow> 'd option" where
  "serial_putchar bus port c d =
    do { d \<leftarrow> serial_tx_wait bus port d; Some (outb bus (port + SERIAL_DATA) c d) }"

fun serial_puts :: "'d bus \<Rightarrow> u16 \<Rightarrow> cstring \<Rightarrow> 'd \<Rightarrow> 'd option" where
  "serial_puts bus port [] d = Some d"
| "serial_puts bus port (c # s) d =
     (if c = 0 then Some d
      else do {
        d \<leftarrow> (if c = 10 then serial_putchar bus port 13 d else Some d);
        d \<leftarrow> serial_putchar bus port c d;
        serial_puts bus port s d })"

definition serial_received :: "'d bus \<Rightarrow> u16 \<Rightarrow> 'd \<Rightarrow> u8 \<times> 'd" where
  "serial_received bus port d =
    (let (v, d) = inb bus (port + SERIAL_LINE_STATUS) d in (v AND 1, d))"

partial_function (option) serial_rx_wait :: "'d bus \<Rightarrow> u16 \<Rightarrow> 'd \<Rightarrow> 'd option" where
  "serial_rx_wait bus port d =
    (let (v, d) = serial_received bus port d
     in if v = 0 then serial_rx_wait bus port d else Some d)"

definition serial_getchar :: "'d bus \<Rightarrow> u16 \<Rightarrow> 'd \<Rightarrow> (u8 \<times> 'd) option" where
  "serial_getchar bus port d =
    do { d \<leftarrow> serial_rx_wait bus port d; Some (inb bus (port + SERIAL_DATA) d) }"

subsection \<open>The chip\<close>

text \<open>
  The transmitter: bit 5 of the line status says whether it can take a character, after at most
  \<open>busy d\<close> polls it can, and \<open>sent d\<close> is what it was given.
\<close>

definition uart_tx :: "'d bus \<Rightarrow> u16 \<Rightarrow> ('d \<Rightarrow> nat) \<Rightarrow> ('d \<Rightarrow> u8 list) \<Rightarrow> bool" where
  "uart_tx bus port busy sent \<longleftrightarrow>
    (\<forall>d. case inb bus (port + SERIAL_LINE_STATUS) d of (v, d') \<Rightarrow>
       (v AND 0x20 = 0 \<longleftrightarrow> 0 < busy d) \<and> busy d' \<le> busy d - 1 \<and> sent d' = sent d) \<and>
    (\<forall>d c. busy d = 0 \<longrightarrow> sent (outb bus (port + SERIAL_DATA) c d) = sent d @ [c])"

text \<open>
  The receiver: bit 0 of the line status says whether a character is there, after at most \<open>silent d\<close>
  polls one is, and \<open>arriving d\<close> is the next one.
\<close>

definition uart_rx :: "'d bus \<Rightarrow> u16 \<Rightarrow> ('d \<Rightarrow> nat) \<Rightarrow> ('d \<Rightarrow> u8) \<Rightarrow> bool" where
  "uart_rx bus port silent arriving \<longleftrightarrow>
    (\<forall>d. case inb bus (port + SERIAL_LINE_STATUS) d of (v, d') \<Rightarrow>
       (v AND 1 = 0 \<longleftrightarrow> 0 < silent d) \<and> silent d' \<le> silent d - 1 \<and> arriving d' = arriving d) \<and>
    (\<forall>d. silent d = 0 \<longrightarrow> fst (inb bus (port + SERIAL_DATA) d) = arriving d)"

lemma serial_tx_wait_returns:
  assumes "uart_tx bus port busy sent"
  shows "\<exists>d'. serial_tx_wait bus port d = Some d' \<and> busy d' = 0 \<and> sent d' = sent d"
proof (induction "busy d" arbitrary: d rule: less_induct)
  case less
  obtain v d1 where i: "inb bus (port + SERIAL_LINE_STATUS) d = (v, d1)" by force
  have "case inb bus (port + SERIAL_LINE_STATUS) d of (v, d1) \<Rightarrow> (v AND 0x20 = 0 \<longleftrightarrow> 0 < busy d) \<and> busy d1 \<le> busy d - 1 \<and> sent d1 = sent d"
    using assms unfolding uart_tx_def by (elim conjE) (erule spec)
  then have "(v AND 0x20 = 0 \<longleftrightarrow> 0 < busy d) \<and> busy d1 \<le> busy d - 1 \<and> sent d1 = sent d" unfolding i case_prod_conv .
  then have law: "v AND 0x20 = 0 \<longleftrightarrow> 0 < busy d" "busy d1 \<le> busy d - 1" "sent d1 = sent d" by simp_all
  show ?case
  proof (cases "busy d = 0")
    case True
    then have "serial_tx_wait bus port d = Some d1"
      using i law(1) by (subst serial_tx_wait.simps) (simp add: serial_is_transmit_empty_def)
    then show ?thesis using True law by simp
  next
    case False
    then have "serial_tx_wait bus port d = serial_tx_wait bus port d1"
      using i law(1) by (subst serial_tx_wait.simps) (simp add: serial_is_transmit_empty_def)
    then show ?thesis using less [of d1] False law by auto
  qed
qed

lemma serial_putchar_sends:
  assumes "uart_tx bus port busy sent"
  shows "\<exists>d'. serial_putchar bus port c d = Some d' \<and> sent d' = sent d @ [c]"
  using serial_tx_wait_returns [OF assms, of d] assms
  by (auto simp: serial_putchar_def uart_tx_def)

lemma serial_rx_wait_returns:
  assumes "uart_rx bus port silent arriving"
  shows "\<exists>d'. serial_rx_wait bus port d = Some d' \<and> silent d' = 0 \<and> arriving d' = arriving d"
proof (induction "silent d" arbitrary: d rule: less_induct)
  case less
  obtain v d1 where i: "inb bus (port + SERIAL_LINE_STATUS) d = (v, d1)" by force
  have "case inb bus (port + SERIAL_LINE_STATUS) d of (v, d1) \<Rightarrow> (v AND 1 = 0 \<longleftrightarrow> 0 < silent d) \<and> silent d1 \<le> silent d - 1 \<and> arriving d1 = arriving d"
    using assms unfolding uart_rx_def by (elim conjE) (erule spec)
  then have "(v AND 1 = 0 \<longleftrightarrow> 0 < silent d) \<and> silent d1 \<le> silent d - 1 \<and> arriving d1 = arriving d" unfolding i case_prod_conv .
  then have law: "v AND 1 = 0 \<longleftrightarrow> 0 < silent d" "silent d1 \<le> silent d - 1" "arriving d1 = arriving d" by simp_all
  show ?case
  proof (cases "silent d = 0")
    case True
    then have "serial_rx_wait bus port d = Some d1"
      using i law(1) by (subst serial_rx_wait.simps) (simp add: serial_received_def)
    then show ?thesis using True law by simp
  next
    case False
    then have "serial_rx_wait bus port d = serial_rx_wait bus port d1"
      using i law(1) by (subst serial_rx_wait.simps) (simp add: serial_received_def)
    then show ?thesis using less [of d1] False law by auto
  qed
qed

subsection \<open>Properties\<close>

fun crlf :: "cstring \<Rightarrow> cstring" where
  "crlf [] = []"
| "crlf (c # s) = (if c = 10 then [13, 10] else [c]) @ crlf s"

lemma serial_puts_spec:
  assumes "uart_tx bus port busy sent" and "is_cstring s"
  shows "\<exists>d'. serial_puts bus port s d = Some d' \<and> sent d' = sent d @ crlf s"
  using assms(2)
proof (induction s arbitrary: d)
  case (Cons c s)
  obtain d1 where d1: "(if c = 10 then serial_putchar bus port 13 d else Some d) = Some d1"
    "sent d1 = sent d @ (if c = 10 then [13] else [])"
    using serial_putchar_sends [OF assms(1), of 13 d] by (cases "c = 10") auto
  obtain d2 where d2: "serial_putchar bus port c d1 = Some d2" "sent d2 = sent d1 @ [c]"
    using serial_putchar_sends [OF assms(1), of c d1] by auto
  show ?case using Cons.IH [of d2] Cons.prems d1 d2 by auto
qed simp

text \<open>
  the serial console terminates and loses nothing: \<open>serial_puts\<close> returns and the chip has been
  given every character in order, with a carriage return in front of each line feed.
\<close>

theorem serial_puts_sends:
  assumes "uart_tx bus port busy sent" and "is_cstring s"
  shows "\<exists>d'. serial_puts bus port s d = Some d' \<and> sent d' = sent d @ crlf s"
  using assms by (rule serial_puts_spec)

text \<open>
  \<open>serial_getchar\<close> waits for a character and returns the one that arrives.
\<close>

theorem serial_getchar_receives:
  assumes "uart_rx bus port silent arriving"
  shows "\<exists>d'. serial_getchar bus port d = Some (arriving d, d')"
proof -
  obtain d1 where d1: "serial_rx_wait bus port d = Some d1" "silent d1 = 0" "arriving d1 = arriving d"
    using serial_rx_wait_returns [OF assms] by blast
  obtain c d2 where i: "inb bus (port + SERIAL_DATA) d1 = (c, d2)" by force
  have "\<forall>d. silent d = 0 \<longrightarrow> fst (inb bus (port + SERIAL_DATA) d) = arriving d"
    using assms unfolding uart_rx_def by blast
  then have "c = arriving d" using i d1 by (metis fst_conv)
  then show ?thesis using d1(1) i by (simp add: serial_getchar_def)
qed

text \<open>
  \<open>serial_init\<close> programs 38400 baud, 8 data bits, no parity, one stop bit, sends the test byte
  in loopback mode, reports a faulty chip exactly when another byte comes back, and leaves loopback
  mode only when the test has passed.
\<close>

theorem serial_init_tests_chip:
  assumes "d1 = outs bus [(port + 1, 0), (port + 3, 0x80), (port, 3), (port + 1, 0), (port + 3, 3),
      (port + 2, 0xC7), (port + 4, 0x0B), (port + 4, 0x1E), (port, 0xAE)] d"
    and "inb bus port d1 = (v, d2)"
  shows "serial_init bus port d =
    (if v = 0xAE then (0, outb bus (port + 4) 0x0F d2) else (1, d2))"
  using assms(2) by (simp add: assms(1) serial_init_def Let_def)

subsection \<open>Witnesses\<close>

text \<open>A chip that is busy for a number of polls after each character and then takes the next one.\<close>

definition demo_uart :: "(nat \<times> u8 list \<times> u8) bus" where
  "demo_uart = \<lparr>
    bus_in = (\<lambda>p (n, out, inp). if p = 0x3FD then (if n = 0 then 0x21 else 0, (n - 1, out, inp)) else (inp, (n, out, inp))),
    bus_out = (\<lambda>p c (n, out, inp). if p = 0x3F8 \<and> n = 0 then (2, out @ [c], inp) else (n, out, inp)),
    bus_inw = (\<lambda>p d. (0, d)), bus_outw = (\<lambda>p w d. d)\<rparr>"

lemma demo_uart_tx: "uart_tx demo_uart SERIAL_COM1 fst (\<lambda>d. fst (snd d))"
  by (auto simp: uart_tx_def demo_uart_def inb_def outb_def)

lemma demo_uart_rx: "uart_rx demo_uart SERIAL_COM1 fst (\<lambda>d. snd (snd d))"
  by (auto simp: uart_rx_def demo_uart_def inb_def)

theorem serial_puts_sends_witness:
  "\<exists>n i. serial_puts demo_uart SERIAL_COM1 [79, 75, 10] (5, [], 0) = Some (n, [79, 75, 13, 10], i)"
  using serial_puts_sends [OF demo_uart_tx, of "[79, 75, 10]" "(5, [], 0)"]
  by (auto simp del: serial_puts.simps)

theorem serial_getchar_receives_witness:
  "\<exists>d'. serial_getchar demo_uart SERIAL_COM1 (7, [], 65) = Some (65, d')"
  using serial_getchar_receives [OF demo_uart_rx, of "(7, [], 65)"] by simp

theorem serial_init_tests_chip_witness:
  "fst (serial_init log_bus SERIAL_COM1 \<lparr>writes = [], inputs = [0xAE]\<rparr>) = 0
    \<and> fst (serial_init log_bus SERIAL_COM1 \<lparr>writes = [], inputs = [0xFF]\<rparr>) = 1"
  using serial_init_tests_chip [OF refl, of log_bus SERIAL_COM1 "\<lparr>writes = [], inputs = [0xAE]\<rparr>"]
    serial_init_tests_chip [OF refl, of log_bus SERIAL_COM1 "\<lparr>writes = [], inputs = [0xFF]\<rparr>"]
  by simp

end
