(* ===== verification/Args.thy ===== *)
theory Args
  imports C_Prelude
begin

text \<open>
  Command lines (kernel/args.c): splitting a line into the program name and its arguments.
\<close>

subsection \<open>State and operations\<close>

abbreviation (input) MAX_ARGS :: nat where "MAX_ARGS \<equiv> 16"
abbreviation (input) MAX_ARG_LEN :: nat where "MAX_ARG_LEN \<equiv> 64"

record program_args =
  args :: "u8 list list" \<comment> \<open>char args[MAX_ARGS][MAX_ARG_LEN]\<close>
  count :: nat

definition clear_args :: "program_args \<Rightarrow> program_args" where
  "clear_args a = fold (\<lambda>j a. a\<lparr>args := (args a)[j := (args a ! j)[0 := 0]]\<rparr>) [0 ..< MAX_ARGS] (a\<lparr>count := 0\<rparr>)"

fun skip_spaces :: "cstring \<Rightarrow> cstring" where
  "skip_spaces [] = []"
| "skip_spaces (c # s) = (if c = 32 then skip_spaces s else c # s)"

text \<open>
  \<open>while (cmdline[i] && cmdline[i] != ' ' && idx < MAX_ARG_LEN - 1) buf[idx++] = cmdline[i++];
  buf[idx] = 0;\<close> with the buffer, the index and the rest of the line as the state.
\<close>

fun copy_word :: "u8 list \<Rightarrow> nat \<Rightarrow> cstring \<Rightarrow> u8 list \<times> nat \<times> cstring" where
  "copy_word b idx [] = (b[idx := 0], idx, [])"
| "copy_word b idx (c # s) =
     (if c \<noteq> 0 \<and> c \<noteq> 32 \<and> idx < MAX_ARG_LEN - 1 then copy_word (b[idx := c]) (idx + 1) s
      else (b[idx := 0], idx, c # s))"

lemma copy_word_length:
  "length (snd (snd (copy_word b idx s))) \<le> length s"
  "idx < 63 \<Longrightarrow> deref s \<noteq> 0 \<Longrightarrow> deref s \<noteq> 32 \<Longrightarrow> length (snd (snd (copy_word b idx s))) < length s"
proof -
  show le: "length (snd (snd (copy_word b idx s))) \<le> length s" for b idx s
    by (induction b idx s rule: copy_word.induct) auto
  show "idx < 63 \<Longrightarrow> deref s \<noteq> 0 \<Longrightarrow> deref s \<noteq> 32 \<Longrightarrow> length (snd (snd (copy_word b idx s))) < length s"
    using le by (cases s) (auto intro: le_less_trans)
qed

lemma skip_spaces_length: "length (skip_spaces s) \<le> length s"
  by (induction s) auto

lemma deref_skip_spaces: "deref (skip_spaces s) \<noteq> 32"
  by (induction s) auto

lemma word_progress:
  assumes "(b', i, s') = copy_word b 0 (skip_spaces s)" and "deref (skip_spaces s) \<noteq> 0"
  shows "length s' < length s"
  using copy_word_length(2) [of 0 "skip_spaces s" b] assms(2) deref_skip_spaces [of s] skip_spaces_length [of s]
  by (simp add: assms(1) [symmetric])

function parse_args :: "cstring \<Rightarrow> program_args \<Rightarrow> program_args" where
  "parse_args s a =
    (if deref s \<noteq> 0 \<and> count a < MAX_ARGS then
       let s = skip_spaces s
       in if deref s = 0 then a
          else let (b, arg_idx, s) = copy_word (args a ! count a) 0 s;
                   a = a\<lparr>args := (args a)[count a := b]\<rparr>
               in parse_args s (if arg_idx > 0 then a\<lparr>count := count a + 1\<rparr> else a)
     else a)"
  by auto
termination
  by (relation "measure (\<lambda>(s, a). length s)") (auto intro: word_progress)

declare parse_args.simps [simp del]

definition parse_command_line :: "cstring \<Rightarrow> u8 list \<Rightarrow> program_args \<Rightarrow> u8 list \<times> program_args" where
  "parse_command_line cmdline program a =
    (let a = clear_args a;
         s = skip_spaces cmdline;
         (program, prog_idx, s) = copy_word program 0 s
     in (program, parse_args s a))"

subsection \<open>Specification\<close>

text \<open>
  \<open>pieces s\<close> are the words of the line, a word of more than 63 characters cut into pieces of at most
  63; \<open>cstr b\<close> is the string in a buffer.
\<close>

function pieces :: "cstring \<Rightarrow> cstring list" where
  "pieces s =
    (let s = dropWhile (\<lambda>c. c = 32) s
     in if s = [] then []
        else let w = take 63 (takeWhile (\<lambda>c. c \<noteq> 32) s) in w # pieces (drop (length w) s))"
  by auto
termination
proof (relation "measure length")
  fix s t :: cstring and w
  assume t: "t = dropWhile (\<lambda>c. c = 32) s" "t \<noteq> []" and w: "w = take 63 (takeWhile (\<lambda>c. c \<noteq> 32) t)"
  have "hd t \<noteq> 32" using hd_dropWhile [of "\<lambda>c. c = 32" s] t by blast
  with t(2) obtain c t' where c: "t = c # t'" "c \<noteq> 32" by (cases t) auto
  then have "0 < length w" by (simp add: w)
  moreover have "length t \<le> length s" by (simp add: t(1) length_dropWhile_le)
  moreover have "0 < length t" using t(2) by simp
  ultimately have "length t - length w < length s" by linarith
  then show "(drop (length w) t, s) \<in> measure length" by simp
qed simp

declare pieces.simps [simp del]

definition cstr :: "u8 list \<Rightarrow> cstring" where
  "cstr b = takeWhile (\<lambda>c. c \<noteq> 0) b"

definition args_ok :: "program_args \<Rightarrow> bool" where
  "args_ok a \<longleftrightarrow> length (args a) = 16 \<and> (\<forall>b \<in> set (args a). length b = 64)"

lemma skip_spaces_dropWhile: "skip_spaces s = dropWhile (\<lambda>c. c = 32) s"
  by (induction s) auto

lemma is_cstring_takes: "is_cstring s \<Longrightarrow> is_cstring (dropWhile P s)" "is_cstring s \<Longrightarrow> is_cstring (takeWhile P s)"
  "is_cstring s \<Longrightarrow> is_cstring (take n s)" "is_cstring s \<Longrightarrow> is_cstring (drop n s)"
  by (auto simp: is_cstring_def dest: set_dropWhileD set_takeWhileD in_set_takeD in_set_dropD)

lemma copy_word_spec:
  assumes "is_cstring s" and "length b = 64" and "idx \<le> 63"
    and "w = take (63 - idx) (takeWhile (\<lambda>c. c \<noteq> 32) s)"
  shows "copy_word b idx s = (take idx b @ w @ 0 # drop (idx + length w + 1) b, idx + length w, drop (length w) s)"
  using assms
proof (induction b idx s arbitrary: w rule: copy_word.induct)
  case (1 b idx)
  then show ?case by (simp add: upd_conv_take_nth_drop)
next
  case (2 b idx c s)
  show ?case
  proof (cases "c \<noteq> 32 \<and> idx < 63")
    case True
    let ?w = "take (63 - (idx + 1)) (takeWhile (\<lambda>c. c \<noteq> 32) s)"
    have "63 - idx = Suc (63 - (idx + 1))" using True by linarith
    then have w: "w = c # ?w" using True 2(5) by simp
    have "take (idx + 1) (b[idx := c]) = take idx b @ [c]" using 2(3,4) by (simp add: take_Suc_conv_app_nth)
    then show ?thesis using 2(1) [OF _ _ _ _ refl] 2(2-4) True by (simp add: w drop_update_cancel)
  next
    case False
    then have "w = []" using 2(5) by auto
    then show ?thesis using False 2(2-4) by (auto simp: upd_conv_take_nth_drop)
  qed
qed

lemma cstr_word: "is_cstring w \<Longrightarrow> cstr (w @ 0 # r) = w"
  by (induction w) (auto simp: cstr_def)

lemma pieces_skip: "pieces (skip_spaces s) = pieces s"
  by (subst (1 2) pieces.simps) (simp add: skip_spaces_dropWhile)

lemma pieces_Nil [simp]: "pieces [] = []"
  by (simp add: pieces.simps)

lemma pieces_word:
  assumes "skip_spaces s \<noteq> []" and "w = take 63 (takeWhile (\<lambda>c. c \<noteq> 32) (skip_spaces s))"
  shows "pieces s = w # pieces (drop (length w) (skip_spaces s))" and "w \<noteq> []"
proof -
  show "pieces s = w # pieces (drop (length w) (skip_spaces s))"
    using assms by (subst pieces.simps) (simp add: skip_spaces_dropWhile Let_def)
  show "w \<noteq> []" using assms deref_skip_spaces [of s] by (cases "skip_spaces s") auto
qed

lemma parse_args_spec:
  assumes "is_cstring s" and "args_ok a" and "count a \<le> 16"
  shows "args_ok (parse_args s a) \<and> count (parse_args s a) = min 16 (count a + length (pieces s))
    \<and> map cstr (args (parse_args s a)) = take (count a) (map cstr (args a)) @ take (16 - count a) (pieces s) @
      drop (count a + length (pieces s)) (map cstr (args a))"
  using assms
proof (induction "length s" arbitrary: s a rule: less_induct)
  case (less s a)
  note 1 = less
  show ?case
  proof (cases "skip_spaces s = [] \<or> count a = 16")
    case True
    then have "parse_args s a = a"
      using 1(4) by (subst parse_args.simps) auto
    moreover have "count a = 16 \<or> pieces s = []" using True pieces_skip [of s] by auto
    ultimately show ?thesis using 1(3,4) by (auto simp: args_ok_def)
  next
    case False
    define w where "w = take 63 (takeWhile (\<lambda>c. c \<noteq> 32) (skip_spaces s))"
    define s' where "s' = drop (length w) (skip_spaces s)"
    define b where "b = w @ 0 # drop (length w + 1) (args a ! count a)"
    define a' where "a' = a\<lparr>args := (args a)[count a := b], count := count a + 1\<rparr>"
    have n: "count a < 16" using False 1(4) by simp
    have p: "pieces s = w # pieces s'" "w \<noteq> []" using pieces_word [OF _ w_def] False by (auto simp: s'_def)
    have cs: "is_cstring (skip_spaces s)" using 1(2) by (simp add: skip_spaces_dropWhile is_cstring_takes)
    then have cs': "is_cstring s'" "is_cstring w" by (simp_all add: s'_def w_def is_cstring_takes)
    have lb: "length (args a ! count a) = 64" using 1(3) n by (simp add: args_ok_def)
    have lw: "length w \<le> 63" by (simp add: w_def)
    have copy: "copy_word (args a ! count a) 0 (skip_spaces s) = (b, length w, s')"
      using copy_word_spec [OF cs lb _ , of 0 w] by (simp add: w_def b_def s'_def)
    have d: "deref s \<noteq> 0" "deref (skip_spaces s) \<noteq> 0"
      using False 1(2) cs deref_eq_0 [OF 1(2)] deref_eq_0 [OF cs] by auto
    have step: "parse_args s a = parse_args s' a'"
      using d n copy p(2) by (subst parse_args.simps) (simp add: a'_def)
    have ok: "args_ok a'" using 1(3) lb lw n by (auto simp: args_ok_def a'_def b_def dest!: set_update_subset_insert [THEN subsetD])
    have "map cstr (args a') = (map cstr (args a))[count a := w]"
      using cs'(2) by (simp add: a'_def map_update b_def cstr_word)
    then have m: "take (count a') (map cstr (args a')) = take (count a) (map cstr (args a)) @ [w]"
      "drop (count a' + k) (map cstr (args a')) = drop (count a + Suc k) (map cstr (args a))" for k
      using n 1(3) by (simp_all add: a'_def args_ok_def take_Suc_conv_app_nth drop_update_cancel)
    have IH: "args_ok (parse_args s' a') \<and> count (parse_args s' a') = min 16 (count a' + length (pieces s'))
      \<and> map cstr (args (parse_args s' a')) = take (count a') (map cstr (args a')) @ take (16 - count a') (pieces s') @
      drop (count a' + length (pieces s')) (map cstr (args a'))"
      using 1(1) [OF word_progress [OF copy [symmetric] d(2)] cs'(1) ok] n by (simp add: a'_def)
    have "16 - count a = Suc (16 - count a')" using n by (simp add: a'_def)
    then show ?thesis using IH m step p(1) by (simp add: a'_def)
  qed
qed

lemma clear_args_spec:
  assumes "args_ok a"
  shows "args_ok (clear_args a) \<and> count (clear_args a) = 0 \<and> map cstr (args (clear_args a)) = replicate 16 []"
proof -
  have "n \<le> 16 \<Longrightarrow> fold (\<lambda>j a. a\<lparr>args := (args a)[j := (args a ! j)[0 := 0]]\<rparr>) [0 ..< n] (a\<lparr>count := 0\<rparr>) =
      a\<lparr>args := map (\<lambda>b. b[0 := 0]) (take n (args a)) @ drop n (args a), count := 0\<rparr>" for n
  proof (induction n)
    case (Suc n)
    have l: "length (args a) = 16" using assms by (simp add: args_ok_def)
    then have "drop n (args a) = args a ! n # drop (Suc n) (args a)" "length (take n (args a)) = n"
      "take (Suc n) (args a) = take n (args a) @ [args a ! n]"
      using Suc.prems by (simp_all add: Cons_nth_drop_Suc take_Suc_conv_app_nth)
    then show ?case using Suc by (simp add: list_update_append nth_append)
  qed simp
  from this [of 16] have c: "clear_args a = a\<lparr>args := map (\<lambda>b. b[0 := 0]) (args a), count := 0\<rparr>"
    using assms by (simp add: clear_args_def args_ok_def)
  have "map cstr (map (\<lambda>b. b[0 := 0]) (args a)) = map (\<lambda>b. []) (args a)"
  proof (rule map_cong [OF refl, THEN trans [OF map_map]], unfold comp_def)
    fix b assume "b \<in> set (args a)"
    then have "length b = 64" using assms by (simp add: args_ok_def)
    then show "cstr (b[0 := 0]) = []" by (cases b) (simp_all add: cstr_def)
  qed
  then show ?thesis using assms by (auto simp: c args_ok_def map_replicate_const)
qed

lemma pieces_length: "p \<in> set (pieces s) \<Longrightarrow> length p \<le> 63"
proof (induction s rule: pieces.induct)
  case (1 s)
  then show ?case
    by (subst (asm) pieces.simps) (auto simp: Let_def split: if_splits)
qed

lemma parse_command_line_spec:
  assumes "is_cstring line" and "length program = 64" and "args_ok a"
    and "parse_command_line line program a = (p, a')"
  shows "length p = 64" and "cstr p = (case pieces line of [] \<Rightarrow> [] | w # ws \<Rightarrow> w)" and "0 \<in> set p"
    and "args_ok a'" and "count a' = min 16 (length (pieces line) - 1)"
    and "map cstr (args a') = take 16 (tl (pieces line)) @ replicate (16 - count a') []"
proof -
  define s where "s = skip_spaces line"
  define w where "w = take 63 (takeWhile (\<lambda>c. c \<noteq> 32) s)"
  have cs: "is_cstring s" using assms(1) by (simp add: s_def skip_spaces_dropWhile is_cstring_takes)
  have w: "is_cstring w" "length w \<le> 63" using cs by (simp_all add: w_def is_cstring_takes)
  have copy: "copy_word program 0 s = (w @ 0 # drop (length w + 1) program, length w, drop (length w) s)"
    using copy_word_spec [OF cs assms(2), of 0 w] by (simp add: w_def)
  have p: "p = w @ 0 # drop (length w + 1) program" and a': "a' = parse_args (drop (length w) s) (clear_args a)"
    using assms(4) copy by (simp_all add: parse_command_line_def s_def [symmetric])
  have pieces: "(case pieces line of [] \<Rightarrow> [] | w # ws \<Rightarrow> w) = w" "tl (pieces line) = pieces (drop (length w) s)"
    "length (pieces (drop (length w) s)) = length (pieces line) - 1"
    using pieces_word(1) [of line w] pieces_skip [of line] by (cases "s = []"; simp add: s_def w_def)+
  have c: "args_ok (clear_args a)" "count (clear_args a) = 0" "map cstr (args (clear_args a)) = replicate 16 []"
    using clear_args_spec [OF assms(3)] by simp_all
  show "args_ok a'" "count a' = min 16 (length (pieces line) - 1)"
    "map cstr (args a') = take 16 (tl (pieces line)) @ replicate (16 - count a') []"
    using parse_args_spec [OF is_cstring_takes(4) [OF cs] c(1), of "length w"] c(2,3) pieces
    by (simp_all add: a')
  show "length p = 64" "cstr p = (case pieces line of [] \<Rightarrow> [] | w # ws \<Rightarrow> w)" "0 \<in> set p"
    using pieces(1) w assms(2) cstr_word [OF w(1)] by (simp_all add: p)
qed

lemma parse_command_line_program:
  assumes "is_cstring line" and "length program = 64"
  shows "cstr (fst (parse_command_line line program a)) = (case pieces line of [] \<Rightarrow> [] | w # ws \<Rightarrow> w)"
proof -
  define s where "s = skip_spaces line"
  define w where "w = take 63 (takeWhile (\<lambda>c. c \<noteq> 32) s)"
  have cs: "is_cstring s" using assms(1) by (simp add: s_def skip_spaces_dropWhile is_cstring_takes)
  have w: "is_cstring w" using cs by (simp add: w_def is_cstring_takes)
  have "copy_word program 0 s = (w @ 0 # drop (length w + 1) program, length w, drop (length w) s)"
    using copy_word_spec [OF cs assms(2), of 0 w] by (simp add: w_def)
  moreover have "(case pieces line of [] \<Rightarrow> [] | w # ws \<Rightarrow> w) = w"
    using pieces_word(1) [of line w] pieces_skip [of line] by (cases "s = []"; simp add: s_def w_def)
  ultimately show ?thesis using cstr_word [OF w] by (simp add: parse_command_line_def s_def [symmetric] Let_def)
qed

lemma cstr_terminated: "length (cstr b) < length b \<Longrightarrow> 0 \<in> set b"
proof (rule ccontr)
  assume "length (cstr b) < length b" and "0 \<notin> set b"
  then have "takeWhile (\<lambda>c. c \<noteq> 0) b = b" by (intro takeWhile_eq_all_conv [THEN iffD2]) auto
  then show False using \<open>length (cstr b) < length b\<close> by (simp add: cstr_def del: takeWhile_eq_all_conv)
qed

text \<open>
  C28: \<open>parse_command_line\<close> splits a line into its words: the program name is the first piece, the
  arguments are the next sixteen at most, in order, and the other argument strings are empty. No
  buffer is overrun: every buffer keeps its 64 bytes and holds a terminated string.
\<close>

theorem parse_command_line_words:
  assumes "is_cstring line" and "length program = 64" and "args_ok a"
    and "parse_command_line line program a = (p, a')"
  shows "cstr p = (case pieces line of [] \<Rightarrow> [] | w # ws \<Rightarrow> w)
    \<and> count a' = min 16 (length (pieces line) - 1)
    \<and> map cstr (args a') = take 16 (tl (pieces line)) @ replicate (16 - count a') []
    \<and> length p = 64 \<and> args_ok a' \<and> (\<forall>b \<in> insert p (set (args a')). 0 \<in> set b)"
proof -
  note r = parse_command_line_spec [OF assms]
  have "0 \<in> set b" if "b \<in> set (args a')" for b
  proof (rule cstr_terminated)
    have "cstr b \<in> set (map cstr (args a'))" using that by simp
    then have "cstr b \<in> set (pieces line) \<or> cstr b = []"
      unfolding r(6) by (cases "pieces line") (auto dest: in_set_takeD)
    then show "length (cstr b) < length b" using pieces_length r(4) that by (fastforce simp: args_ok_def)
  qed
  then show ?thesis using r by simp
qed

subsection \<open>Round trip\<close>

fun unwords :: "cstring list \<Rightarrow> cstring" where
  "unwords [] = []"
| "unwords [w] = w"
| "unwords (w # ws) = w @ 32 # unwords ws"

definition word_ok :: "cstring \<Rightarrow> bool" where
  "word_ok w \<longleftrightarrow> w \<noteq> [] \<and> length w \<le> 63 \<and> 0 \<notin> set w \<and> 32 \<notin> set w"

lemma pieces_unwords:
  assumes "list_all word_ok ws"
  shows "pieces (unwords ws) = ws"
  using assms
proof (induction ws rule: unwords.induct)
  case (2 w)
  have "dropWhile (\<lambda>c. c = 32) w = w" using 2 by (cases w) (auto simp: word_ok_def)
  moreover have "takeWhile (\<lambda>c. c \<noteq> 32) w = w"
    using 2 by (intro takeWhile_eq_all_conv [THEN iffD2]) (auto simp: word_ok_def)
  ultimately show ?case using 2 by (subst pieces.simps) (simp add: word_ok_def del: takeWhile_eq_all_conv)
next
  case (3 w v ws)
  let ?t = "w @ 32 # unwords (v # ws)"
  have "dropWhile (\<lambda>c. c = 32) ?t = ?t" using 3(2) by (cases w) (auto simp: word_ok_def)
  moreover have "takeWhile (\<lambda>c. c \<noteq> 32) ?t = w" 
    by (subst takeWhile_append2) (use 3(2) in \<open>auto simp: word_ok_def\<close>)
  ultimately have "pieces ?t = w # pieces (32 # unwords (v # ws))"
    using 3(2) by (subst pieces.simps) (simp add: word_ok_def)
  moreover have "pieces (32 # unwords (v # ws)) = pieces (unwords (v # ws))"
    using pieces_skip [of "32 # unwords (v # ws)"] pieces_skip [of "unwords (v # ws)"] by simp
  ultimately show ?case using 3 by simp
qed simp

lemma is_cstring_unwords: "list_all word_ok ws \<Longrightarrow> is_cstring (unwords ws)"
  by (induction ws rule: unwords.induct) (auto simp: word_ok_def is_cstring_def)

text \<open>
  a command line written from a program name and at most sixteen arguments, words of at most 63
  characters separated by spaces, is parsed back into exactly this name and these arguments.
\<close>

theorem parse_command_line_roundtrip:
  assumes "list_all word_ok (w # ws)" and "length ws \<le> 16" and "length program = 64" and "args_ok a"
    and "parse_command_line (unwords (w # ws)) program a = (p, a')"
  shows "cstr p = w \<and> map cstr (take (count a') (args a')) = ws"
proof -
  have ps: "pieces (unwords (w # ws)) = w # ws" by (rule pieces_unwords [OF assms(1)])
  note r = parse_command_line_spec [OF is_cstring_unwords [OF assms(1)] assms(3-5)]
  have "count a' = length ws" using r(5) assms(2) by (simp add: ps)
  then show ?thesis using r(2,6) assms(2) by (simp add: ps take_map [symmetric])
qed

subsection \<open>Witnesses\<close>

definition demo_args :: program_args where
  "demo_args = \<lparr>args = replicate 16 (replicate 64 1), count = 3\<rparr>"

lemma demo_args_ok: "args_ok demo_args"
  by (simp add: demo_args_def args_ok_def)

lemma demo_words: "list_all word_ok [str ''cat'', str ''a.txt'', str ''b'']"
  by (simp add: word_ok_def str_def ord_c_def of_char_def)

theorem parse_command_line_words_witness:
  "cstr (fst (parse_command_line (unwords [str ''cat'', str ''a.txt'', str ''b'']) (replicate 64 1) demo_args)) = str ''cat''
    \<and> count (snd (parse_command_line (unwords [str ''cat'', str ''a.txt'', str ''b'']) (replicate 64 1) demo_args)) = 2"
proof -
  have "length (replicate 64 (1 :: u8)) = 64" by simp
  then show ?thesis
    using parse_command_line_words [OF is_cstring_unwords [OF demo_words] _ demo_args_ok prod.collapse [symmetric], of "replicate 64 1"]
      pieces_unwords [OF demo_words] by (simp del: unwords.simps)
qed

theorem parse_command_line_roundtrip_witness:
  "cstr (fst (parse_command_line (unwords [str ''cat'', str ''a.txt'', str ''b'']) (replicate 64 1) demo_args)) = str ''cat''
    \<and> map cstr (take (count (snd (parse_command_line (unwords [str ''cat'', str ''a.txt'', str ''b'']) (replicate 64 1) demo_args)))
        (args (snd (parse_command_line (unwords [str ''cat'', str ''a.txt'', str ''b'']) (replicate 64 1) demo_args)))) =
      [str ''a.txt'', str ''b'']"
proof -
  have "length (replicate 64 (1 :: u8)) = 64" "length [str ''a.txt'', str ''b''] \<le> 16" by simp_all
  then show ?thesis
    using parse_command_line_roundtrip [OF demo_words _ _ demo_args_ok prod.collapse [symmetric], of "replicate 64 1"] by blast
qed

end
