(* ===== verification/Ide.thy ===== *)
theory Ide
  imports Bus
begin

text \<open>
  The IDE driver (kernel/ide.c). The drive is behind the port bus; \<open>ata_ok\<close> states the documented
  behaviour of an ATA drive in PIO mode on an abstract view of its registers. Under it the driver
  reads and writes exactly the sectors it is asked for. \<open>block_device\<close> is the interface the file
  system uses.
\<close>

subsection \<open>Operations\<close>

abbreviation (input) IDE_PRIMARY_BASE :: u16 where "IDE_PRIMARY_BASE \<equiv> 0x1F0"
abbreviation (input) IDE_PRIMARY_CTRL :: u16 where "IDE_PRIMARY_CTRL \<equiv> 0x3F6"
abbreviation (input) IDE_REG_DATA :: u16 where "IDE_REG_DATA \<equiv> 0x00"
abbreviation (input) IDE_REG_SECTOR_CNT :: u16 where "IDE_REG_SECTOR_CNT \<equiv> 0x02"
abbreviation (input) IDE_REG_LBA_LOW :: u16 where "IDE_REG_LBA_LOW \<equiv> 0x03"
abbreviation (input) IDE_REG_LBA_MID :: u16 where "IDE_REG_LBA_MID \<equiv> 0x04"
abbreviation (input) IDE_REG_LBA_HIGH :: u16 where "IDE_REG_LBA_HIGH \<equiv> 0x05"
abbreviation (input) IDE_REG_DRIVE :: u16 where "IDE_REG_DRIVE \<equiv> 0x06"
abbreviation (input) IDE_REG_STATUS :: u16 where "IDE_REG_STATUS \<equiv> 0x07"
abbreviation (input) IDE_REG_COMMAND :: u16 where "IDE_REG_COMMAND \<equiv> 0x07"
abbreviation (input) IDE_CMD_READ_SECTORS :: u8 where "IDE_CMD_READ_SECTORS \<equiv> 0x20"
abbreviation (input) IDE_CMD_WRITE_SECTORS :: u8 where "IDE_CMD_WRITE_SECTORS \<equiv> 0x30"
abbreviation (input) IDE_CMD_IDENTIFY :: u8 where "IDE_CMD_IDENTIFY \<equiv> 0xEC"
abbreviation (input) IDE_STATUS_ERR :: u8 where "IDE_STATUS_ERR \<equiv> 0x01"
abbreviation (input) IDE_STATUS_DRQ :: u8 where "IDE_STATUS_DRQ \<equiv> 0x08"
abbreviation (input) IDE_STATUS_RDY :: u8 where "IDE_STATUS_RDY \<equiv> 0x40"
abbreviation (input) IDE_STATUS_BSY :: u8 where "IDE_STATUS_BSY \<equiv> 0x80"

fun ide_ready_loop :: "'d bus \<Rightarrow> nat \<Rightarrow> 'd \<Rightarrow> int \<times> 'd" where
  "ide_ready_loop bus 0 d = (-1, d)"
| "ide_ready_loop bus (Suc timeout) d =
     (let (status, d) = inb bus (IDE_PRIMARY_BASE + IDE_REG_STATUS) d
      in if status AND IDE_STATUS_BSY = 0 \<and> status AND IDE_STATUS_RDY \<noteq> 0 then (0, d)
         else ide_ready_loop bus timeout d)"

definition ide_wait_ready :: "'d bus \<Rightarrow> 'd \<Rightarrow> int \<times> 'd" where
  "ide_wait_ready bus d = ide_ready_loop bus 100000 d"

fun ide_drq_loop :: "'d bus \<Rightarrow> nat \<Rightarrow> 'd \<Rightarrow> int \<times> 'd" where
  "ide_drq_loop bus 0 d = (-1, d)"
| "ide_drq_loop bus (Suc timeout) d =
     (let (status, d) = inb bus (IDE_PRIMARY_BASE + IDE_REG_STATUS) d
      in if status AND IDE_STATUS_DRQ \<noteq> 0 then (0, d)
         else if status AND IDE_STATUS_ERR \<noteq> 0 then (-1, d)
         else ide_drq_loop bus timeout d)"

definition ide_wait_drq :: "'d bus \<Rightarrow> 'd \<Rightarrow> int \<times> 'd" where
  "ide_wait_drq bus d = ide_drq_loop bus 100000 d"

definition ide_400ns_delay :: "'d bus \<Rightarrow> 'd \<Rightarrow> 'd" where
  "ide_400ns_delay bus d = fold (\<lambda>i d. snd (inb bus IDE_PRIMARY_CTRL d)) [0 ..< 4] d"

text \<open>
  \<open>while (timeout--) ...\<close> with the value of \<open>timeout\<close> after the loop: -1 when it runs out, else what
  is left at the \<open>break\<close>.
\<close>

fun ide_init_loop :: "'d bus \<Rightarrow> nat \<Rightarrow> 'd \<Rightarrow> int \<times> 'd" where
  "ide_init_loop bus 0 d = (-1, d)"
| "ide_init_loop bus (Suc timeout) d =
     (let (status, d) = inb bus (IDE_PRIMARY_BASE + IDE_REG_STATUS) d
      in if status AND IDE_STATUS_BSY = 0 then (int timeout, d) else ide_init_loop bus timeout d)"

definition ide_init :: "'d bus \<Rightarrow> 'd \<Rightarrow> int \<times> 'd" where
  "ide_init bus d =
    (let d = outb bus IDE_PRIMARY_CTRL 0x02 d;
         d = ide_400ns_delay bus d;
         (status, d) = inb bus (IDE_PRIMARY_BASE + IDE_REG_STATUS) d
     in if status = 0xFF then (-1, d)
        else
          let d = outb bus (IDE_PRIMARY_BASE + IDE_REG_DRIVE) 0xA0 d;
              d = ide_400ns_delay bus d;
              (timeout, d) = ide_init_loop bus 100000 d
          in if timeout \<le> 0 then (-1, d) else (0, d))"

text \<open>The registers of a transfer, written alike for reading and writing.\<close>

definition ide_setup :: "'d bus \<Rightarrow> u8 \<Rightarrow> u32 \<Rightarrow> u8 \<Rightarrow> u8 \<Rightarrow> 'd \<Rightarrow> 'd" where
  "ide_setup bus drive lba sector_count cmd d =
    (let d = outb bus (IDE_PRIMARY_BASE + IDE_REG_DRIVE)
               ((drive AND 0x10) OR 0xE0 OR ucast (drop_bit 24 lba AND 0x0F)) d;
         d = ide_400ns_delay bus d;
         d = outb bus (IDE_PRIMARY_BASE + IDE_REG_SECTOR_CNT) sector_count d;
         d = outb bus (IDE_PRIMARY_BASE + IDE_REG_LBA_LOW) (ucast lba) d;
         d = outb bus (IDE_PRIMARY_BASE + IDE_REG_LBA_MID) (ucast (drop_bit 8 lba)) d;
         d = outb bus (IDE_PRIMARY_BASE + IDE_REG_LBA_HIGH) (ucast (drop_bit 16 lba)) d
     in outb bus (IDE_PRIMARY_BASE + IDE_REG_COMMAND) cmd d)"

text \<open>The words read so far are in the buffer also when the transfer fails.\<close>

fun ide_read_loop :: "'d bus \<Rightarrow> nat \<Rightarrow> 'd \<Rightarrow> int \<times> u16 list \<times> 'd" where
  "ide_read_loop bus 0 d = (0, [], d)"
| "ide_read_loop bus (Suc n) d =
     (let (r, d) = ide_wait_drq bus d
      in if r \<noteq> 0 then (-1, [], d)
         else let (ws, d) = inw_buffer bus (IDE_PRIMARY_BASE + IDE_REG_DATA) 256 d;
                  (r, ws', d) = ide_read_loop bus n d
              in (r, ws @ ws', d))"

definition ide_read_sectors :: "'d bus \<Rightarrow> u8 \<Rightarrow> u32 \<Rightarrow> u8 \<Rightarrow> 'd \<Rightarrow> int \<times> u16 list \<times> 'd" where
  "ide_read_sectors bus drive lba sector_count d =
    (if sector_count = 0 then (-1, [], d)
     else let (r, d) = ide_wait_ready bus d
          in if r \<noteq> 0 then (-1, [], d)
             else ide_read_loop bus (unat sector_count)
                    (ide_setup bus drive lba sector_count IDE_CMD_READ_SECTORS d))"

fun ide_write_loop :: "'d bus \<Rightarrow> nat \<Rightarrow> u16 list \<Rightarrow> 'd \<Rightarrow> int \<times> 'd" where
  "ide_write_loop bus 0 buffer d = (0, d)"
| "ide_write_loop bus (Suc n) buffer d =
     (let (r, d) = ide_wait_drq bus d
      in if r \<noteq> 0 then (-1, d)
         else let d = outw_buffer bus (IDE_PRIMARY_BASE + IDE_REG_DATA) (take 256 buffer) d;
                  d = ide_400ns_delay bus d
              in ide_write_loop bus n (drop 256 buffer) d)"

definition ide_write_sectors :: "'d bus \<Rightarrow> u8 \<Rightarrow> u32 \<Rightarrow> u8 \<Rightarrow> u16 list \<Rightarrow> 'd \<Rightarrow> int \<times> 'd" where
  "ide_write_sectors bus drive lba sector_count buffer d =
    (if sector_count = 0 then (-1, d)
     else let (r, d) = ide_wait_ready bus d
          in if r \<noteq> 0 then (-1, d)
             else let (r, d) = ide_write_loop bus (unat sector_count) buffer
                                 (ide_setup bus drive lba sector_count IDE_CMD_WRITE_SECTORS d)
                  in if r \<noteq> 0 then (-1, d)
                     else let (r, d) = ide_wait_ready bus d in if r \<noteq> 0 then (-1, d) else (0, d))"

definition ide_identify :: "'d bus \<Rightarrow> u8 \<Rightarrow> 'd \<Rightarrow> int \<times> u16 list \<times> 'd" where
  "ide_identify bus drive d =
    (let (r, d) = ide_wait_ready bus d
     in if r \<noteq> 0 then (-1, [], d)
        else let d = outb bus (IDE_PRIMARY_BASE + IDE_REG_DRIVE) (drive AND 0x10) d;
                 d = ide_400ns_delay bus d;
                 d = outb bus (IDE_PRIMARY_BASE + IDE_REG_COMMAND) IDE_CMD_IDENTIFY d;
                 (status, d) = inb bus (IDE_PRIMARY_BASE + IDE_REG_STATUS) d
             in if status = 0 then (-1, [], d)
                else let (r, d) = ide_wait_drq bus d
                     in if r \<noteq> 0 then (-1, [], d)
                        else let (ws, d) = inw_buffer bus (IDE_PRIMARY_BASE + IDE_REG_DATA) 256 d
                             in (0, ws, d))"

subsection \<open>The drive\<close>

text \<open>
  An ATA drive in PIO mode: \<open>disks\<close> is the content of the master and the slave by sector, the
  registers are the ones the host writes, \<open>a_busy\<close> is the number of status reads for which the drive
  stays busy, and a transfer carries the sector it is at, the number of sectors left and the words
  still to be read or written so far.
\<close>

datatype xfer = Idle | Reading nat nat "u16 list" | Writing nat nat "u16 list"

record ata =
  disks :: "bool \<Rightarrow> nat \<Rightarrow> u16 list"
  r_drive :: u8
  r_count :: u8
  r_low :: u8
  r_mid :: u8
  r_high :: u8
  a_busy :: nat
  a_mode :: xfer

definition ata_lba :: "ata \<Rightarrow> nat" where
  "ata_lba a = unat (r_low a) + 256 * unat (r_mid a) + 65536 * unat (r_high a) + 16777216 * unat (r_drive a AND 0x0F)"

definition ata_sel :: "ata \<Rightarrow> bool" where
  "ata_sel a = bit (r_drive a) 4"

definition ata_count :: "ata \<Rightarrow> nat" where
  "ata_count a = (if r_count a = 0 then 256 else unat (r_count a))"

definition ata_status_ok :: "ata \<Rightarrow> u8 \<Rightarrow> bool" where
  "ata_status_ok a v \<longleftrightarrow>
    (if 0 < a_busy a then v AND 0x80 \<noteq> 0 \<and> v AND 0x08 = 0
     else v AND 0x80 = 0 \<and> v AND 0x40 \<noteq> 0 \<and> (v AND 0x08 = 0 \<longleftrightarrow> a_mode a = Idle)) \<and> v AND 0x01 = 0"

definition ata_read_next :: "ata \<Rightarrow> nat \<Rightarrow> nat \<Rightarrow> u16 list \<Rightarrow> xfer" where
  "ata_read_next a l n ws =
    (if ws \<noteq> [] then Reading l n ws else if n \<le> 1 then Idle else Reading (l + 1) (n - 1) (disks a (ata_sel a) (l + 1)))"

definition ata_store :: "ata \<Rightarrow> nat \<Rightarrow> u16 list \<Rightarrow> ata" where
  "ata_store a l ws = a\<lparr>disks := (disks a)(ata_sel a := (disks a (ata_sel a))(l := ws))\<rparr>"

definition ata_written :: "ata \<Rightarrow> nat \<Rightarrow> nat \<Rightarrow> u16 list \<Rightarrow> nat \<Rightarrow> ata" where
  "ata_written a l n ws k =
    (if length ws < 256 then a\<lparr>a_mode := Writing l n ws\<rparr>
     else (ata_store a l ws)\<lparr>a_busy := k, a_mode := if n \<le> 1 then Idle else Writing (l + 1) (n - 1) []\<rparr>)"

text \<open>
  The documented behaviour, on a view of the device state. After a command or a whole sector the
  drive is busy for fewer than 100000 status reads, the timeout of the driver.
\<close>

definition ata_ok :: "'d bus \<Rightarrow> ('d \<Rightarrow> ata) \<Rightarrow> bool" where
  "ata_ok bus view \<longleftrightarrow>
    (\<forall>d. ata_status_ok (view d) (fst (inb bus 0x1F7 d))
       \<and> view (snd (inb bus 0x1F7 d)) = (view d)\<lparr>a_busy := a_busy (view d) - 1\<rparr>
       \<and> view (snd (inb bus 0x3F6 d)) = view d) \<and>
    (\<forall>d v. view (outb bus 0x1F2 v d) = (view d)\<lparr>r_count := v\<rparr>
       \<and> view (outb bus 0x1F3 v d) = (view d)\<lparr>r_low := v\<rparr>
       \<and> view (outb bus 0x1F4 v d) = (view d)\<lparr>r_mid := v\<rparr>
       \<and> view (outb bus 0x1F5 v d) = (view d)\<lparr>r_high := v\<rparr>
       \<and> view (outb bus 0x1F6 v d) = (view d)\<lparr>r_drive := v\<rparr>) \<and>
    (\<forall>d. a_mode (view d) = Idle \<longrightarrow>
       (\<exists>k < 100000. view (outb bus 0x1F7 0x20 d) = (view d)\<lparr>a_busy := k,
          a_mode := Reading (ata_lba (view d)) (ata_count (view d)) (disks (view d) (ata_sel (view d)) (ata_lba (view d)))\<rparr>) \<and>
       (\<exists>k < 100000. view (outb bus 0x1F7 0x30 d) = (view d)\<lparr>a_busy := k,
          a_mode := Writing (ata_lba (view d)) (ata_count (view d)) []\<rparr>)) \<and>
    (\<forall>d l n w ws. a_busy (view d) = 0 \<and> a_mode (view d) = Reading l n (w # ws) \<longrightarrow>
       fst (bus_inw bus 0x1F0 d) = w \<and>
       (\<exists>k < 100000. view (snd (bus_inw bus 0x1F0 d)) =
          (view d)\<lparr>a_busy := if ws = [] then k else 0, a_mode := ata_read_next (view d) l n ws\<rparr>)) \<and>
    (\<forall>d l n w ws. a_busy (view d) = 0 \<and> a_mode (view d) = Writing l n ws \<longrightarrow>
       (\<exists>k < 100000. view (bus_outw bus 0x1F0 w d) = ata_written (view d) l n (ws @ [w]) k))"

definition ata_ready :: "ata \<Rightarrow> bool" where
  "ata_ready a \<longleftrightarrow> (\<forall>b l. length (disks a b l) = 256) \<and> a_mode a = Idle \<and> a_busy a < 100000"

lemma ata_okD:
  assumes "ata_ok bus view"
  shows "ata_status_ok (view d) (fst (inb bus 0x1F7 d))"
    and "view (snd (inb bus 0x1F7 d)) = (view d)\<lparr>a_busy := a_busy (view d) - 1\<rparr>"
    and "view (snd (inb bus 0x3F6 d)) = view d"
    and "view (outb bus 0x1F2 v d) = (view d)\<lparr>r_count := v\<rparr>"
    and "view (outb bus 0x1F3 v d) = (view d)\<lparr>r_low := v\<rparr>"
    and "view (outb bus 0x1F4 v d) = (view d)\<lparr>r_mid := v\<rparr>"
    and "view (outb bus 0x1F5 v d) = (view d)\<lparr>r_high := v\<rparr>"
    and "view (outb bus 0x1F6 v d) = (view d)\<lparr>r_drive := v\<rparr>"
  using assms unfolding ata_ok_def by blast+

lemma ata_ok_read:
  assumes "ata_ok bus view" and "a_mode (view d) = Idle"
  obtains k where "k < 100000" and "view (outb bus 0x1F7 0x20 d) = (view d)\<lparr>a_busy := k,
      a_mode := Reading (ata_lba (view d)) (ata_count (view d)) (disks (view d) (ata_sel (view d)) (ata_lba (view d)))\<rparr>"
  using assms unfolding ata_ok_def by blast

lemma ata_ok_write:
  assumes "ata_ok bus view" and "a_mode (view d) = Idle"
  obtains k where "k < 100000" and "view (outb bus 0x1F7 0x30 d) = (view d)\<lparr>a_busy := k,
      a_mode := Writing (ata_lba (view d)) (ata_count (view d)) []\<rparr>"
  using assms unfolding ata_ok_def by blast

lemma ata_ok_inw:
  assumes "ata_ok bus view" and "a_busy (view d) = 0" and "a_mode (view d) = Reading l n (w # ws)"
  obtains k where "fst (bus_inw bus 0x1F0 d) = w" and "k < 100000" and "view (snd (bus_inw bus 0x1F0 d)) =
      (view d)\<lparr>a_busy := if ws = [] then k else 0, a_mode := ata_read_next (view d) l n ws\<rparr>"
  using assms unfolding ata_ok_def by blast

lemma ata_ok_outw:
  assumes "ata_ok bus view" and "a_busy (view d) = 0" and "a_mode (view d) = Writing l n ws"
  obtains k where "k < 100000" and "view (bus_outw bus 0x1F0 w d) = ata_written (view d) l n (ws @ [w]) k"
  using assms unfolding ata_ok_def by blast

subsection \<open>Waiting\<close>

lemma ide_ready_loop_ready:
  assumes "ata_ok bus view" and "a_busy (view d) < t"
  shows "fst (ide_ready_loop bus t d) = 0 \<and> view (snd (ide_ready_loop bus t d)) = (view d)\<lparr>a_busy := 0\<rparr>"
  using assms(2)
proof (induction t arbitrary: d)
  case (Suc t)
  obtain v d1 where i: "inb bus 0x1F7 d = (v, d1)" by force
  note law = ata_okD(1,2) [OF assms(1), of d, unfolded i fst_conv snd_conv]
  show ?case
  proof (cases "a_busy (view d) = 0")
    case True
    then show ?thesis using law i by (simp add: ata_status_ok_def)
  next
    case False
    then have "a_busy (view d1) < t" using Suc.prems law by simp
    then show ?thesis using Suc.IH [of d1] False law i by (simp add: ata_status_ok_def)
  qed
qed simp

lemma ide_drq_loop_ready:
  assumes "ata_ok bus view" and "a_busy (view d) < t" and "a_mode (view d) \<noteq> Idle"
  shows "fst (ide_drq_loop bus t d) = 0 \<and> view (snd (ide_drq_loop bus t d)) = (view d)\<lparr>a_busy := 0\<rparr>"
  using assms(2,3)
proof (induction t arbitrary: d)
  case (Suc t)
  obtain v d1 where i: "inb bus 0x1F7 d = (v, d1)" by force
  note law = ata_okD(1,2) [OF assms(1), of d, unfolded i fst_conv snd_conv]
  show ?case
  proof (cases "a_busy (view d) = 0")
    case True
    then show ?thesis using law i Suc.prems(2) by (simp add: ata_status_ok_def)
  next
    case False
    then have "a_busy (view d1) < t" "a_mode (view d1) \<noteq> Idle" using Suc.prems law by simp_all
    then show ?thesis using Suc.IH [of d1] False law i by (simp add: ata_status_ok_def)
  qed
qed simp

lemma ide_400ns_delay_view:
  assumes "ata_ok bus view"
  shows "view (ide_400ns_delay bus d) = view d"
proof -
  have "view (fold (\<lambda>i d. snd (inb bus IDE_PRIMARY_CTRL d)) xs d) = view d" for xs :: "nat list" and d
    by (induction xs arbitrary: d) (simp_all add: ata_okD(3) [OF assms])
  then show ?thesis by (simp add: ide_400ns_delay_def)
qed

subsection \<open>Registers\<close>

definition ata_regs :: "u8 \<Rightarrow> u32 \<Rightarrow> u8 \<Rightarrow> ata \<Rightarrow> ata" where
  "ata_regs drive lba c a = a\<lparr>r_drive := (drive AND 0x10) OR 0xE0 OR ucast (drop_bit 24 lba AND 0x0F), r_count := c,
     r_low := ucast lba, r_mid := ucast (drop_bit 8 lba), r_high := ucast (drop_bit 16 lba)\<rparr>"

lemma ata_regs_lba:
  assumes "unat lba < 2 ^ 28"
  shows "ata_lba (ata_regs drive lba c a) = unat lba" and "ata_sel (ata_regs drive lba c a) = bit drive 4"
    and "c \<noteq> 0 \<Longrightarrow> ata_count (ata_regs drive lba c a) = unat c"
proof -
  have m: "(0x0F :: u8) = mask 4" "(0x0F :: u32) = mask 4" by (simp_all add: mask_eq_exp_minus_1)
  have p: "\<not> bit (0x10 :: int) n" "\<not> bit (0xE0 :: int) n" if "n < 4" for n
  proof -
    have "n = 0 \<or> n = 1 \<or> n = 2 \<or> n = 3" using that by linarith
    then show "\<not> bit (0x10 :: int) n" "\<not> bit (0xE0 :: int) n" by auto
  qed
  have byte: "unat (ucast (drop_bit k lba) :: u8) = unat lba div 2 ^ k mod 256" for k
    by (simp add: unsigned_ucast_eq take_bit_eq_mod unat_drop_bit_eq drop_bit_eq_div [of k "unat lba"])
  have "(((drive AND 0x10) OR 0xE0 OR ucast (drop_bit 24 lba AND 0x0F)) AND 0x0F :: u8) = ucast (drop_bit 24 lba) AND mask 4"
    unfolding m by (rule bit_word_eqI) (auto simp: bit_simps p)
  moreover have "unat (ucast (drop_bit 24 lba) AND mask 4 :: u8) = unat lba div 2 ^ 24 mod 16"
    unfolding take_bit_eq_mask [symmetric] unsigned_take_bit_eq byte by (simp add: take_bit_eq_mod mod_mod_cancel)
  moreover have "unat lba div 2 ^ 24 mod 16 = unat lba div 2 ^ 24"
    using less_mult_imp_div_less [of "unat lba" 16 "2 ^ 24"] assms by simp
  ultimately have hi: "unat (((drive AND 0x10) OR 0xE0 OR ucast (drop_bit 24 lba AND 0x0F)) AND 0x0F :: u8) = unat lba div 2 ^ 24"
    by simp
  have d: "256 * (m div (b * 256)) + m div b mod 256 = m div b" for m b :: nat by (simp add: div_mult2_eq)
  have sum: "m mod 256 + 256 * (m div 256 mod 256) + 65536 * (m div 65536 mod 256) + 16777216 * (m div 16777216) = m" for m :: nat
  proof -
    have "256 * (m div 16777216) + m div 65536 mod 256 = m div 65536" "256 * (m div 65536) + m div 256 mod 256 = m div 256"
      using d [of m "2 ^ 16"] d [of m "2 ^ 8"] by simp_all
    moreover have "256 * (m div 256) + m mod 256 = m" by (rule mult_div_mod_eq)
    ultimately show ?thesis by linarith
  qed
  show "ata_lba (ata_regs drive lba c a) = unat lba"
    using sum [of "unat lba"] byte [of 0] byte [of 8] byte [of 16] hi by (simp add: ata_lba_def ata_regs_def)
  have "bit (ucast (drop_bit 24 lba AND mask 4) :: u8) 4 = False" by (simp add: bit_simps)
  then show "ata_sel (ata_regs drive lba c a) = bit drive 4"
    unfolding ata_sel_def ata_regs_def m by (simp add: bit_simps)
  show "c \<noteq> 0 \<Longrightarrow> ata_count (ata_regs drive lba c a) = unat c"
    by (simp add: ata_regs_def ata_count_def)
qed

lemma ide_setup_view:
  assumes "ata_ok bus view"
  shows "\<exists>d1. view d1 = ata_regs drive lba c (view d) \<and> ide_setup bus drive lba c cmd d = outb bus 0x1F7 cmd d1"
proof (intro exI conjI)
  let ?d1 = "outb bus 0x1F5 (ucast (drop_bit 16 lba)) (outb bus 0x1F4 (ucast (drop_bit 8 lba)) (outb bus 0x1F3 (ucast lba)
    (outb bus 0x1F2 c (ide_400ns_delay bus (outb bus 0x1F6 ((drive AND 0x10) OR 0xE0 OR ucast (drop_bit 24 lba AND 0x0F)) d)))))"
  show "ide_setup bus drive lba c cmd d = outb bus 0x1F7 cmd ?d1" by (simp add: ide_setup_def)
  show "view ?d1 = ata_regs drive lba c (view d)"
    by (simp add: ata_okD [OF assms] ide_400ns_delay_view [OF assms] ata_regs_def)
qed


subsection \<open>Transfers\<close>

lemma inw_buffer_sector:
  assumes "ata_ok bus view" and "a_busy (view d) = 0" and "a_mode (view d) = Reading l n ws" and "ws \<noteq> []"
  shows "\<exists>d' k. inw_buffer bus 0x1F0 (length ws) d = (ws, d') \<and> k < 100000
    \<and> view d' = (view d)\<lparr>a_busy := k, a_mode := ata_read_next (view d) l n []\<rparr>"
  using assms(2-4)
proof (induction ws arbitrary: d)
  case (Cons w ws)
  obtain v d1 where i: "bus_inw bus 0x1F0 d = (v, d1)" by force
  obtain k where k: "v = w" "k < 100000"
    "view d1 = (view d)\<lparr>a_busy := if ws = [] then k else 0, a_mode := ata_read_next (view d) l n ws\<rparr>"
    using ata_ok_inw [OF assms(1) Cons.prems(1,2)] i by (metis fst_conv snd_conv)
  show ?case
  proof (cases "ws = []")
    case True
    then show ?thesis using k i by auto
  next
    case False
    then have "a_busy (view d1) = 0" "a_mode (view d1) = Reading l n ws" by (simp_all add: k(3) ata_read_next_def)
    then obtain d' k' where *: "inw_buffer bus 0x1F0 (length ws) d1 = (ws, d')" "k' < 100000"
      "view d' = (view d1)\<lparr>a_busy := k', a_mode := ata_read_next (view d1) l n []\<rparr>"
      using Cons.IH False by blast
    then have "view d' = (view d)\<lparr>a_busy := k', a_mode := ata_read_next (view d) l n []\<rparr>"
      by (simp add: k(3) ata_read_next_def ata_sel_def)
    then show ?thesis using * k(1) i by auto
  qed
qed simp

lemma ide_read_loop_reads:
  assumes "ata_ok bus view" and "\<forall>b l. length (disks (view d) b l) = 256" and "a_busy (view d) < 100000"
    and "a_mode (view d) = (if n = 0 then Idle else Reading l n (disks (view d) (ata_sel (view d)) l))"
  shows "\<exists>d'. ide_read_loop bus n d = (0, concat (map (disks (view d) (ata_sel (view d))) [l ..< l + n]), d')
    \<and> ata_ready (view d') \<and> disks (view d') = disks (view d)"
  using assms(2-)
proof (induction n arbitrary: d l)
  case 0
  then show ?case by (simp add: ata_ready_def)
next
  case (Suc n)
  let ?ws = "disks (view d) (ata_sel (view d)) l"
  have ws: "length ?ws = 256" "?ws \<noteq> []" using Suc.prems(1) by (auto dest: spec [of _ l] simp flip: length_greater_0_conv)
  have mode: "a_mode (view d) = Reading l (Suc n) ?ws" using Suc.prems(3) by simp
  obtain d1 where d1: "ide_wait_drq bus d = (0, d1)" "view d1 = (view d)\<lparr>a_busy := 0\<rparr>"
    using ide_drq_loop_ready [OF assms(1) Suc.prems(2)] mode by (metis ide_wait_drq_def prod.collapse xfer.distinct(1))
  obtain d2 k where d2: "inw_buffer bus 0x1F0 256 d1 = (?ws, d2)" "k < 100000"
    "view d2 = (view d1)\<lparr>a_busy := k, a_mode := ata_read_next (view d1) l (Suc n) []\<rparr>"
    using inw_buffer_sector [OF assms(1), of d1 l "Suc n" ?ws] mode ws by (auto simp: d1(2))
  have v: "disks (view d2) = disks (view d)" "ata_sel (view d2) = ata_sel (view d)" "a_busy (view d2) < 100000"
    "a_mode (view d2) = (if n = 0 then Idle else Reading (l + 1) n (disks (view d2) (ata_sel (view d2)) (l + 1)))"
    by (simp_all add: d2 d1(2) ata_sel_def ata_read_next_def)
  obtain d' where "ide_read_loop bus n d2 = (0, concat (map (disks (view d2) (ata_sel (view d2))) [l + 1 ..< l + 1 + n]), d')"
    "ata_ready (view d')" "disks (view d') = disks (view d2)"
    using Suc.IH [of d2 "l + 1"] Suc.prems(1) v by metis
  then show ?case using d1(1) d2(1) v(1,2) by (simp add: upt_conv_Cons del: upt_Suc)
qed

lemma outw_buffer_sector:
  assumes "ata_ok bus view" and "a_busy (view d) = 0" and "a_mode (view d) = Writing l n ws"
    and "length ws + length us = 256" and "us \<noteq> []"
  shows "\<exists>k < 100000. view (outw_buffer bus 0x1F0 us d) = (ata_store (view d) l (ws @ us))\<lparr>a_busy := k,
      a_mode := if n \<le> 1 then Idle else Writing (l + 1) (n - 1) []\<rparr>"
  using assms(2-)
proof (induction us arbitrary: d ws)
  case (Cons u us)
  obtain k where k: "k < 100000" "view (bus_outw bus 0x1F0 u d) = ata_written (view d) l n (ws @ [u]) k"
    using ata_ok_outw [OF assms(1) Cons.prems(1,2)] by blast
  show ?case
  proof (cases "us = []")
    case True
    then show ?thesis using k Cons.prems(3) by (auto simp: ata_written_def)
  next
    case False
    then have "length (ws @ [u]) < 256" using Cons.prems(3) by (cases us) auto
    then have v: "view (bus_outw bus 0x1F0 u d) = (view d)\<lparr>a_mode := Writing l n (ws @ [u])\<rparr>"
      using k by (simp add: ata_written_def)
    have "\<exists>k < 100000. view (outw_buffer bus 0x1F0 us (bus_outw bus 0x1F0 u d)) =
        (ata_store (view (bus_outw bus 0x1F0 u d)) l ((ws @ [u]) @ us))\<lparr>a_busy := k,
         a_mode := if n \<le> 1 then Idle else Writing (l + 1) (n - 1) []\<rparr>"
      by (rule Cons.IH) (use v Cons.prems False in simp_all)
    then show ?thesis by (simp add: v ata_store_def ata_sel_def)
  qed
qed simp


definition put_sectors :: "nat \<Rightarrow> nat \<Rightarrow> u16 list \<Rightarrow> (nat \<Rightarrow> u16 list) \<Rightarrow> nat \<Rightarrow> u16 list" where
  "put_sectors l n buffer disk s = (if l \<le> s \<and> s < l + n then take 256 (drop (256 * (s - l)) buffer) else disk s)"

lemma ide_write_loop_writes:
  assumes "ata_ok bus view" and "\<forall>b l. length (disks (view d) b l) = 256" and "a_busy (view d) < 100000"
    and "a_mode (view d) = (if n = 0 then Idle else Writing l n [])" and "length buffer = 256 * n"
  shows "\<exists>d'. ide_write_loop bus n buffer d = (0, d') \<and> ata_ready (view d')
    \<and> disks (view d') = (disks (view d))(ata_sel (view d) := put_sectors l n buffer (disks (view d) (ata_sel (view d))))"
  using assms(2-)
proof (induction n arbitrary: d l buffer)
  case 0
  then show ?case by (auto simp: ata_ready_def put_sectors_def fun_eq_iff)
next
  case (Suc n)
  have mode: "a_mode (view d) = Writing l (Suc n) []" using Suc.prems(3) by simp
  obtain d1 where d1: "ide_wait_drq bus d = (0, d1)" "view d1 = (view d)\<lparr>a_busy := 0\<rparr>"
    using ide_drq_loop_ready [OF assms(1) Suc.prems(2)] mode by (metis ide_wait_drq_def prod.collapse xfer.distinct(3))
  have t: "length (take 256 buffer) = 256" "take 256 buffer \<noteq> []" using Suc.prems(4) by auto
  define d2 where "d2 = ide_400ns_delay bus (outw_buffer bus 0x1F0 (take 256 buffer) d1)"
  obtain k where k: "k < 100000" "view d2 = (ata_store (view d1) l (take 256 buffer))\<lparr>a_busy := k,
      a_mode := if Suc n \<le> 1 then Idle else Writing (l + 1) (Suc n - 1) []\<rparr>"
    using outw_buffer_sector [OF assms(1), of d1 l "Suc n" "[]" "take 256 buffer"] mode t
    by (auto simp: d1(2) d2_def ide_400ns_delay_view [OF assms(1)])
  have v: "disks (view d2) = (disks (view d))(ata_sel (view d) := (disks (view d) (ata_sel (view d)))(l := take 256 buffer))"
    "ata_sel (view d2) = ata_sel (view d)" "a_busy (view d2) < 100000"
    "a_mode (view d2) = (if n = 0 then Idle else Writing (l + 1) n [])"
    using k(1) by (simp_all add: k(2) d1(2) ata_sel_def ata_store_def)
  have len: "\<forall>b s. length (disks (view d2) b s) = 256" using Suc.prems(1) t(1) by (simp add: v(1))
  have len2: "length (drop 256 buffer) = 256 * n" using Suc.prems(4) by simp
  obtain d' where d': "ide_write_loop bus n (drop 256 buffer) d2 = (0, d')" "ata_ready (view d')"
    "disks (view d') = (disks (view d2))(ata_sel (view d2) := put_sectors (l + 1) n (drop 256 buffer) (disks (view d2) (ata_sel (view d2))))"
    using Suc.IH [OF len v(3,4) len2] by blast
  have "put_sectors (l + 1) n (drop 256 buffer) ((disks (view d) (ata_sel (view d)))(l := take 256 buffer)) =
      put_sectors l (Suc n) buffer (disks (view d) (ata_sel (view d)))"
  proof
    fix s
    have "256 * (s - l) = 256 + 256 * (s - Suc l)" if "l < s" using that Suc_diff_Suc [OF that] by (metis mult_Suc_right)
    then show "put_sectors (l + 1) n (drop 256 buffer) ((disks (view d) (ata_sel (view d)))(l := take 256 buffer)) s =
      put_sectors l (Suc n) buffer (disks (view d) (ata_sel (view d))) s"
      by (auto simp: put_sectors_def add.commute)
  qed
  then have "disks (view d') = (disks (view d))(ata_sel (view d) := put_sectors l (Suc n) buffer (disks (view d) (ata_sel (view d))))"
    using d'(3) v(1,2) by simp
  then show ?case using d1(1) d'(1,2) by (simp add: d2_def Let_def fun_upd_def)
qed

lemma ide_wait_ready_ready:
  assumes "ata_ok bus view" and "ata_ready (view d)"
  shows "\<exists>d1. ide_wait_ready bus d = (0, d1) \<and> view d1 = (view d)\<lparr>a_busy := 0\<rparr>"
  using ide_ready_loop_ready [OF assms(1), of d 100000] assms(2)
  by (metis ata_ready_def ide_wait_ready_def prod.collapse)

lemma ide_read_sectors_reads:
  assumes "ata_ok bus view" and "ata_ready (view d)" and "c \<noteq> 0" and "unat lba < 2 ^ 28"
  shows "\<exists>d'. ide_read_sectors bus drive lba c d =
      (0, concat (map (disks (view d) (bit drive 4)) [unat lba ..< unat lba + unat c]), d')
    \<and> ata_ready (view d') \<and> disks (view d') = disks (view d)"
proof -
  obtain d1 where d1: "ide_wait_ready bus d = (0, d1)" "view d1 = (view d)\<lparr>a_busy := 0\<rparr>"
    using ide_wait_ready_ready [OF assms(1,2)] by blast
  obtain d2 where d2: "view d2 = ata_regs drive lba c (view d1)"
    "ide_setup bus drive lba c IDE_CMD_READ_SECTORS d1 = outb bus 0x1F7 0x20 d2"
    using ide_setup_view [OF assms(1)] by blast
  note regs = ata_regs_lba [OF assms(4), where drive = drive and c = c and a = "view d1", folded d2(1)]
  have "a_mode (view d2) = Idle" using assms(2) by (simp add: d2(1) d1(2) ata_regs_def ata_ready_def)
  from ata_ok_read [OF assms(1) this] obtain k where k: "k < 100000" "view (outb bus 0x1F7 0x20 d2) = (view d2)\<lparr>a_busy := k,
      a_mode := Reading (unat lba) (unat c) (disks (view d2) (bit drive 4) (unat lba))\<rparr>"
    unfolding regs(1,2) regs(3) [OF assms(3)] by blast
  have disks: "disks (view d2) = disks (view d)" by (simp add: d2(1) d1(2) ata_regs_def)
  let ?d3 = "outb bus 0x1F7 0x20 d2"
  have sel: "ata_sel (view ?d3) = bit drive 4" using regs(2) by (simp add: k(2) ata_sel_def)
  have "\<exists>d'. ide_read_loop bus (unat c) ?d3 = (0, concat (map (disks (view ?d3) (ata_sel (view ?d3))) [unat lba ..< unat lba + unat c]), d')
    \<and> ata_ready (view d') \<and> disks (view d') = disks (view ?d3)"
    by (rule ide_read_loop_reads [OF assms(1)])
      (use assms(2,3) k sel disks in \<open>simp_all add: ata_ready_def unat_eq_0\<close>)
  then show ?thesis using d1(1) d2(2) assms(3) sel disks k(2) by (simp add: ide_read_sectors_def)
qed


lemma ide_write_sectors_writes:
  assumes "ata_ok bus view" and "ata_ready (view d)" and "c \<noteq> 0" and "unat lba < 2 ^ 28" and "length buffer = 256 * unat c"
  shows "\<exists>d'. ide_write_sectors bus drive lba c buffer d = (0, d') \<and> ata_ready (view d')
    \<and> disks (view d') = (disks (view d))(bit drive 4 := put_sectors (unat lba) (unat c) buffer (disks (view d) (bit drive 4)))"
proof -
  obtain d1 where d1: "ide_wait_ready bus d = (0, d1)" "view d1 = (view d)\<lparr>a_busy := 0\<rparr>"
    using ide_wait_ready_ready [OF assms(1,2)] by blast
  obtain d2 where d2: "view d2 = ata_regs drive lba c (view d1)"
    "ide_setup bus drive lba c IDE_CMD_WRITE_SECTORS d1 = outb bus 0x1F7 0x30 d2"
    using ide_setup_view [OF assms(1)] by blast
  note regs = ata_regs_lba [OF assms(4), where drive = drive and c = c and a = "view d1", folded d2(1)]
  have "a_mode (view d2) = Idle" using assms(2) by (simp add: d2(1) d1(2) ata_regs_def ata_ready_def)
  then obtain k where k: "k < 100000" "view (outb bus 0x1F7 0x30 d2) = (view d2)\<lparr>a_busy := k,
      a_mode := Writing (unat lba) (unat c) []\<rparr>"
    using ata_ok_write [OF assms(1)] regs assms(3) by metis
  have disks: "disks (view d2) = disks (view d)" by (simp add: d2(1) d1(2) ata_regs_def)
  let ?d3 = "outb bus 0x1F7 0x30 d2"
  have sel: "ata_sel (view ?d3) = bit drive 4" using regs(2) by (simp add: k(2) ata_sel_def)
  have "\<exists>d'. ide_write_loop bus (unat c) buffer ?d3 = (0, d') \<and> ata_ready (view d')
    \<and> disks (view d') = (disks (view ?d3))(ata_sel (view ?d3) := put_sectors (unat lba) (unat c) buffer (disks (view ?d3) (ata_sel (view ?d3))))"
    by (rule ide_write_loop_writes [OF assms(1)])
      (use assms(2,3,5) k sel disks in \<open>simp_all add: ata_ready_def unat_eq_0\<close>)
  then obtain d4 where d4: "ide_write_loop bus (unat c) buffer ?d3 = (0, d4)" "ata_ready (view d4)"
    "disks (view d4) = (disks (view d))(bit drive 4 := put_sectors (unat lba) (unat c) buffer (disks (view d) (bit drive 4)))"
    using sel disks k(2) by auto
  obtain d5 where "ide_wait_ready bus d4 = (0, d5)" "view d5 = (view d4)\<lparr>a_busy := 0\<rparr>"
    using ide_wait_ready_ready [OF assms(1) d4(2)] by blast
  then show ?thesis using d1(1) d2(2) d4 assms(3) by (simp add: ide_write_sectors_def ata_ready_def)
qed

subsection \<open>Properties\<close>

text \<open>
  C30: the driver is a faithful disk: \<open>ide_write_sectors\<close> of whole sectors returns without error, and
  every later \<open>ide_read_sectors\<close> returns without error the words written, for the sectors that were
  written, and the old words for all others.
\<close>

theorem ide_disk_roundtrip:
  assumes "ata_ok bus view" and "ata_ready (view d)" and "c \<noteq> 0" and "unat lba < 2 ^ 28" and "length buffer = 256 * unat c"
    and "c' \<noteq> 0" and "unat lba' < 2 ^ 28" and "ide_write_sectors bus drive lba c buffer d = (r, d1)"
    and "ide_read_sectors bus drive lba' c' d1 = (r', ws, d2)"
  shows "r = 0 \<and> r' = 0 \<and> ata_ready (view d2)
    \<and> ws = concat (map (\<lambda>s. if unat lba \<le> s \<and> s < unat lba + unat c then take 256 (drop (256 * (s - unat lba)) buffer)
        else disks (view d) (bit drive 4) s) [unat lba' ..< unat lba' + unat c'])"
proof -
  have w: "r = 0" "ata_ready (view d1)"
    "disks (view d1) = (disks (view d))(bit drive 4 := put_sectors (unat lba) (unat c) buffer (disks (view d) (bit drive 4)))"
    using ide_write_sectors_writes [OF assms(1-5), of drive] assms(8) by auto
  have "disks (view d1) (bit drive 4) = (\<lambda>s. if unat lba \<le> s \<and> s < unat lba + unat c then take 256 (drop (256 * (s - unat lba)) buffer)
        else disks (view d) (bit drive 4) s)"
    by (simp add: w(3) put_sectors_def fun_eq_iff)
  then show ?thesis using ide_read_sectors_reads [OF assms(1) w(2) assms(6,7), of drive] assms(9) w(1) by auto
qed

lemma ide_ready_loop_absent:
  assumes "\<And>p d. fst (inb bus p d) = 0xFF"
  shows "fst (ide_ready_loop bus t d) = -1"
proof (induction t arbitrary: d)
  case (Suc t)
  then show ?case using assms [of "0x1F7" d] by (cases "inb bus 0x1F7 d") simp
qed simp

text \<open>
  without a drive the bus floats and every read gives 0xFF: then \<open>ide_init\<close>,
  \<open>ide_read_sectors\<close>, \<open>ide_write_sectors\<close> and \<open>ide_identify\<close> all report an error after a bounded wait,
  and nothing is stored in the buffer.
\<close>

theorem ide_no_drive:
  assumes "\<forall>p d. fst (inb bus p d) = 0xFF"
  shows "fst (ide_init bus d) = -1
    \<and> fst (ide_read_sectors bus drive lba c d) = -1 \<and> fst (snd (ide_read_sectors bus drive lba c d)) = []
    \<and> fst (ide_write_sectors bus drive lba c buffer d) = -1
    \<and> fst (ide_identify bus drive d) = -1 \<and> fst (snd (ide_identify bus drive d)) = []"
proof -
  have f: "fst (ide_wait_ready bus d) = -1" for d
    unfolding ide_wait_ready_def by (rule ide_ready_loop_absent) (use assms in blast)
  have i: "fst (inb bus p d) = 0xFF" for p d using assms by blast
  have "fst (ide_init bus d) = -1" using i by (auto simp: ide_init_def Let_def split: prod.splits) (metis fst_conv)+
  then show ?thesis using f [of d]
    by (simp add: ide_read_sectors_def ide_write_sectors_def ide_identify_def case_prod_beta)
qed


subsection \<open>The interface of the file system\<close>

text \<open>
  A disk that can be read sector by sector: \<open>good d\<close> holds of every device state from which reads
  succeed, \<open>sectors b n\<close> are the words of sector n of the master or the slave.
\<close>

locale block_device =
  fixes bus :: "'d bus"
    and good :: "'d \<Rightarrow> bool"
    and sectors :: "bool \<Rightarrow> nat \<Rightarrow> u16 list"
  assumes read_sector: "good d \<Longrightarrow> unat n < 2 ^ 28 \<Longrightarrow>
      \<exists>d'. ide_read_sectors bus drive n 1 d = (0, sectors (bit drive 4) (unat n), d') \<and> good d'"
    and length_sectors: "length (sectors b l) = 256"

lemma ata_block_device:
  assumes "ata_ok bus view" and "\<forall>b l. length (D b l) = 256"
  shows "block_device bus (\<lambda>d. ata_ready (view d) \<and> disks (view d) = D) D"
proof
  fix d n drive
  assume "ata_ready (view d) \<and> disks (view d) = D" and "unat (n :: u32) < 2 ^ 28"
  then show "\<exists>d'. ide_read_sectors bus drive n 1 d = (0, D (bit drive 4) (unat n), d') \<and>
      ata_ready (view d') \<and> disks (view d') = D"
    using ide_read_sectors_reads [OF assms(1), of d 1 n drive] by auto
qed (use assms(2) in blast)

subsection \<open>A drive\<close>

text \<open>A drive that follows the documented behaviour: it is busy for three status reads at a time.\<close>

definition ata_out :: "u16 \<Rightarrow> u8 \<Rightarrow> ata \<Rightarrow> ata" where
  "ata_out p v a =
    (if p = 0x1F2 then a\<lparr>r_count := v\<rparr> else if p = 0x1F3 then a\<lparr>r_low := v\<rparr>
     else if p = 0x1F4 then a\<lparr>r_mid := v\<rparr> else if p = 0x1F5 then a\<lparr>r_high := v\<rparr>
     else if p = 0x1F6 then a\<lparr>r_drive := v\<rparr>
     else if p = 0x1F7 \<and> v = 0x20 \<and> a_mode a = Idle then
       a\<lparr>a_busy := 3, a_mode := Reading (ata_lba a) (ata_count a) (disks a (ata_sel a) (ata_lba a))\<rparr>
     else if p = 0x1F7 \<and> v = 0x30 \<and> a_mode a = Idle then
       a\<lparr>a_busy := 3, a_mode := Writing (ata_lba a) (ata_count a) []\<rparr>
     else a)"

definition ata_in :: "u16 \<Rightarrow> ata \<Rightarrow> u8 \<times> ata" where
  "ata_in p a =
    (if p = 0x1F7 then
       (if 0 < a_busy a then 0x80 else if a_mode a = Idle then 0x40 else 0x48, a\<lparr>a_busy := a_busy a - 1\<rparr>)
     else (0, a))"

definition ata_inw :: "u16 \<Rightarrow> ata \<Rightarrow> u16 \<times> ata" where
  "ata_inw p a =
    (case a_mode a of
       Reading l n (w # ws) \<Rightarrow> (w, a\<lparr>a_busy := if ws = [] then 3 else 0, a_mode := ata_read_next a l n ws\<rparr>)
     | _ \<Rightarrow> (0, a))"

definition ata_outw :: "u16 \<Rightarrow> u16 \<Rightarrow> ata \<Rightarrow> ata" where
  "ata_outw p w a = (case a_mode a of Writing l n ws \<Rightarrow> ata_written a l n (ws @ [w]) 3 | _ \<Rightarrow> a)"

definition ata_bus :: "ata bus" where
  "ata_bus = \<lparr>bus_in = ata_in, bus_out = ata_out, bus_inw = ata_inw, bus_outw = ata_outw\<rparr>"

lemma ata_bus_ok: "ata_ok ata_bus id"
proof -
  show ?thesis
    unfolding ata_ok_def ata_bus_def inb_def outb_def bus.simps
    by (intro conjI allI impI)
      (auto simp: ata_in_def ata_out_def ata_inw_def ata_outw_def ata_status_ok_def intro: exI [of _ "3 :: nat"])
qed

definition blank_disk :: "bool \<Rightarrow> nat \<Rightarrow> u16 list" where
  "blank_disk b l = replicate 256 0"

interpretation blank: block_device ata_bus "\<lambda>d. ata_ready (id d) \<and> disks (id d) = blank_disk" blank_disk
  by (rule ata_block_device [OF ata_bus_ok]) (simp add: blank_disk_def)

subsection \<open>Witnesses\<close>

definition demo_ata :: ata where
  "demo_ata = \<lparr>disks = blank_disk, r_drive = 0, r_count = 0, r_low = 0, r_mid = 0, r_high = 0, a_busy = 0, a_mode = Idle\<rparr>"

lemma demo_ata_ready: "ata_ready (id demo_ata)"
  by (simp add: demo_ata_def ata_ready_def blank_disk_def)

theorem ide_disk_roundtrip_witness:
  "\<exists>d1 d2. ide_write_sectors ata_bus 0 5 1 (replicate 256 7) demo_ata = (0, d1)
    \<and> ide_read_sectors ata_bus 0 4 2 d1 = (0, replicate 256 0 @ replicate 256 7, d2)"
proof -
  obtain r d1 r' ws d2 where w: "ide_write_sectors ata_bus 0 5 1 (replicate 256 7) demo_ata = (r, d1)"
    "ide_read_sectors ata_bus 0 4 2 d1 = (r', ws, d2)" by (meson prod_cases3 surj_pair)
  have "[4 ..< 6] = [4, 5 :: nat]" by (simp add: upt_rec_numeral)
  then have "r = 0 \<and> r' = 0 \<and> ws = replicate 256 0 @ replicate 256 7"
    using ide_disk_roundtrip [OF ata_bus_ok demo_ata_ready _ _ _ _ _ w] by (simp add: demo_ata_def blank_disk_def)
  then show ?thesis using w by blast
qed

definition floating_bus :: "unit bus" where
  "floating_bus = \<lparr>bus_in = (\<lambda>p d. (0xFF, d)), bus_out = (\<lambda>p v d. d), bus_inw = (\<lambda>p d. (0xFFFF, d)), bus_outw = (\<lambda>p w d. d)\<rparr>"

theorem ide_no_drive_witness:
  "fst (ide_init floating_bus ()) = -1 \<and> fst (ide_read_sectors floating_bus 0 0 1 ()) = -1"
proof -
  have "\<forall>p d. fst (inb floating_bus p d) = 0xFF" by (simp add: inb_def floating_bus_def)
  from ide_no_drive [OF this, of "()" 0 0 1] show ?thesis by simp
qed

end
