(* ===== verification/Decimal.thy ===== *)
theory Decimal
  imports C_Prelude
begin

text \<open>
  Decimal numbers: the conversion the user programs (\<open>uint_to_str\<close> in userspace/ls.c, free.c, uptime.c)
  and the directory listing of kernel/fat32.c each spell out. The digits are produced from the last
  one on into a temporary buffer and then reversed.
\<close>

subsection \<open>Conversion\<close>

function dec_digits :: "u32 \<Rightarrow> u8 list" where
  "dec_digits n = (if n > 0 then (48 + ucast (n mod 10)) # dec_digits (n div 10) else [])"
  by auto
termination
  by (relation "measure unat") (auto simp: unat_div word_gt_0 unat_gt_0 intro!: div_less_dividend)

declare dec_digits.simps [simp del]

definition uint_to_str :: "u32 \<Rightarrow> cstring" where
  "uint_to_str num = (if num = 0 then [48] else rev (dec_digits num))"

subsection \<open>The value of a number\<close>

definition dec_value :: "cstring \<Rightarrow> nat" where
  "dec_value ds = foldl (\<lambda>n d. 10 * n + (unat d - 48)) 0 ds"

abbreviation is_digit :: "u8 \<Rightarrow> bool" where
  "is_digit d \<equiv> 48 \<le> d \<and> d \<le> 57"

lemma last_digit:
  "unat (48 + ucast (n mod 10 :: u32) :: u8) = 48 + unat n mod 10" "is_digit (48 + ucast (n mod 10 :: u32))"
proof -
  have "unat (n mod 10) = unat n mod 10" by (simp add: unat_mod)
  then have "unat (ucast (n mod 10) :: u8) = unat n mod 10"
    by (simp add: unsigned_ucast_eq take_bit_nat_eq_self)
  then show d: "unat (48 + ucast (n mod 10) :: u8) = 48 + unat n mod 10" by (subst unat_word_ariths) simp
  show "is_digit (48 + ucast (n mod 10))" by (simp add: word_le_nat_alt d)
qed

lemma dec_digits_value:
  "foldr (\<lambda>d n. 10 * n + (unat d - 48)) (dec_digits n) 0 = unat n" and dec_digits_digits: "list_all is_digit (dec_digits n)"
proof (induction n rule: dec_digits.induct)
  case (1 n)
  { case 1
    then show ?case using "1.IH"(1) last_digit(1) [of n]
      by (subst dec_digits.simps) (auto simp: unat_div word_neq_0_conv [symmetric])
  next
    case 2
    then show ?case using "1.IH"(2) last_digit(2) [of n] by (subst dec_digits.simps) simp
  }
qed

lemma dec_digits_last: "n \<noteq> 0 \<Longrightarrow> dec_digits n \<noteq> [] \<and> last (dec_digits n) \<noteq> 48"
proof (induction n rule: dec_digits.induct)
  case (1 n)
  then have pos: "n > 0" by (simp add: word_neq_0_conv)
  show ?case
  proof (cases "n div 10 = 0")
    case True
    have "unat n div 10 = 0" using unat_div [of n 10] True by simp
    moreover have "unat n \<noteq> 0" using 1(2) by (simp add: unat_eq_0)
    ultimately have "unat n mod 10 \<noteq> 0" by simp
    then have "48 + ucast (n mod 10) \<noteq> (48 :: u8)" using last_digit(1) [of n] by auto
    then show ?thesis using True pos by (simp add: dec_digits.simps [of n] dec_digits.simps [of 0])
  next
    case False
    then show ?thesis using 1(1) [OF pos] pos by (simp add: dec_digits.simps [of n])
  qed
qed

lemma dec_digits_length: "unat n < 10 ^ k \<Longrightarrow> length (dec_digits n) \<le> k"
proof (induction k arbitrary: n)
  case (Suc k)
  have "unat (n div 10) < 10 ^ k" using Suc.prems by (simp add: unat_div less_mult_imp_div_less)
  then show ?case using Suc.IH [of "n div 10"] by (subst dec_digits.simps) simp
qed (simp add: dec_digits.simps unat_eq_0)

lemma uint_to_str_cstring: "is_cstring (uint_to_str n)" "length (uint_to_str n) \<le> 10"
proof -
  have "list_all is_digit (uint_to_str n)" using dec_digits_digits [of n] by (simp add: uint_to_str_def)
  then show "is_cstring (uint_to_str n)" by (auto simp: is_cstring_def list_all_iff)
  show "length (uint_to_str n) \<le> 10"
    using dec_digits_length [of n 10] le_less_trans [OF less_imp_le [OF unat_u32_less [of n]], of "10 ^ 10"] by (simp add: uint_to_str_def)
qed

subsection \<open>Properties\<close>

text \<open>
  C40: \<open>uint_to_str\<close> writes the decimal number: the digits have the value of the argument, the first one
  is not 0 except for the number 0 itself, and there are at most ten, so that the number and its
  terminating NUL fit into the buffers of 12 and 16 bytes of its callers.
\<close>

theorem uint_to_str_decimal:
  "dec_value (uint_to_str n) = unat n \<and> list_all is_digit (uint_to_str n) \<and> length (uint_to_str n) \<le> 10
    \<and> uint_to_str n \<noteq> [] \<and> (hd (uint_to_str n) = 48 \<longleftrightarrow> n = 0)"
proof (cases "n = 0")
  case True
  then show ?thesis by (simp add: uint_to_str_def dec_value_def)
next
  case False
  have "length (dec_digits n) \<le> 10" by (rule dec_digits_length) (rule less_trans [OF unat_u32_less], simp)
  then show ?thesis using False dec_digits_value [of n] dec_digits_digits [of n] dec_digits_last [OF False]
    by (simp add: uint_to_str_def dec_value_def foldl_conv_foldr hd_rev)
qed

end
