(* ===== verification/Fat32.thy ===== *)
theory Fat32
  imports Ide Vga Decimal
begin

text \<open>
  The FAT32 driver (kernel/fat32.c, fat32.h): mounting, the root directory, 8.3 names, cluster
  chains, opening and reading files. Sectors come from the IDE driver. A loop that may run forever
  is a partial function; the value None means that the call never returns, which is also how a
  division by zero ends, since the kernel halts on it.
\<close>

subsection \<open>Structures on disk\<close>

definition le16 :: "u8 list \<Rightarrow> nat \<Rightarrow> u16" where
  "le16 b i = bytes_word (b ! i) (b ! (i + 1))"

definition le32 :: "u8 list \<Rightarrow> nat \<Rightarrow> u32" where
  "le32 b i = ucast (le16 b i) OR push_bit 16 (ucast (le16 b (i + 2)))"

definition bytes :: "u8 list \<Rightarrow> nat \<Rightarrow> nat \<Rightarrow> u8 list" where
  "bytes b i n = take n (drop i b)"

record fat32_bpb =
  jump :: "u8 list"
  oem_name :: "u8 list"
  bytes_per_sector :: u16
  sectors_per_cluster :: u8
  reserved_sectors :: u16
  num_fats :: u8
  root_entry_count :: u16
  total_sectors_16 :: u16
  media_type :: u8
  fat_size_16 :: u16
  sectors_per_track :: u16
  num_heads :: u16
  hidden_sectors :: u32
  total_sectors_32 :: u32
  fat_size_32 :: u32
  ext_flags :: u16
  fs_version :: u16
  root_cluster :: u32
  fs_info :: u16
  backup_boot_sector :: u16
  bpb_reserved :: "u8 list"
  drive_number :: u8
  reserved1 :: u8
  boot_signature :: u8
  volume_id :: u32
  volume_label :: "u8 list"
  fs_type :: "u8 list"

text \<open>\<open>memcpy(&fs.bpb, sector_buffer, sizeof(fat32_bpb_t))\<close>: the packed little-endian layout.\<close>

definition bpb_of :: "u8 list \<Rightarrow> fat32_bpb" where
  "bpb_of b = \<lparr>jump = bytes b 0 3, oem_name = bytes b 3 8, bytes_per_sector = le16 b 11,
     sectors_per_cluster = b ! 13, reserved_sectors = le16 b 14, num_fats = b ! 16,
     root_entry_count = le16 b 17, total_sectors_16 = le16 b 19, media_type = b ! 21,
     fat_size_16 = le16 b 22, sectors_per_track = le16 b 24, num_heads = le16 b 26,
     hidden_sectors = le32 b 28, total_sectors_32 = le32 b 32, fat_size_32 = le32 b 36,
     ext_flags = le16 b 40, fs_version = le16 b 42, root_cluster = le32 b 44, fs_info = le16 b 48,
     backup_boot_sector = le16 b 50, bpb_reserved = bytes b 52 12, drive_number = b ! 64,
     reserved1 = b ! 65, boot_signature = b ! 66, volume_id = le32 b 67, volume_label = bytes b 71 11,
     fs_type = bytes b 82 8\<rparr>"

record fat32_direntry =
  de_name :: "u8 list"
  de_attr :: u8
  nt_reserved :: u8
  create_time_tenth :: u8
  create_time :: u16
  create_date :: u16
  last_access_date :: u16
  first_cluster_high :: u16
  write_time :: u16
  write_date :: u16
  first_cluster_low :: u16
  file_size :: u32

definition direntry_of :: "u8 list \<Rightarrow> fat32_direntry" where
  "direntry_of b = \<lparr>de_name = bytes b 0 11, de_attr = b ! 11, nt_reserved = b ! 12,
     create_time_tenth = b ! 13, create_time = le16 b 14, create_date = le16 b 16,
     last_access_date = le16 b 18, first_cluster_high = le16 b 20, write_time = le16 b 22,
     write_date = le16 b 24, first_cluster_low = le16 b 26, file_size = le32 b 28\<rparr>"

text \<open>The 16 directory entries of a sector.\<close>

definition sector_entries :: "u8 list \<Rightarrow> fat32_direntry list" where
  "sector_entries b = map (\<lambda>j. direntry_of (bytes b (32 * j) 32)) [0 ..< 16]"

abbreviation (input) FAT32_SECTOR_SIZE :: u32 where "FAT32_SECTOR_SIZE \<equiv> 512"
abbreviation (input) FAT32_ATTR_VOLUME_ID :: u8 where "FAT32_ATTR_VOLUME_ID \<equiv> 0x08"
abbreviation (input) FAT32_ATTR_DIRECTORY :: u8 where "FAT32_ATTR_DIRECTORY \<equiv> 0x10"
abbreviation (input) FAT32_ATTR_LONG_NAME :: u8 where "FAT32_ATTR_LONG_NAME \<equiv> 0x0F"
abbreviation (input) FAT32_CLUSTER_RESERVED :: u32 where "FAT32_CLUSTER_RESERVED \<equiv> 0x0FFFFFF0"
abbreviation (input) FAT32_CLUSTER_EOC :: u32 where "FAT32_CLUSTER_EOC \<equiv> 0x0FFFFFF8"
abbreviation (input) FAT32_CLUSTER_MASK :: u32 where "FAT32_CLUSTER_MASK \<equiv> 0x0FFFFFFF"

subsection \<open>State\<close>

record fat32_file =
  f_first_cluster :: u32
  f_current_cluster :: u32
  f_size :: u32
  f_position :: u32
  f_attr :: u8
  f_valid :: u8

record fat32_dirinfo =
  di_name :: cstring
  di_size :: u32
  di_is_directory :: u8

text \<open>The static data of the driver: \<open>fs\<close>, \<open>sector_buffer\<close> (as bytes), and the one file handle of
  \<open>fat32_open\<close>.\<close>

record fat32 =
  fs_drive :: u8
  bpb :: fat32_bpb
  fat_start_sector :: u32
  data_start_sector :: u32
  root_dir_cluster :: u32
  initialized :: u8
  sector_buffer :: "u8 list"
  fs_file :: fat32_file

subsection \<open>Helpers\<close>

fun strncmp :: "u8 list \<Rightarrow> u8 list \<Rightarrow> nat \<Rightarrow> int" where
  "strncmp s1 s2 0 = 0"
| "strncmp s1 s2 (Suc n) =
     (if deref s1 \<noteq> 0 \<and> deref s1 = deref s2 then strncmp (tl s1) (tl s2) n
      else int (unat (deref s1)) - int (unat (deref s2)))"

text \<open>\<open>ide_read_sectors(fs.drive, sector, 1, sector_buffer)\<close>\<close>

definition read_sector :: "'d bus \<Rightarrow> u32 \<Rightarrow> fat32 \<Rightarrow> 'd \<Rightarrow> int \<times> fat32 \<times> 'd" where
  "read_sector bus sector st d =
    (let (r, ws, d) = ide_read_sectors bus (fs_drive st) sector 1 d;
         bs = concat (map word_bytes ws)
     in (r, st\<lparr>sector_buffer := bs @ drop (length bs) (sector_buffer st)\<rparr>, d))"

definition fat32_get_next_cluster :: "'d bus \<Rightarrow> u32 \<Rightarrow> fat32 \<Rightarrow> 'd \<Rightarrow> u32 \<times> fat32 \<times> 'd" where
  "fat32_get_next_cluster bus cluster st d =
    (if cluster < 2 \<or> cluster \<ge> FAT32_CLUSTER_RESERVED then (FAT32_CLUSTER_EOC, st, d)
     else
       let fat_offset = cluster * 4;
           fat_sector = fat_start_sector st + (fat_offset div FAT32_SECTOR_SIZE);
           entry_offset = (fat_offset mod FAT32_SECTOR_SIZE) div 4;
           (r, st, d) = read_sector bus fat_sector st d
       in if r \<noteq> 0 then (FAT32_CLUSTER_EOC, st, d)
          else let next_cluster = le32 (sector_buffer st) (4 * unat entry_offset) AND FAT32_CLUSTER_MASK
               in if next_cluster \<ge> FAT32_CLUSTER_EOC then (FAT32_CLUSTER_EOC, st, d)
                  else (next_cluster, st, d))"

definition fat32_cluster_to_sector :: "fat32 \<Rightarrow> u32 \<Rightarrow> u32" where
  "fat32_cluster_to_sector st cluster =
    (if cluster < 2 then 0
     else data_start_sector st + (cluster - 2) * ucast (sectors_per_cluster (bpb st)))"

definition fat32_init :: "'d bus \<Rightarrow> u8 \<Rightarrow> fat32 \<Rightarrow> 'd \<Rightarrow> int \<times> fat32 \<times> 'd" where
  "fat32_init bus drive st d =
    (let st = st\<lparr>fs_drive := drive, initialized := 0\<rparr>;
         (r, st, d) = read_sector bus 0 st d
     in if r \<noteq> 0 then (-1, st, d)
        else
          let st = st\<lparr>bpb := bpb_of (sector_buffer st)\<rparr>
          in if bytes_per_sector (bpb st) \<noteq> 512 then (-1, st, d)
             else if fat_size_16 (bpb st) \<noteq> 0 then (-1, st, d)
             else (0, st\<lparr>fat_start_sector := ucast (reserved_sectors (bpb st)),
                data_start_sector := ucast (reserved_sectors (bpb st)) +
                  ucast (num_fats (bpb st)) * fat_size_32 (bpb st),
                root_dir_cluster := root_cluster (bpb st),
                initialized := 1\<rparr>, d))"

subsection \<open>Names\<close>

definition fat32_name_to_string :: "u8 list \<Rightarrow> cstring" where
  "fat32_name_to_string fat_name =
    takeWhile (\<lambda>c. c \<noteq> 32) (take 8 fat_name) @
    (if fat_name ! 8 \<noteq> 32 then ord_c CHR ''.'' # takeWhile (\<lambda>c. c \<noteq> 32) (take 3 (drop 8 fat_name)) else [])"

definition put_at :: "nat \<Rightarrow> u8 list \<Rightarrow> u8 list \<Rightarrow> u8 list" where
  "put_at i xs b = take i b @ xs @ drop (i + length xs) b"

definition fat32_string_to_name :: "cstring \<Rightarrow> u8 list" where
  "fat32_string_to_name input =
    (let fat_name = replicate 11 (ord_c CHR '' '');
         fat_name = put_at 0 (takeWhile (\<lambda>c. c \<noteq> 0 \<and> c \<noteq> ord_c CHR ''.'') (take 8 input)) fat_name;
         ext = dropWhile (\<lambda>c. c \<noteq> 0 \<and> c \<noteq> ord_c CHR ''.'') input
     in if deref ext = ord_c CHR ''.'' then put_at 8 (takeWhile (\<lambda>c. c \<noteq> 0) (take 3 (tl ext))) fat_name
        else fat_name)"

subsection \<open>Listing the root directory on the console\<close>

fun root_entries :: "'d bus \<Rightarrow> fat32_direntry list \<Rightarrow> u32 \<Rightarrow> vga \<Rightarrow> 'd \<Rightarrow> bool \<times> u32 \<times> vga \<times> 'd" where
  "root_entries bus [] file_count v d = (False, file_count, v, d)"
| "root_entries bus (e # es) file_count v d =
     (if hd (de_name e) = 0 then (True, file_count, v, d)
      else if hd (de_name e) = 0xE5 then root_entries bus es file_count v d
      else if de_attr e = FAT32_ATTR_LONG_NAME then root_entries bus es file_count v d
      else if de_attr e AND FAT32_ATTR_VOLUME_ID \<noteq> 0 then root_entries bus es file_count v d
      else
        let filename = fat32_name_to_string (de_name e);
            (d, v) = vga_puts bus (if de_attr e AND FAT32_ATTR_DIRECTORY \<noteq> 0 then str ''[DIR]  '' else str ''[FILE] '') v d;
            (d, v) = vga_puts bus filename v d;
            (d, v) = vga_puts bus (str '' ('') v d;
            (d, v) = vga_puthex bus (file_size e) v d;
            (d, v) = vga_puts bus (str '' bytes)'' @ [10]) v d
        in root_entries bus es (file_count + 1) v d)"

text \<open>The loop over the sectors of a cluster, from sector number i on with n sectors left.\<close>

fun root_sectors :: "'d bus \<Rightarrow> u32 \<Rightarrow> nat \<Rightarrow> nat \<Rightarrow> u32 \<Rightarrow> fat32 \<Rightarrow> vga \<Rightarrow> 'd \<Rightarrow> (int + bool) \<times> u32 \<times> fat32 \<times> vga \<times> 'd" where
  "root_sectors bus sector i 0 file_count st v d = (Inr False, file_count, st, v, d)"
| "root_sectors bus sector i (Suc n) file_count st v d =
     (let (r, st, d) = read_sector bus (sector + of_nat i) st d
      in if r \<noteq> 0 then (Inl (-1), file_count, st, v, d)
         else let (fin, file_count, v, d) = root_entries bus (sector_entries (sector_buffer st)) file_count v d
              in if fin then (Inr True, file_count, st, v, d)
                 else root_sectors bus sector (i + 1) n file_count st v d)"

definition print_total :: "'d bus \<Rightarrow> u32 \<Rightarrow> vga \<Rightarrow> 'd \<Rightarrow> 'd \<times> vga" where
  "print_total bus file_count v d =
    (let (d, v) = vga_puts bus ([10] @ str ''Total files: '') v d;
         (d, v) = vga_puts bus (uint_to_str file_count) v d
     in vga_puts bus [10] v d)"

partial_function (option) root_chain :: "'d bus \<Rightarrow> u32 \<Rightarrow> u32 \<Rightarrow> fat32 \<Rightarrow> vga \<Rightarrow> 'd \<Rightarrow> (int \<times> fat32 \<times> vga \<times> 'd) option" where
  "root_chain bus cluster file_count st v d =
    (if cluster < FAT32_CLUSTER_EOC then
       case root_sectors bus (fat32_cluster_to_sector st cluster) 0 (unat (sectors_per_cluster (bpb st))) file_count st v d of
         (Inl r, file_count, st, v, d) \<Rightarrow> Some (r, st, v, d)
       | (Inr fin, file_count, st, v, d) \<Rightarrow>
           (if fin then let (d, v) = print_total bus file_count v d in Some (sint file_count, st, v, d)
            else let (cluster, st, d) = fat32_get_next_cluster bus cluster st d
                 in root_chain bus cluster file_count st v d)
     else let (d, v) = print_total bus file_count v d in Some (sint file_count, st, v, d))"

definition fat32_list_root :: "'d bus \<Rightarrow> fat32 \<Rightarrow> vga \<Rightarrow> 'd \<Rightarrow> (int \<times> fat32 \<times> vga \<times> 'd) option" where
  "fat32_list_root bus st v d =
    (if initialized st = 0 then Some (-1, st, v, d)
     else
       let (d, v) = vga_puts bus (str ''Files in root directory:'' @ [10]) v d;
           (d, v) = vga_puts bus (str ''------------------------'' @ [10]) v d
       in root_chain bus (root_dir_cluster st) 0 st v d)"

subsection \<open>The directory as a list\<close>

definition dirinfo_of :: "fat32_direntry \<Rightarrow> fat32_dirinfo" where
  "dirinfo_of e = \<lparr>di_name = fat32_name_to_string (de_name e), di_size = file_size e,
     di_is_directory = if de_attr e AND FAT32_ATTR_DIRECTORY \<noteq> 0 then 1 else 0\<rparr>"

fun list_entries :: "int \<Rightarrow> fat32_direntry list \<Rightarrow> fat32_dirinfo list \<Rightarrow> bool \<times> fat32_dirinfo list" where
  "list_entries max_entries [] acc = (False, acc)"
| "list_entries max_entries (e # es) acc =
     (if \<not> int (length acc) < max_entries then (False, acc)
      else if hd (de_name e) = 0 then (True, acc)
      else if hd (de_name e) = 0xE5 then list_entries max_entries es acc
      else if de_attr e = FAT32_ATTR_LONG_NAME then list_entries max_entries es acc
      else if de_attr e AND FAT32_ATTR_VOLUME_ID \<noteq> 0 then list_entries max_entries es acc
      else list_entries max_entries es (acc @ [dirinfo_of e]))"

fun list_sectors :: "'d bus \<Rightarrow> int \<Rightarrow> u32 \<Rightarrow> nat \<Rightarrow> nat \<Rightarrow> fat32_dirinfo list \<Rightarrow> fat32 \<Rightarrow> 'd
    \<Rightarrow> (int + bool) \<times> fat32_dirinfo list \<times> fat32 \<times> 'd" where
  "list_sectors bus max_entries sector i 0 acc st d = (Inr False, acc, st, d)"
| "list_sectors bus max_entries sector i (Suc n) acc st d =
     (let (r, st, d) = read_sector bus (sector + of_nat i) st d
      in if r \<noteq> 0 then (Inl (-1), acc, st, d)
         else let (fin, acc) = list_entries max_entries (sector_entries (sector_buffer st)) acc
              in if fin then (Inr True, acc, st, d) else list_sectors bus max_entries sector (i + 1) n acc st d)"

partial_function (option) list_chain :: "'d bus \<Rightarrow> int \<Rightarrow> u32 \<Rightarrow> fat32_dirinfo list \<Rightarrow> fat32 \<Rightarrow> 'd
    \<Rightarrow> (int \<times> fat32_dirinfo list \<times> fat32 \<times> 'd) option" where
  "list_chain bus max_entries cluster acc st d =
    (if cluster < FAT32_CLUSTER_EOC \<and> int (length acc) < max_entries then
       case list_sectors bus max_entries (fat32_cluster_to_sector st cluster) 0 (unat (sectors_per_cluster (bpb st))) acc st d of
         (Inl r, acc, st, d) \<Rightarrow> Some (r, acc, st, d)
       | (Inr fin, acc, st, d) \<Rightarrow>
           (if fin then Some (int (length acc), acc, st, d)
            else let (cluster, st, d) = fat32_get_next_cluster bus cluster st d
                 in list_chain bus max_entries cluster acc st d)
     else Some (int (length acc), acc, st, d))"

text \<open>The entries are returned as a list; the caller's array at \<open>entries\<close> receives them in order.\<close>

definition fat32_list_dir :: "'d bus \<Rightarrow> u32 \<Rightarrow> int \<Rightarrow> fat32 \<Rightarrow> 'd \<Rightarrow> (int \<times> fat32_dirinfo list \<times> fat32 \<times> 'd) option" where
  "fat32_list_dir bus entries max_entries st d =
    (if initialized st = 0 \<or> entries = 0 \<or> max_entries \<le> 0 then Some (-1, [], st, d)
     else list_chain bus max_entries (root_dir_cluster st) [] st d)"

subsection \<open>Files\<close>

text \<open>Some (Some e): found; Some None: the end of the directory; None: not in this sector.\<close>

fun open_entries :: "u8 list \<Rightarrow> fat32_direntry list \<Rightarrow> fat32_direntry option option" where
  "open_entries search_name [] = None"
| "open_entries search_name (e # es) =
     (if hd (de_name e) = 0 then Some None
      else if hd (de_name e) = 0xE5 then open_entries search_name es
      else if de_attr e = FAT32_ATTR_LONG_NAME then open_entries search_name es
      else if strncmp (de_name e) search_name 11 = 0 then Some (Some e)
      else open_entries search_name es)"

fun open_sectors :: "'d bus \<Rightarrow> u8 list \<Rightarrow> u32 \<Rightarrow> nat \<Rightarrow> nat \<Rightarrow> fat32 \<Rightarrow> 'd
    \<Rightarrow> fat32_direntry option option \<times> fat32 \<times> 'd" where
  "open_sectors bus search_name sector i 0 st d = (None, st, d)"
| "open_sectors bus search_name sector i (Suc n) st d =
     (let (r, st, d) = read_sector bus (sector + of_nat i) st d
      in if r \<noteq> 0 then (Some None, st, d)
         else case open_entries search_name (sector_entries (sector_buffer st)) of
                Some res \<Rightarrow> (Some res, st, d)
              | None \<Rightarrow> open_sectors bus search_name sector (i + 1) n st d)"

partial_function (option) open_chain :: "'d bus \<Rightarrow> u8 list \<Rightarrow> u32 \<Rightarrow> fat32 \<Rightarrow> 'd
    \<Rightarrow> (fat32_direntry option \<times> fat32 \<times> 'd) option" where
  "open_chain bus search_name cluster st d =
    (if cluster < FAT32_CLUSTER_EOC then
       case open_sectors bus search_name (fat32_cluster_to_sector st cluster) 0 (unat (sectors_per_cluster (bpb st))) st d of
         (Some res, st, d) \<Rightarrow> Some (res, st, d)
       | (None, st, d) \<Rightarrow>
           (let (cluster, st, d) = fat32_get_next_cluster bus cluster st d
            in open_chain bus search_name cluster st d)
     else Some (None, st, d))"

definition file_of :: "fat32_direntry \<Rightarrow> fat32_file" where
  "file_of e =
    (let c = push_bit 16 (ucast (first_cluster_high e)) OR ucast (first_cluster_low e)
     in \<lparr>f_first_cluster = c, f_current_cluster = c, f_size = file_size e, f_position = 0,
         f_attr = de_attr e, f_valid = 1\<rparr>)"

text \<open>The result tells whether the pointer to the static handle is returned (True) or NULL.\<close>

definition fat32_open :: "'d bus \<Rightarrow> cstring \<Rightarrow> fat32 \<Rightarrow> 'd \<Rightarrow> (bool \<times> fat32 \<times> 'd) option" where
  "fat32_open bus filename st d =
    (if initialized st = 0 then Some (False, st, d)
     else do {
       (res, st, d) \<leftarrow> open_chain bus (fat32_string_to_name filename) (root_dir_cluster st) st d;
       Some (case res of None \<Rightarrow> (False, st, d) | Some e \<Rightarrow> (True, st\<lparr>fs_file := file_of e\<rparr>, d)) })"

text \<open>
  The loop of \<open>fat32_read\<close>, with the bytes stored so far; a division by zero never returns.
\<close>

partial_function (option) read_loop :: "'d bus \<Rightarrow> u32 \<Rightarrow> u8 list \<Rightarrow> fat32 \<Rightarrow> 'd \<Rightarrow> (u8 list \<times> fat32 \<times> 'd) option" where
  "read_loop bus bytes_to_read acc st d =
    (if bytes_to_read > 0 \<and> f_current_cluster (fs_file st) < FAT32_CLUSTER_EOC then
       let cluster_size = ucast (sectors_per_cluster (bpb st)) * FAT32_SECTOR_SIZE
       in if cluster_size = 0 then None
          else
            let offset_in_cluster = f_position (fs_file st) mod cluster_size;
                bytes_in_cluster = cluster_size - offset_in_cluster;
                bytes_in_cluster = (if bytes_in_cluster > bytes_to_read then bytes_to_read else bytes_in_cluster);
                sector = fat32_cluster_to_sector st (f_current_cluster (fs_file st)) + offset_in_cluster div FAT32_SECTOR_SIZE;
                offset_in_sector = offset_in_cluster mod FAT32_SECTOR_SIZE;
                (r, st, d) = read_sector bus sector st d
            in if r \<noteq> 0 then Some (acc, st, d)
               else
                 let bytes_in_sector = FAT32_SECTOR_SIZE - offset_in_sector;
                     bytes_in_sector = (if bytes_in_sector > bytes_in_cluster then bytes_in_cluster else bytes_in_sector);
                     acc = acc @ bytes (sector_buffer st) (unat offset_in_sector) (unat bytes_in_sector);
                     st = st\<lparr>fs_file := (fs_file st)\<lparr>f_position := f_position (fs_file st) + bytes_in_sector\<rparr>\<rparr>;
                     (st, d) =
                       (if f_position (fs_file st) mod cluster_size = 0 then
                          let (c, st, d) = fat32_get_next_cluster bus (f_current_cluster (fs_file st)) st d
                          in (st\<lparr>fs_file := (fs_file st)\<lparr>f_current_cluster := c\<rparr>\<rparr>, d)
                        else (st, d))
                 in read_loop bus (bytes_to_read - bytes_in_sector) acc st d
     else Some (acc, st, d))"

text \<open>
  The bytes are returned as a list; the caller's buffer receives them. The first argument tells
  whether the handle passed is the static one (True) or NULL. The count is a 32-bit number read
  as a signed one.
\<close>

definition fat32_read :: "'d bus \<Rightarrow> bool \<Rightarrow> u32 \<Rightarrow> fat32 \<Rightarrow> 'd \<Rightarrow> (int \<times> u8 list \<times> fat32 \<times> 'd) option" where
  "fat32_read bus handle sz st d =
    (if \<not> handle \<or> f_valid (fs_file st) = 0 \<or> initialized st = 0 then Some (-1, [], st, d)
     else
       let f = fs_file st;
           bytes_to_read = (if f_position f + sz > f_size f then f_size f - f_position f else sz)
       in do {
         (acc, st, d) \<leftarrow> read_loop bus bytes_to_read [] st d;
         Some (sint (of_nat (length acc) :: u32), acc, st, d) })"

definition fat32_close :: "bool \<Rightarrow> fat32 \<Rightarrow> fat32" where
  "fat32_close handle st = (if handle then st\<lparr>fs_file := (fs_file st)\<lparr>f_valid := 0\<rparr>\<rparr> else st)"

definition fat32_get_info :: "fat32 \<Rightarrow> u32 \<times> u32" where
  "fat32_get_info st = (total_sectors_32 (bpb st), 0)"

end
