(* ===== verification/Gdt.thy ===== *)
theory Gdt
  imports C_Prelude
begin

text \<open>
  The segment descriptors and the task state segment (kernel/gdt.c, kernel/gdt.h and
  kernel/gdt\_flush.asm). The addresses of the two static objects are the linker's and are
  arguments. What the processor reads out of a descriptor is written down beside the code that
  packs it.
\<close>

subsection \<open>Descriptors\<close>

record gdt_entry =
  limit_low :: u16
  base_low :: u16
  base_mid :: u8
  access :: u8
  granularity :: u8
  base_high :: u8

record tss_entry =
  tss_prev_tss :: u32
  tss_esp0 :: u32
  tss_ss0 :: u32
  tss_esp1 :: u32
  tss_ss1 :: u32
  tss_esp2 :: u32
  tss_ss2 :: u32
  tss_cr3 :: u32
  tss_eip :: u32
  tss_eflags :: u32
  tss_regs :: "u32 list" \<comment> \<open>eax, ecx, edx, ebx, esp, ebp, esi, edi\<close>
  tss_segs :: "u32 list" \<comment> \<open>es, cs, ss, ds, fs, gs\<close>
  tss_ldt :: u32
  tss_trap :: u16
  tss_iomap_base :: u16

text \<open>
  The static variables of gdt.c, and the registers the assembly routines load: the register of the
  descriptor table, the segment registers and the task register.
\<close>

record gdt_state =
  gdt :: "gdt_entry list"
  gdtp :: "u16 \<times> u32"
  tss :: tss_entry
  gdtr :: "u16 \<times> u32"
  seg_cs :: u16
  seg_ds :: u16
  seg_es :: u16
  seg_fs :: u16
  seg_gs :: u16
  seg_ss :: u16
  task_reg :: u16

abbreviation (input) GDT_KERNEL_CODE :: u32 where "GDT_KERNEL_CODE \<equiv> 0x08"
abbreviation (input) GDT_KERNEL_DATA :: u32 where "GDT_KERNEL_DATA \<equiv> 0x10"
abbreviation (input) GDT_USER_CODE :: u32 where "GDT_USER_CODE \<equiv> 0x18"
abbreviation (input) GDT_USER_DATA :: u32 where "GDT_USER_DATA \<equiv> 0x20"
abbreviation (input) GDT_TSS :: u32 where "GDT_TSS \<equiv> 0x28"

abbreviation (input) sizeof_tss :: nat where "sizeof_tss \<equiv> 104"
abbreviation (input) sizeof_gdt :: nat where "sizeof_gdt \<equiv> 48"

definition gdt_gate :: "u32 \<Rightarrow> u32 \<Rightarrow> u8 \<Rightarrow> u8 \<Rightarrow> gdt_entry" where
  "gdt_gate base limit acc gran = \<lparr>
     limit_low = ucast (limit AND 0xFFFF),
     base_low = ucast (base AND 0xFFFF),
     base_mid = ucast (drop_bit 16 base AND 0xFF),
     access = acc,
     granularity = ucast (drop_bit 16 limit AND 0x0F) OR (gran AND 0xF0),
     base_high = ucast (drop_bit 24 base AND 0xFF)\<rparr>"

definition gdt_set_gate :: "nat \<Rightarrow> u32 \<Rightarrow> u32 \<Rightarrow> u8 \<Rightarrow> u8 \<Rightarrow> 'z gdt_state_scheme \<Rightarrow> 'z gdt_state_scheme" where
  "gdt_set_gate idx base limit acc gran s = s\<lparr>gdt := (gdt s)[idx := gdt_gate base limit acc gran]\<rparr>"

text \<open>
  Loading a segment register sets the accessed bit of the descriptor, and \<open>ltr\<close> marks the descriptor
  of the task state segment as busy: the processor writes to the access byte in the table.
\<close>

definition mark_access :: "nat \<Rightarrow> u8 \<Rightarrow> 'z gdt_state_scheme \<Rightarrow> 'z gdt_state_scheme" where
  "mark_access i f s = s\<lparr>gdt := (gdt s)[i := (gdt s ! i)\<lparr>access := access (gdt s ! i) OR f\<rparr>]\<rparr>"

definition gdt_flush :: "'z gdt_state_scheme \<Rightarrow> 'z gdt_state_scheme" where
  "gdt_flush s =
    (let s = s\<lparr>gdtr := gdtp s\<rparr>;
         s = mark_access 2 1 (s\<lparr>seg_ds := 0x10, seg_es := 0x10, seg_fs := 0x10, seg_gs := 0x10, seg_ss := 0x10\<rparr>)
     in mark_access 1 1 (s\<lparr>seg_cs := 0x08\<rparr>))"

definition tss_flush :: "'z gdt_state_scheme \<Rightarrow> 'z gdt_state_scheme" where
  "tss_flush s = mark_access 5 2 (s\<lparr>task_reg := 0x28\<rparr>)"

definition zero_tss :: tss_entry where
  "zero_tss = \<lparr>tss_prev_tss = 0, tss_esp0 = 0, tss_ss0 = 0, tss_esp1 = 0, tss_ss1 = 0, tss_esp2 = 0, tss_ss2 = 0,
     tss_cr3 = 0, tss_eip = 0, tss_eflags = 0, tss_regs = replicate 8 0, tss_segs = replicate 6 0, tss_ldt = 0,
     tss_trap = 0, tss_iomap_base = 0\<rparr>"

definition gdt_init :: "u32 \<Rightarrow> u32 \<Rightarrow> 'z gdt_state_scheme \<Rightarrow> 'z gdt_state_scheme" where
  "gdt_init gdt_addr tss_addr s =
    (let s = s\<lparr>tss := zero_tss\<lparr>tss_ss0 := GDT_KERNEL_DATA, tss_esp0 := 0x1F0000, tss_iomap_base := of_nat sizeof_tss\<rparr>\<rparr>;
         s = gdt_set_gate 0 0 0 0 0 s;
         s = gdt_set_gate 1 0 0xFFFFF 0x9A 0xCF s;
         s = gdt_set_gate 2 0 0xFFFFF 0x92 0xCF s;
         s = gdt_set_gate 3 0 0xFFFFF 0xFA 0xCF s;
         s = gdt_set_gate 4 0 0xFFFFF 0xF2 0xCF s;
         s = gdt_set_gate 5 tss_addr (of_nat sizeof_tss - 1) 0x89 0x00 s;
         s = s\<lparr>gdtp := (of_nat sizeof_gdt - 1, gdt_addr)\<rparr>
     in tss_flush (gdt_flush s))"

definition tss_set_kernel_stack :: "u32 \<Rightarrow> 'z gdt_state_scheme \<Rightarrow> 'z gdt_state_scheme" where
  "tss_set_kernel_stack esp0 s = s\<lparr>tss := (tss s)\<lparr>tss_esp0 := esp0\<rparr>\<rparr>"

subsection \<open>What the processor sees\<close>

text \<open>
  The fields of a descriptor as the processor puts them together: base, the largest offset (the
  20-bit limit, in units of 4 KiB when the granularity bit is set), the privilege level, and
  whether it is present, a segment (no system descriptor), executable and writable or readable.
\<close>

definition seg_base :: "gdt_entry \<Rightarrow> u32" where
  "seg_base e = ucast (base_low e) OR push_bit 16 (ucast (base_mid e)) OR push_bit 24 (ucast (base_high e))"

definition seg_limit :: "gdt_entry \<Rightarrow> u32" where
  "seg_limit e = ucast (limit_low e) OR push_bit 16 (ucast (granularity e AND 0x0F))"

definition seg_top :: "gdt_entry \<Rightarrow> u32" where
  "seg_top e = (if bit (granularity e) 7 then push_bit 12 (seg_limit e) OR 0xFFF else seg_limit e)"

definition seg_ring :: "gdt_entry \<Rightarrow> u8" where
  "seg_ring e = drop_bit 5 (access e) AND 3"

text \<open>The descriptor a selector names, and the ring it asks for.\<close>

definition sel_entry :: "u32 \<Rightarrow> 'z gdt_state_scheme \<Rightarrow> gdt_entry" where
  "sel_entry sel s = gdt s ! unat (drop_bit 3 sel)"

definition flat_segment :: "gdt_entry \<Rightarrow> bool" where
  "flat_segment e \<longleftrightarrow> bit (access e) 7 \<and> bit (access e) 4 \<and> bit (access e) 1 \<and> bit (granularity e) 6
     \<and> seg_base e = 0 \<and> seg_top e = 0xFFFFFFFF"

lemma gdt_gate_decode:
  "seg_base (gdt_gate base limit acc gran) = base"
  "seg_limit (gdt_gate base limit acc gran) = take_bit 20 limit"
  "bit (granularity (gdt_gate base limit acc gran)) n \<longleftrightarrow> (if n < 4 then bit limit (16 + n) else bit gran n)"
  "access (gdt_gate base limit acc gran) = acc"
proof -
  have m: "0xFFFF = (mask 16 :: u32)" "0xFF = (mask 8 :: u32)" "0x0F = (mask 4 :: u32)" "0x0F = (mask 4 :: u8)"
      "0xF0 = (push_bit 4 (mask 4) :: u8)"
    by (simp_all add: mask_eq_exp_minus_1)
  show "seg_base (gdt_gate base limit acc gran) = base"
  proof (rule bit_word_eqI)
    fix n assume "n < LENGTH(32)"
    then show "bit (seg_base (gdt_gate base limit acc gran)) n = bit base n"
      unfolding seg_base_def gdt_gate_def m by (cases "n < 24") (auto simp: bit_simps)
  qed
  show "seg_limit (gdt_gate base limit acc gran) = take_bit 20 limit"
    unfolding seg_limit_def gdt_gate_def m by (rule bit_word_eqI) (auto simp: bit_simps)
  show "bit (granularity (gdt_gate base limit acc gran)) n \<longleftrightarrow> (if n < 4 then bit limit (16 + n) else bit gran n)"
    unfolding gdt_gate_def m by (auto simp: bit_simps dest: bit_imp_le_length)
qed (simp add: gdt_gate_def)

lemma gdt_gate_access: "(gdt_gate base limit acc gran)\<lparr>access := b\<rparr> = gdt_gate base limit b gran"
  by (simp add: gdt_gate_def)

text \<open>
  C34: \<open>gdt_init\<close> builds the segments the rest of the kernel relies on. The processor then runs on
  flat 4 GiB code and data segments of ring 0; the selectors 0x1B and 0x23 that the loader enters
  programs with name a flat executable and a flat data segment of ring 3; the task register names
  the task state segment, whose descriptor is present and busy and covers its bytes exactly, and
  which gives the kernel stack for entries from ring 3.
\<close>

theorem gdt_init_segments:
  assumes "length (gdt s) = 6" and "s' = gdt_init gdt_addr tss_addr s"
  shows "gdtr s' = (47, gdt_addr)
    \<and> (flat_segment (sel_entry (ucast (seg_cs s')) s') \<and> bit (access (sel_entry (ucast (seg_cs s')) s')) 3
        \<and> seg_ring (sel_entry (ucast (seg_cs s')) s') = 0)
    \<and> list_all (\<lambda>sel. flat_segment (sel_entry (ucast sel) s') \<and> \<not> bit (access (sel_entry (ucast sel) s')) 3
        \<and> seg_ring (sel_entry (ucast sel) s') = 0) [seg_ds s', seg_es s', seg_fs s', seg_gs s', seg_ss s', ucast (tss_ss0 (tss s'))]
    \<and> (flat_segment (sel_entry 0x1B s') \<and> bit (access (sel_entry 0x1B s')) 3 \<and> seg_ring (sel_entry 0x1B s') = 3)
    \<and> (flat_segment (sel_entry 0x23 s') \<and> \<not> bit (access (sel_entry 0x23 s')) 3 \<and> seg_ring (sel_entry 0x23 s') = 3)
    \<and> (access (sel_entry (ucast (task_reg s')) s') = 0x8B \<and> seg_base (sel_entry (ucast (task_reg s')) s') = tss_addr
        \<and> unat (seg_top (sel_entry (ucast (task_reg s')) s')) + 1 = sizeof_tss \<and> tss_esp0 (tss s') = 0x1F0000)"
proof -
  obtain a b c d e f where g: "gdt s = [a, b, c, d, e, f]"
    using assms(1) by (auto simp: length_Suc_conv numeral_eq_Suc)
  have G: "gdt s' = [gdt_gate 0 0 0 0, gdt_gate 0 0xFFFFF 0x9B 0xCF, gdt_gate 0 0xFFFFF 0x93 0xCF,
      gdt_gate 0 0xFFFFF 0xFA 0xCF, gdt_gate 0 0xFFFFF 0xF2 0xCF, gdt_gate tss_addr 103 0x8B 0]"
    by (simp add: assms(2) gdt_init_def gdt_set_gate_def gdt_flush_def tss_flush_def mark_access_def gdt_gate_access gdt_gate_decode Let_def g)
  have F: "seg_cs s' = 8" "seg_ds s' = 0x10" "seg_es s' = 0x10" "seg_fs s' = 0x10" "seg_gs s' = 0x10" "seg_ss s' = 0x10"
      "task_reg s' = 0x28" "tss_ss0 (tss s') = 0x10" "tss_esp0 (tss s') = 0x1F0000" "gdtr s' = (47, gdt_addr)"
    by (simp_all add: assms(2) gdt_init_def gdt_set_gate_def gdt_flush_def tss_flush_def mark_access_def Let_def)
  show ?thesis
    by (simp add: F sel_entry_def G flat_segment_def gdt_gate_decode seg_ring_def seg_top_def)
qed

definition boot_gdt :: gdt_state where
  "boot_gdt = \<lparr>gdt = replicate 6 (gdt_gate 0 0 0 0), gdtp = (0, 0), tss = zero_tss, gdtr = (0, 0), seg_cs = 8, seg_ds = 16,
     seg_es = 16, seg_fs = 16, seg_gs = 16, seg_ss = 16, task_reg = 0\<rparr>"

theorem gdt_init_segments_witness:
  "seg_ring (sel_entry 0x1B (gdt_init 0x5000 0x6000 boot_gdt)) = 3"
  using gdt_init_segments [of boot_gdt _ "0x5000" "0x6000", OF _ refl] by (simp add: boot_gdt_def)

end
