(* ===== verification/Idt.thy ===== *)
theory Idt
  imports Bus
begin

text \<open>
  The interrupt descriptors, the interrupt controllers and the timer (kernel/idt.c, kernel/idt.h).
  The addresses of the entry stubs of kernel/isr.asm are the linker's: the argument \<open>isr\<close> gives the
  address of stub n. The interrupt dispatcher is in the theory Kernel.
\<close>

subsection \<open>Tables\<close>

record idt_entry =
  offset_low :: u16
  selector :: u16
  zero :: u8
  type_attr :: u8
  offset_high :: u16

text \<open>The static variables of idt.c, the register of the interrupt table and the interrupt flag.\<close>

record idt_state =
  idt :: "idt_entry list"
  idtp :: "u16 \<times> u32"
  pit_ticks :: u32
  idtr :: "u16 \<times> u32"
  interrupts_on :: bool

abbreviation (input) IDT_ENTRIES :: nat where "IDT_ENTRIES \<equiv> 256"
abbreviation (input) IDT_GATE_INT32 :: u8 where "IDT_GATE_INT32 \<equiv> 0x8E"
abbreviation (input) IDT_GATE_INT32_USER :: u8 where "IDT_GATE_INT32_USER \<equiv> 0xEE"

definition idt_set_gate :: "u8 \<Rightarrow> u32 \<Rightarrow> u16 \<Rightarrow> u8 \<Rightarrow> 'z idt_state_scheme \<Rightarrow> 'z idt_state_scheme" where
  "idt_set_gate num handler sel attr s = s\<lparr>idt := (idt s)[unat num :=
     \<lparr>offset_low = ucast (handler AND 0xFFFF), selector = sel, zero = 0, type_attr = attr,
      offset_high = ucast (drop_bit 16 handler AND 0xFFFF)\<rparr>]\<rparr>"

subsection \<open>Interrupt controllers and timer\<close>

definition pic_remap :: "'d bus \<Rightarrow> 'd \<Rightarrow> 'd" where
  "pic_remap bus d =
    (let (mask1, d) = inb bus 0x21 d;
         (mask2, d) = inb bus 0xA1 d;
         d = io_wait bus (outb bus 0x20 0x11 d);
         d = io_wait bus (outb bus 0xA0 0x11 d);
         d = io_wait bus (outb bus 0x21 0x20 d);
         d = io_wait bus (outb bus 0xA1 0x28 d);
         d = io_wait bus (outb bus 0x21 0x04 d);
         d = io_wait bus (outb bus 0xA1 0x02 d);
         d = io_wait bus (outb bus 0x21 0x01 d);
         d = io_wait bus (outb bus 0xA1 0x01 d);
         d = outb bus 0x21 mask1 d
     in outb bus 0xA1 mask2 d)"

definition pit_init :: "'d bus \<Rightarrow> 'd \<Rightarrow> 'd" where
  "pit_init bus d =
    (let divisor = 11932 :: u16;
         d = outb bus 0x43 0x36 d;
         d = outb bus 0x40 (ucast (divisor AND 0xFF)) d
     in outb bus 0x40 (ucast (drop_bit 8 divisor AND 0xFF)) d)"

definition idt_init :: "'d bus \<Rightarrow> (nat \<Rightarrow> u32) \<Rightarrow> u32 \<Rightarrow> 'z idt_state_scheme \<Rightarrow> 'd \<Rightarrow> 'd \<times> 'z idt_state_scheme" where
  "idt_init bus isr idt_addr s d =
    (let s = fold (\<lambda>i. idt_set_gate (of_nat i) (isr i) 0x08 IDT_GATE_INT32) [0 ..< 48] s;
         s = idt_set_gate 128 (isr 128) 0x08 IDT_GATE_INT32_USER s;
         s = s\<lparr>idtp := (of_nat (8 * IDT_ENTRIES) - 1, idt_addr)\<rparr>;
         s = s\<lparr>idtr := idtp s\<rparr>;
         d = pic_remap bus d;
         d = pit_init bus d;
         d = outb bus 0x21 0xFC d;
         d = outb bus 0xA1 0xFF d
     in (d, s\<lparr>interrupts_on := True\<rparr>))"

definition get_uptime_ms :: "'z idt_state_scheme \<Rightarrow> u32" where
  "get_uptime_ms s = pit_ticks s * 10"

subsection \<open>What the processor and the controllers do\<close>

text \<open>
  The handler address of a gate and the least privileged ring that may call it with an \<open>int\<close>
  instruction; a gate is usable if it is present and a 32-bit interrupt gate.
\<close>

definition gate_offset :: "idt_entry \<Rightarrow> u32" where
  "gate_offset e = ucast (offset_low e) OR push_bit 16 (ucast (offset_high e))"

definition gate_ring :: "idt_entry \<Rightarrow> u8" where
  "gate_ring e = drop_bit 5 (type_attr e) AND 3"

definition gate_usable :: "idt_entry \<Rightarrow> bool" where
  "gate_usable e \<longleftrightarrow> bit (type_attr e) 7 \<and> type_attr e AND 0x1F = 0x0E"

text \<open>
  An 8259 controller as its manual describes it: a command with bit 4 set starts the initialisation
  and clears the mask; the next three bytes to the data port are the vector base (of which the upper
  five bits count), the cascade wiring and the mode; otherwise a byte to the data port is the mask.
  \<open>pic_step\<close> counts the initialisation bytes still missing.
\<close>

record pic =
  pic_base :: u8
  pic_mask :: u8
  pic_step :: nat

definition pic_command :: "u8 \<Rightarrow> pic \<Rightarrow> pic" where
  "pic_command v p = (if bit v 4 then p\<lparr>pic_mask := 0, pic_step := 3\<rparr> else p)"

definition pic_data :: "u8 \<Rightarrow> pic \<Rightarrow> pic" where
  "pic_data v p =
    (if pic_step p = 0 then p\<lparr>pic_mask := v\<rparr>
     else if pic_step p = 3 then p\<lparr>pic_base := v AND 0xF8, pic_step := 2\<rparr>
     else p\<lparr>pic_step := pic_step p - 1\<rparr>)"

definition pics_out :: "u16 \<Rightarrow> u8 \<Rightarrow> pic \<times> pic \<Rightarrow> pic \<times> pic" where
  "pics_out port v ps =
    (case ps of (p1, p2) \<Rightarrow>
      if port = 0x20 then (pic_command v p1, p2) else if port = 0x21 then (pic_data v p1, p2)
      else if port = 0xA0 then (p1, pic_command v p2) else if port = 0xA1 then (p1, pic_data v p2)
      else (p1, p2))"

definition pics_ok :: "'d bus \<Rightarrow> ('d \<Rightarrow> pic \<times> pic) \<Rightarrow> bool" where
  "pics_ok bus pics \<longleftrightarrow> (\<forall>port v d. pics (outb bus port v d) = pics_out port v (pics d) \<and> pics (snd (inb bus port d)) = pics d)"

text \<open>The vector an interrupt line raises, if the line is not masked.\<close>

definition irq_vector :: "pic \<times> pic \<Rightarrow> nat \<Rightarrow> u8 option" where
  "irq_vector ps irq =
    (let p = (if irq < 8 then fst ps else snd ps)
     in if bit (pic_mask p) (irq mod 8) then None else Some (pic_base p + of_nat (irq mod 8)))"

lemma gate_offset_set: "gate_offset \<lparr>offset_low = ucast (h AND 0xFFFF), selector = sel, zero = z, type_attr = t,
    offset_high = ucast (drop_bit 16 h AND 0xFFFF)\<rparr> = h"
proof -
  have m: "0xFFFF = (mask 16 :: u32)" by (simp add: mask_eq_exp_minus_1)
  show ?thesis unfolding gate_offset_def m by (rule bit_word_eqI) (auto simp: bit_simps)
qed

lemma idt_init_table:
  assumes "length (idt s) = 256" and "snd (idt_init bus isr idt_addr s d) = s'"
  shows "n < 48 \<Longrightarrow> gate_offset (idt s' ! n) = isr n \<and> selector (idt s' ! n) = 8 \<and> type_attr (idt s' ! n) = 0x8E"
    and "gate_offset (idt s' ! 128) = isr 128 \<and> selector (idt s' ! 128) = 8 \<and> type_attr (idt s' ! 128) = 0xEE"
    and "48 \<le> n \<Longrightarrow> n < 256 \<Longrightarrow> n \<noteq> 128 \<Longrightarrow> idt s' ! n = idt s ! n"
proof -
  let ?g = "\<lambda>i. idt_set_gate (of_nat i) (isr i) 0x08 IDT_GATE_INT32"
  have f: "length (idt (fold ?g [0 ..< k] s)) = 256 \<and>
      (\<forall>j < 256. idt (fold ?g [0 ..< k] s) ! j = (if j < k then \<lparr>offset_low = ucast (isr j AND 0xFFFF), selector = 8, zero = 0,
        type_attr = 0x8E, offset_high = ucast (drop_bit 16 (isr j) AND 0xFFFF)\<rparr> else idt s ! j))" if "k \<le> 48" for k
    using that assms(1) by (induction k) (auto simp: idt_set_gate_def nth_list_update unat_of_nat less_Suc_eq)
  show "gate_offset (idt s' ! n) = isr n \<and> selector (idt s' ! n) = 8 \<and> type_attr (idt s' ! n) = 0x8E" if "n < 48"
    using f [of 48] that assms(2) by (auto simp: idt_init_def Let_def idt_set_gate_def gate_offset_set)
  show "gate_offset (idt s' ! 128) = isr 128 \<and> selector (idt s' ! 128) = 8 \<and> type_attr (idt s' ! 128) = 0xEE"
    using f [of 48] assms(2) by (auto simp: idt_init_def Let_def idt_set_gate_def gate_offset_set)
  show "idt s' ! n = idt s ! n" if "48 \<le> n" "n < 256" "n \<noteq> 128"
    using f [of 48] that assms(2) by (auto simp: idt_init_def Let_def idt_set_gate_def)
qed

lemma pic_remap_pics:
  assumes "pics_ok bus pics"
  shows "\<exists>m1 m2. pics (pic_remap bus d) = (\<lparr>pic_base = 0x20, pic_mask = m1, pic_step = 0\<rparr>, \<lparr>pic_base = 0x28, pic_mask = m2, pic_step = 0\<rparr>)"
proof -
  have o: "pics (outb bus p v d) = pics_out p v (pics d)" "pics (snd (inb bus p d)) = pics d" for p v d
    using assms by (simp_all add: pics_ok_def)
  obtain m1 d1 where 1: "inb bus 0x21 d = (m1, d1)" by (meson surj_pair)
  obtain m2 d2 where 2: "inb bus 0xA1 d1 = (m2, d2)" by (meson surj_pair)
  obtain p1 p2 where p: "pics d2 = (p1, p2)" by (meson surj_pair)
  show ?thesis
    by (cases p1; cases p2) (simp add: pic_remap_def 1 2 io_wait_def Let_def o p pics_out_def pic_command_def pic_data_def)
qed

lemma idt_init_pics:
  assumes "pics_ok bus pics" and "fst (idt_init bus isr idt_addr s d) = d'"
  shows "pics d' = (\<lparr>pic_base = 0x20, pic_mask = 0xFC, pic_step = 0\<rparr>, \<lparr>pic_base = 0x28, pic_mask = 0xFF, pic_step = 0\<rparr>)"
proof -
  have o: "pics (outb bus p v d) = pics_out p v (pics d)" for p v d
    using assms(1) by (simp add: pics_ok_def)
  show ?thesis using pic_remap_pics [OF assms(1), of d] assms(2)
    by (auto simp: idt_init_def pit_init_def Let_def o pics_out_def pic_data_def)
qed

text \<open>
  C35: \<open>idt_init\<close> routes the interrupts: whatever state the interrupt controllers were in, afterwards
  exactly the timer and the keyboard line are let through, as the vectors 32 and 33, clear of the
  processor's exceptions. The first 48 vectors lead to their own stub on the kernel code segment
  and cannot be raised from ring 3; vector 128 leads to its stub and can; interrupts are on.
\<close>

theorem idt_init_routes:
  assumes "pics_ok bus pics" and "length (idt s) = 256" and "idt_init bus isr idt_addr s d = (d', s')"
  shows "(\<forall>irq < 16. irq_vector (pics d') irq = (if irq = 0 then Some 32 else if irq = 1 then Some 33 else None))
    \<and> list_all (\<lambda>n. gate_usable (idt s' ! n) \<and> gate_offset (idt s' ! n) = isr n \<and> selector (idt s' ! n) = 0x08
        \<and> gate_ring (idt s' ! n) = (if n = 128 then 3 else 0)) (128 # [0 ..< 48])
    \<and> idtr s' = (2047, idt_addr) \<and> interrupts_on s'"
proof -
  have p: "pics d' = (\<lparr>pic_base = 0x20, pic_mask = 0xFC, pic_step = 0\<rparr>, \<lparr>pic_base = 0x28, pic_mask = 0xFF, pic_step = 0\<rparr>)"
    by (rule idt_init_pics [OF assms(1), of isr idt_addr s d]) (simp add: assms(3))
  have "irq_vector (pics d') irq = (if irq = 0 then Some 32 else if irq = 1 then Some 33 else None)" if "irq < 16" for irq
  proof -
    have "irq \<in> set [0, 1, 2, 3, 4, 5, 6, 7, 8, 9, 10, 11, 12, 13, 14, 15]" using that by (simp, presburger)
    then show ?thesis by (auto simp: irq_vector_def p)
  qed
  moreover have "gate_usable (idt s' ! n) \<and> gate_offset (idt s' ! n) = isr n \<and> selector (idt s' ! n) = 0x08 \<and> gate_ring (idt s' ! n) = 0" if "n < 48" for n
    using idt_init_table(1) [OF assms(2), of bus isr idt_addr d s' n] that assms(3) by (simp add: gate_usable_def gate_ring_def)
  moreover have "gate_usable (idt s' ! 128) \<and> gate_offset (idt s' ! 128) = isr 128 \<and> selector (idt s' ! 128) = 0x08 \<and> gate_ring (idt s' ! 128) = 3"
    using idt_init_table(2) [OF assms(2), of bus isr idt_addr d s'] assms(3) by (simp add: gate_usable_def gate_ring_def)
  moreover have "idtr s' = (2047, idt_addr)" "interrupts_on s'" using assms(3) by (auto simp: idt_init_def Let_def)
  ultimately show ?thesis by (auto simp: list_all_iff)
qed

subsection \<open>Witness\<close>

definition pics_bus :: "(pic \<times> pic) bus" where
  "pics_bus = \<lparr>bus_in = (\<lambda>p d. (if p = 0x21 then pic_mask (fst d) else if p = 0xA1 then pic_mask (snd d) else 0, d)),
     bus_out = pics_out, bus_inw = (\<lambda>p d. (0, d)), bus_outw = (\<lambda>p w d. d)\<rparr>"

definition boot_idt :: idt_state where
  "boot_idt = \<lparr>idt = replicate 256 \<lparr>offset_low = 0, selector = 0, zero = 0, type_attr = 0, offset_high = 0\<rparr>, idtp = (0, 0),
     pit_ticks = 0, idtr = (0, 0), interrupts_on = False\<rparr>"

definition boot_pic :: pic where
  "boot_pic = \<lparr>pic_base = 8, pic_mask = 0, pic_step = 0\<rparr>"

theorem idt_init_routes_witness:
  "irq_vector (fst (idt_init pics_bus (\<lambda>n. 0x2000 + 16 * of_nat n) 0x5000 boot_idt (boot_pic, boot_pic))) 1 = Some 33"
proof -
  have "pics_ok pics_bus id" by (simp add: pics_ok_def pics_bus_def outb_def inb_def)
  moreover obtain d' s' where "idt_init pics_bus (\<lambda>n. 0x2000 + 16 * of_nat n) 0x5000 boot_idt (boot_pic, boot_pic) = (d', s')"
    by (meson surj_pair)
  moreover have "length (idt boot_idt) = 256" by (simp add: boot_idt_def)
  ultimately show ?thesis using idt_init_routes [of pics_bus id boot_idt] by fastforce
qed

end
