(* ===== verification/Elf.thy ===== *)
theory Elf
  imports Paging
begin

text \<open>
  The program loader (kernel/elf.c, kernel/elf.h): the headers of an ELF file in memory, their check,
  and the copying of the segments. Entering and leaving a program is in the theory Syscall. The kernel
  runs on the identity mapping of the first 16 MiB that \<open>paging_init\<close> sets up; an access outside of
  it is a page fault, on which the kernel halts, and has the value None.
\<close>

subsection \<open>Headers\<close>

record elf32_ehdr =
  e_ident :: "u8 list"
  e_type :: u16
  e_machine :: u16
  e_version :: u32
  e_entry :: u32
  e_phoff :: u32
  e_shoff :: u32
  e_flags :: u32
  e_ehsize :: u16
  e_phentsize :: u16
  e_phnum :: u16
  e_shentsize :: u16
  e_shnum :: u16
  e_shstrndx :: u16

record elf32_phdr =
  p_type :: u32
  p_offset :: u32
  p_vaddr :: u32
  p_paddr :: u32
  p_filesz :: u32
  p_memsz :: u32
  p_flags :: u32
  p_align :: u32

definition ld16 :: "memory \<Rightarrow> u32 \<Rightarrow> u16" where
  "ld16 m a = ucast (m a) OR push_bit 8 (ucast (m (a + 1)))"

definition ehdr_of :: "memory \<Rightarrow> u32 \<Rightarrow> elf32_ehdr" where
  "ehdr_of m a = \<lparr>e_ident = map (\<lambda>i. m (a + of_nat i)) [0 ..< 16], e_type = ld16 m (a + 16), e_machine = ld16 m (a + 18),
     e_version = ld32 m (a + 20), e_entry = ld32 m (a + 24), e_phoff = ld32 m (a + 28), e_shoff = ld32 m (a + 32),
     e_flags = ld32 m (a + 36), e_ehsize = ld16 m (a + 40), e_phentsize = ld16 m (a + 42), e_phnum = ld16 m (a + 44),
     e_shentsize = ld16 m (a + 46), e_shnum = ld16 m (a + 48), e_shstrndx = ld16 m (a + 50)\<rparr>"

definition phdr_of :: "memory \<Rightarrow> u32 \<Rightarrow> elf32_phdr" where
  "phdr_of m a = \<lparr>p_type = ld32 m a, p_offset = ld32 m (a + 4), p_vaddr = ld32 m (a + 8), p_paddr = ld32 m (a + 12),
     p_filesz = ld32 m (a + 16), p_memsz = ld32 m (a + 20), p_flags = ld32 m (a + 24), p_align = ld32 m (a + 28)\<rparr>"

abbreviation (input) ELFCLASS32 :: u8 where "ELFCLASS32 \<equiv> 1"
abbreviation (input) ELFDATA2LSB :: u8 where "ELFDATA2LSB \<equiv> 1"
abbreviation (input) ET_EXEC :: u16 where "ET_EXEC \<equiv> 2"
abbreviation (input) ET_DYN :: u16 where "ET_DYN \<equiv> 3"
abbreviation (input) EM_386 :: u16 where "EM_386 \<equiv> 3"
abbreviation (input) PT_LOAD :: u32 where "PT_LOAD \<equiv> 1"

definition elf_validate_header :: "elf32_ehdr \<Rightarrow> int" where
  "elf_validate_header h =
    (if e_ident h ! 0 \<noteq> 0x7F \<or> e_ident h ! 1 \<noteq> ord_c CHR ''E'' \<or> e_ident h ! 2 \<noteq> ord_c CHR ''L'' \<or> e_ident h ! 3 \<noteq> ord_c CHR ''F'' then -1
     else if e_ident h ! 4 \<noteq> ELFCLASS32 then -1
     else if e_ident h ! 5 \<noteq> ELFDATA2LSB then -1
     else if e_machine h \<noteq> EM_386 then -1
     else if e_type h \<noteq> ET_EXEC \<and> e_type h \<noteq> ET_DYN then -1
     else 0)"

subsection \<open>Segments\<close>

definition in_ram :: "u32 \<Rightarrow> u32 \<Rightarrow> bool" where
  "in_ram a n \<longleftrightarrow> unat a + unat n \<le> 0x1000000"

text \<open>
  One round of the loop of \<open>elf_load_and_exec\<close>, for the program header at \<open>ph\<close>. The fields are read
  from memory at each use, as the code does.
\<close>

definition load_segment :: "u32 \<Rightarrow> u32 \<Rightarrow> memory \<Rightarrow> memory option" where
  "load_segment elf_data ph m =
    (if \<not> in_ram ph 32 then None
     else if p_type (phdr_of m ph) \<noteq> PT_LOAD then Some m
     else
       let dest = p_vaddr (phdr_of m ph) in do {
         m \<leftarrow> (let n = p_filesz (phdr_of m ph); src = elf_data + p_offset (phdr_of m ph)
              in if n = 0 then Some m
                 else if in_ram dest n \<and> in_ram src n then Some (memcpy m dest src n) else None);
         let f = p_filesz (phdr_of m ph); k = p_memsz (phdr_of m ph)
         in if \<not> k > f then Some m
            else if in_ram (dest + f) (k - f) then Some (memset m (dest + f) 0 (k - f)) else None })"

function load_segments :: "u32 \<Rightarrow> u32 \<Rightarrow> nat \<Rightarrow> memory \<Rightarrow> memory option" where
  "load_segments elf_data ph i m =
    (if i < unat (e_phnum (ehdr_of m elf_data))
     then do { m \<leftarrow> load_segment elf_data (ph + 32 * of_nat i) m; load_segments elf_data ph (i + 1) m }
     else Some m)"
  by auto
termination
proof (relation "measure (\<lambda>(e, p, i, m). 2 ^ 16 - i)")
  fix m elf_data i
  have "unat (e_phnum (ehdr_of m elf_data)) < 2 ^ 16" using unsigned_less [of "e_phnum (ehdr_of m elf_data)"] by simp
  then show "\<And>ph x. i < unat (e_phnum (ehdr_of m elf_data)) \<Longrightarrow> ((elf_data, ph, i + 1, x), elf_data, ph, i, m) \<in> measure (\<lambda>(e, p, i, m). 2 ^ 16 - i)"
    by auto
qed simp

declare load_segments.simps [simp del]

text \<open>Marking the program region and the stack page as accessible from ring 3.\<close>

definition map_user_pages :: "'z paging_scheme \<Rightarrow> 'z paging_scheme" where
  "map_user_pages s =
    (let s = fold (\<lambda>i s. let addr = 0x200000 + of_nat i * PAGE_SIZE
                         in paging_map addr addr (PAGE_PRESENT OR PAGE_WRITABLE OR PAGE_USER) s) [0 ..< 256] s
     in paging_map 0x300000 0x300000 (PAGE_PRESENT OR PAGE_WRITABLE OR PAGE_USER) s)"

subsection \<open>What is loaded\<close>

text \<open>
  The program headers of a file, the bytes a segment covers in memory and its contents there. A
  file is loadable if its tables and the data of its segments are within its size and no segment
  covers the buffer with the file or leaves the first 16 MiB.
\<close>

definition phdrs :: "memory \<Rightarrow> u32 \<Rightarrow> elf32_phdr list" where
  "phdrs m elf = map (\<lambda>i. phdr_of m (elf + e_phoff (ehdr_of m elf) + 32 * of_nat i)) [0 ..< unat (e_phnum (ehdr_of m elf))]"

definition loads :: "memory \<Rightarrow> u32 \<Rightarrow> elf32_phdr list" where
  "loads m elf = filter (\<lambda>p. p_type p = PT_LOAD) (phdrs m elf)"

definition seg_len :: "elf32_phdr \<Rightarrow> nat" where
  "seg_len p = max (unat (p_filesz p)) (unat (p_memsz p))"

definition covers :: "elf32_phdr \<Rightarrow> u32 \<Rightarrow> bool" where
  "covers p x \<longleftrightarrow> unat (p_vaddr p) \<le> unat x \<and> unat x < unat (p_vaddr p) + seg_len p"

definition seg_byte :: "memory \<Rightarrow> u32 \<Rightarrow> elf32_phdr \<Rightarrow> u32 \<Rightarrow> u8" where
  "seg_byte m elf p x =
    (let k = unat x - unat (p_vaddr p) in if k < unat (p_filesz p) then m (elf + p_offset p + of_nat k) else 0)"

definition loadable :: "memory \<Rightarrow> u32 \<Rightarrow> nat \<Rightarrow> bool" where
  "loadable m elf sz \<longleftrightarrow> unat elf + sz \<le> 0x1000000 \<and> 52 \<le> sz
     \<and> unat (e_phoff (ehdr_of m elf)) + 32 * unat (e_phnum (ehdr_of m elf)) \<le> sz
     \<and> list_all (\<lambda>p. unat (p_offset p) + unat (p_filesz p) \<le> sz \<and> unat (p_vaddr p) + seg_len p \<le> 0x1000000
          \<and> (unat (p_vaddr p) + seg_len p \<le> unat elf \<or> unat elf + sz \<le> unat (p_vaddr p))) (loads m elf)"

definition overlay :: "memory \<Rightarrow> u32 \<Rightarrow> elf32_phdr \<Rightarrow> memory \<Rightarrow> memory" where
  "overlay m0 elf p m = (\<lambda>x. if p_type p = PT_LOAD \<and> covers p x then seg_byte m0 elf p x else m x)"

definition agree :: "memory \<Rightarrow> memory \<Rightarrow> u32 \<Rightarrow> nat \<Rightarrow> bool" where
  "agree m m' a n \<longleftrightarrow> (\<forall>k < n. m (a + of_nat k) = m' (a + of_nat k))"

lemma agree_word:
  assumes "agree m m' a n" and "unat w < n"
  shows "m (a + w) = m' (a + w)"
  using assms(1) [unfolded agree_def, rule_format, OF assms(2)] by simp

lemma ehdr_of_cong: "agree m m' a 52 \<Longrightarrow> ehdr_of m a = ehdr_of m' a"
  using agree_word [of m m' a 52] agree_word [of m m' a 52 0] by (simp add: ehdr_of_def ld16_def ld32_def agree_def add.assoc)

lemma phdr_of_cong: "agree m m' a 32 \<Longrightarrow> phdr_of m a = phdr_of m' a"
  using agree_word [of m m' a 32] agree_word [of m m' a 32 0] by (simp add: phdr_of_def ld32_def add.assoc)

lemma agree_sub:
  assumes "agree m m' a n" and "unat b + k \<le> n"
  shows "agree m m' (a + b) k"
  unfolding agree_def
proof (intro allI impI)
  fix j assume "j < k"
  then have "a + b + of_nat j = a + of_nat (unat b + j)" by simp
  then show "m (a + b + of_nat j) = m' (a + b + of_nat j)" using assms \<open>j < k\<close> unfolding agree_def by (metis add_less_cancel_left less_le_trans)
qed

text \<open>One segment: as long as the buffer is intact, the segment is laid over the memory.\<close>

lemma load_segment_overlay:
  assumes "agree m m0 elf sz" and "unat elf + sz \<le> 0x1000000" and "unat off + 32 \<le> sz" and "p = phdr_of m0 (elf + off)"
    and "p_type p = PT_LOAD \<Longrightarrow> unat (p_offset p) + unat (p_filesz p) \<le> sz \<and> unat (p_vaddr p) + seg_len p \<le> 0x1000000
       \<and> (unat (p_vaddr p) + seg_len p \<le> unat elf \<or> unat elf + sz \<le> unat (p_vaddr p))"
  shows "load_segment elf (elf + off) m = Some (overlay m0 elf p m)"
proof -
  have p: "phdr_of m' (elf + off) = p" if "agree m' m0 elf sz" for m'
    unfolding assms(4) by (rule phdr_of_cong) (rule agree_sub [OF that assms(3)])
  have "unat (elf + off) = unat elf + unat off" using assms(2,3) by (simp add: unat_add_small)
  then have ram: "in_ram (elf + off) 32" using assms(2,3) by (simp add: in_ram_def)
  show ?thesis
  proof (cases "p_type p = PT_LOAD")
    case False
    then show ?thesis using ram p [OF assms(1)] by (simp add: load_segment_def overlay_def)
  next
    case True
    note ok = assms(5) [OF True]
    define f k d where "f = p_filesz p" and "k = p_memsz p" and "d = p_vaddr p"
    have src: "unat (elf + p_offset p) = unat elf + unat (p_offset p)" using assms(2) ok by (simp add: unat_add_small)
    define m1 where "m1 = (if f = 0 then m else memcpy m d (elf + p_offset p) f)"
    have m1: "m1 x = (if unat d \<le> unat x \<and> unat x < unat d + unat f then m (elf + p_offset p + of_nat (unat x - unat d)) else m x)" for x
    proof (cases "f = 0")
      case False
      have "unat d + unat f \<le> 2 ^ 32" "unat (elf + p_offset p) + unat f \<le> 2 ^ 32"
        "unat d + unat f \<le> unat (elf + p_offset p) \<or> unat (elf + p_offset p) + unat f \<le> unat d"
        using ok assms(2) src by (auto simp: f_def d_def seg_len_def)
      from memcpy_loop_apply [OF this] show ?thesis using False by (simp add: m1_def memcpy_def)
    qed (auto simp: m1_def)
    have "\<not> (unat d \<le> unat (elf + of_nat j) \<and> unat (elf + of_nat j) < unat d + unat f)" if "j < sz" for j
      using ok assms(2) that unat_add_le [of elf sz j] by (auto simp: d_def f_def seg_len_def)
    then have "agree m1 m0 elf sz" using assms(1) by (auto simp: agree_def m1)
    then have p1: "phdr_of m1 (elf + off) = p" by (rule p)
    define m2 where "m2 = (if k > f then memset m1 (d + f) 0 (k - f) else m1)"
    have fk: "unat d + unat f \<le> 0x1000000" "unat d + unat k \<le> 0x1000000" using ok by (auto simp: d_def f_def k_def seg_len_def)
    have df: "unat (d + f) = unat d + unat f" by (rule unat_add_small) (use fk in simp)
    have kf: "unat (k - f) = unat k - unat f" if "f < k" using that by (simp add: unat_sub less_imp_le)
    have "in_ram d f" "in_ram (elf + p_offset p) f" "f < k \<Longrightarrow> in_ram (d + f) (k - f)"
      using fk df kf src ok assms(2) by (auto simp: in_ram_def word_less_nat_alt f_def)
    moreover from this(1,2) have "load_segment elf (elf + off) m =
        (let f' = p_filesz (phdr_of m1 (elf + off)); k' = p_memsz (phdr_of m1 (elf + off))
         in if \<not> k' > f' then Some m1 else if in_ram (d + f') (k' - f') then Some (memset m1 (d + f') 0 (k' - f')) else None)"
      using ram True p [OF assms(1)] by (simp add: load_segment_def m1_def Let_def f_def d_def)
    ultimately have "load_segment elf (elf + off) m = Some m2" by (simp add: p1 m2_def f_def k_def Let_def)
    moreover have "m2 x = overlay m0 elf p m x" for x
    proof -
      have "m2 x = (if unat f < unat k \<and> unat d + unat f \<le> unat x \<and> unat x < unat d + unat k then 0 else m1 x)"
        using df kf fk by (auto simp: m2_def memset_def memset_loop_store_bytes store_bytes_apply word_less_nat_alt)
      moreover have "m (elf + p_offset p + of_nat j) = m0 (elf + p_offset p + of_nat j)" if "j < unat f" for j
        using agree_sub [OF assms(1), of "p_offset p" "unat f"] ok that by (auto simp: agree_def f_def)
      note this [of "unat x - unat d"]
      ultimately show ?thesis using True m1 [of x]
        by (auto simp: overlay_def covers_def seg_byte_def seg_len_def d_def f_def k_def Let_def)
    qed
    ultimately show ?thesis by (simp add: fun_eq_iff)
  qed
qed

lemma overlay_agree:
  assumes "agree m m0 elf sz" and "unat elf + sz \<le> 0x1000000"
    and "p_type p = PT_LOAD \<Longrightarrow> unat (p_vaddr p) + seg_len p \<le> unat elf \<or> unat elf + sz \<le> unat (p_vaddr p)"
  shows "agree (overlay m0 elf p m) m0 elf sz"
  unfolding agree_def
proof (intro allI impI)
  fix j assume "j < sz"
  then have "unat (elf + of_nat j) = unat elf + j" using assms(2) by (intro unat_add_le [of elf sz]) simp_all
  then show "overlay m0 elf p m (elf + of_nat j) = m0 (elf + of_nat j)"
    using assms(1,3) \<open>j < sz\<close> by (auto simp: overlay_def covers_def agree_def)
qed

lemma load_segments_overlay:
  assumes "agree m m0 elf sz" and "loadable m0 elf sz" and "i \<le> length (phdrs m0 elf)"
  shows "load_segments elf (elf + e_phoff (ehdr_of m0 elf)) i m = Some (fold (overlay m0 elf) (drop i (phdrs m0 elf)) m)"
  using assms(1,3)
proof (induction "length (phdrs m0 elf) - i" arbitrary: i m)
  case 0
  then have "ehdr_of m elf = ehdr_of m0 elf"
    using assms(2) by (intro ehdr_of_cong) (auto simp: loadable_def agree_def)
  then show ?case using 0 by (subst load_segments.simps) (simp add: phdrs_def)
next
  case (Suc k)
  let ?h = "ehdr_of m0 elf" and ?p = "phdrs m0 elf ! i"
  have ok: "unat elf + sz \<le> 0x1000000" "52 \<le> sz" "unat (e_phoff ?h) + 32 * unat (e_phnum ?h) \<le> sz" using assms(2) by (simp_all add: loadable_def)
  have h: "ehdr_of m elf = ?h" using Suc.prems(1) ok(2) by (intro ehdr_of_cong) (auto simp: agree_def)
  have i: "i < length (phdrs m0 elf)" using Suc by simp
  then have n: "i < unat (e_phnum ?h)" by (simp add: phdrs_def)
  have "e_phoff ?h + 32 * of_nat i = e_phoff ?h + of_nat (32 * i)" by simp
  moreover have "unat (e_phoff ?h + of_nat (32 * i)) = unat (e_phoff ?h) + 32 * i"
    using ok n by (intro unat_add_le [of _ "32 * unat (e_phnum ?h)"]) simp_all
  ultimately have off: "unat (e_phoff ?h + 32 * of_nat i) + 32 \<le> sz" using n ok(3) by simp
  have p: "?p = phdr_of m0 (elf + (e_phoff ?h + 32 * of_nat i))" using n by (simp add: phdrs_def add.assoc)
  have P: "p_type ?p = PT_LOAD \<Longrightarrow> unat (p_offset ?p) + unat (p_filesz ?p) \<le> sz \<and> unat (p_vaddr ?p) + seg_len ?p \<le> 0x1000000
      \<and> (unat (p_vaddr ?p) + seg_len ?p \<le> unat elf \<or> unat elf + sz \<le> unat (p_vaddr ?p))"
    using assms(2) i by (auto simp: loadable_def list_all_iff loads_def)
  have l: "load_segment elf (elf + e_phoff ?h + 32 * of_nat i) m = Some (overlay m0 elf ?p m)"
    unfolding add.assoc by (rule load_segment_overlay [OF Suc.prems(1) ok(1) off p P])
  have "agree (overlay m0 elf ?p m) m0 elf sz" using overlay_agree [OF Suc.prems(1) ok(1)] P by blast
  then show ?case using Suc.hyps(1) [of "Suc i" "overlay m0 elf ?p m"] Suc.hyps(2) i n h l
    by (subst load_segments.simps) (simp add: Cons_nth_drop_Suc [symmetric])
qed

lemma fold_overlay:
  "fold (overlay m0 elf) ps m x = (case find (\<lambda>p. covers p x) (rev (filter (\<lambda>p. p_type p = PT_LOAD) ps)) of
     None \<Rightarrow> m x | Some p \<Rightarrow> seg_byte m0 elf p x)"
proof (induction ps arbitrary: m)
  case (Cons p ps)
  have "find P (xs @ [y]) = (case find P xs of None \<Rightarrow> if P y then Some y else None | r \<Rightarrow> r)" for P xs and y :: elf32_phdr
    by (induction xs) auto
  then show ?case using Cons by (auto simp: overlay_def split: option.split)
qed simp

text \<open>
  C36: loading a program. For every file whose tables and data are within the file and whose segments
  keep off the buffer, the loader returns and the memory is then the old one with the segments laid
  over it: a byte covered by a segment (the last one, if several cover it) is the byte of the file at
  the segment's offset, or zero behind the part that is in the file; all other bytes are unchanged.
\<close>

theorem load_segments_exact:
  assumes "loadable m elf sz"
  shows "load_segments elf (elf + e_phoff (ehdr_of m elf)) 0 m = Some (\<lambda>x.
    case find (\<lambda>p. covers p x) (rev (loads m elf)) of
      None \<Rightarrow> m x
    | Some p \<Rightarrow> (let k = unat x - unat (p_vaddr p) in if k < unat (p_filesz p) then m (elf + p_offset p + of_nat k) else 0))"
  using load_segments_overlay [OF _ assms, of m 0]
  by (simp add: agree_def fun_eq_iff fold_overlay loads_def seg_byte_def split: option.split)

subsection \<open>The pages of a program\<close>

definition in_user :: "u32 \<Rightarrow> bool" where
  "in_user a \<longleftrightarrow> 0x200000 \<le> a \<and> a < 0x301000"

definition user_addrs :: "u32 list" where
  "user_addrs = map (\<lambda>i. 0x200000 + of_nat i * PAGE_SIZE) [0 ..< 257]"

lemma map_user_pages_fold: "map_user_pages s = fold (\<lambda>a. paging_map a a 7) user_addrs s"
proof -
  have "[0 ..< 257] = [0 ..< 256] @ [256 :: nat]" by (simp add: upt_Suc_append [of 0 256, simplified])
  then show ?thesis by (simp add: map_user_pages_def user_addrs_def fold_map comp_def Let_def)
qed

lemma same_page_frame: "same_page a w \<longleftrightarrow> unat a div 4096 = unat w div 4096"
proof -
  have i: "unat (PD_INDEX v) = unat v div 4096 div 1024" "unat (PT_INDEX v) = unat v div 4096 mod 1024" for v
    by (simp_all add: unat_index div_mult2_eq [symmetric])
  have "p div 1024 = q div 1024 \<and> p mod 1024 = q mod 1024 \<longleftrightarrow> p = q" for p q :: nat by (metis div_mult_mod_eq)
  then show ?thesis unfolding same_page_def u32_eq_unat i .
qed

lemma user_addrs_pages: "(\<exists>a \<in> set user_addrs. same_page a w) \<longleftrightarrow> in_user w"
proof -
  have a: "unat (0x200000 + of_nat i * PAGE_SIZE :: u32) div 4096 = 512 + i" if "i < 257" for i
  proof -
    have "(0x200000 + of_nat i * PAGE_SIZE :: u32) = of_nat (4096 * (512 + i))" by simp
    moreover have "unat (of_nat (4096 * (512 + i)) :: u32) = 4096 * (512 + i)" using that by (intro unat_of_nat_u32) simp
    ultimately show ?thesis by (simp only: nonzero_mult_div_cancel_left)
  qed
  have "(\<exists>a \<in> set user_addrs. same_page a w) \<longleftrightarrow> (\<exists>i < 257. unat w div 4096 = 512 + i)"
    by (auto simp: user_addrs_def same_page_frame a)
  also have "\<dots> \<longleftrightarrow> 512 \<le> unat w div 4096 \<and> unat w div 4096 < 769"
    by (auto intro: exI [of _ "unat w div 4096 - 512"])
  also have "\<dots> \<longleftrightarrow> in_user w" by (simp add: in_user_def word_le_nat_alt word_less_nat_alt less_eq_div_iff_mult_less_eq div_less_iff_less_mult)
  finally show ?thesis .
qed

lemma user_addrs_index: "a \<in> set user_addrs \<Longrightarrow> PD_INDEX a = 0"
proof -
  assume "a \<in> set user_addrs"
  then have "in_user a" using user_addrs_pages [of a] by (auto simp: same_page_def)
  then have "unat (PD_INDEX a) = 0" by (simp add: unat_index in_user_def word_less_nat_alt)
  then show ?thesis by (simp add: unat_eq_0)
qed

lemma same_page_PAGE_FRAME: "same_page a w \<Longrightarrow> PAGE_FRAME a = PAGE_FRAME w"
  using frame_of_index [of a] frame_of_index [of w] by (simp add: same_page_def)

lemma user_entry: "odd (e OR 7 :: u32)" "bit (e OR 7 :: u32) 2" "PAGE_FRAME (PAGE_FRAME w OR 7) = PAGE_FRAME w"
proof -
  have m: "7 = (mask 3 :: u32)" by (simp add: mask_eq_exp_minus_1)
  show "odd (e OR 7)" "bit (e OR 7) 2" unfolding m by (simp_all add: bit_0 [symmetric] bit_simps)
  show "PAGE_FRAME (PAGE_FRAME w OR 7) = PAGE_FRAME w"
    unfolding m PAGE_FRAME_def frame_mask by (rule bit_word_eqI) (auto simp: bit_simps)
qed

lemma map_pages:
  assumes "paging_ok s" and "odd (pde s 0)" and "\<And>a. a \<in> set as \<Longrightarrow> PD_INDEX a = 0"
  shows "paging_ok (fold (\<lambda>a. paging_map a a 7) as s) \<and> odd (pde (fold (\<lambda>a. paging_map a a 7) as s) 0)
    \<and> (\<forall>w. pte (fold (\<lambda>a. paging_map a a 7) as s) w = (if \<exists>a \<in> set as. same_page a w then PAGE_FRAME w OR 7 else pte s w))
    \<and> (bit (pde (fold (\<lambda>a. paging_map a a 7) as s) 0) 2 \<longleftrightarrow> as \<noteq> [] \<or> bit (pde s 0) 2)
    \<and> kernel_page_directory (fold (\<lambda>a. paging_map a a 7) as s) = kernel_page_directory s"
  using assms
proof (induction as arbitrary: s)
  case (Cons a as)
  let ?s = "paging_map a a 7 s"
  have a: "PD_INDEX a = 0" using Cons.prems(3) by simp
  then have can: "can_map s a" using Cons.prems(2) by (simp add: can_map_def)
  note map = paging_map_ok [OF Cons.prems(1) can, where phys = a and flags = 7]
  have pte: "pte ?s w = (if same_page a w then PAGE_FRAME w OR 7 else pte s w)" for w
    using map(2) [of w] same_page_PAGE_FRAME [of a w] by (auto simp: PAGE_FRAME_def or.assoc)
  have "odd (pte ?s a)" using pte [of a] user_entry(1) by (simp add: same_page_def)
  then have "odd (pde ?s 0)" by (auto simp: pte_def a split: if_splits)
  moreover have "bit (pde ?s 0) 2" using map(3) [where i = 0] by (simp add: a)
  ultimately show ?case using Cons.IH [OF map(1)] Cons.prems(3) pte map(4) by auto
qed auto

text \<open>
  C37: opening the pages of a program opens exactly these. If the program region is mapped to itself
  and no page outside of it carries the user flag in its entry, then afterwards every address from
  0x200000 to 0x300FFF is accessible from ring 3 and no other one is, and no translation changes.
\<close>

theorem map_user_pages_exact:
  assumes "paging_ok s" and "odd (pde s 0)" and "\<forall>w. in_user w \<longrightarrow> paging_get_phys w s = w"
    and "\<forall>w. bit (pte s w) 2 \<longrightarrow> in_user w"
  shows "paging_ok (map_user_pages s) \<and> (\<forall>w. user_page (map_user_pages s) w \<longleftrightarrow> in_user w)
    \<and> (\<forall>w. paging_get_phys w (map_user_pages s) = paging_get_phys w s)"
proof -
  note m = map_pages [OF assms(1,2), of user_addrs, folded map_user_pages_fold, OF user_addrs_index]
  have pte: "pte (map_user_pages s) w = (if in_user w then PAGE_FRAME w OR 7 else pte s w)" for w
    using m by (simp add: user_addrs_pages)
  have ne: "user_addrs \<noteq> []" by (simp add: user_addrs_def)
  have "user_page (map_user_pages s) w \<longleftrightarrow> in_user w" for w
  proof (cases "in_user w")
    case True
    then have "PD_INDEX w = 0" by (simp add: in_user_def word_less_nat_alt unat_eq_0 [symmetric] unat_index)
    moreover have "bit (pde (map_user_pages s) 0) 2" using m ne by blast
    moreover have "odd (pte (map_user_pages s) w) \<and> bit (pte (map_user_pages s) w) 2" unfolding pte using True user_entry by simp
    ultimately show ?thesis using True by (simp add: user_page_def)
  qed (use assms(4) pte in \<open>auto simp: user_page_def\<close>)
  moreover have "paging_get_phys w (map_user_pages s) = paging_get_phys w s" for w
    using spec [OF assms(3), of w] user_entry
    by (cases "in_user w") (simp_all add: paging_get_phys_pte [of w "map_user_pages s"] pte frame_and_offset, simp add: paging_get_phys_pte)
  ultimately show ?thesis using m by blast
qed

subsection \<open>Witnesses\<close>

text \<open>A file with one segment: four bytes of code and four bytes that are zeroed, at 0x200000.\<close>

definition demo_elf :: "u8 list" where
  "demo_elf = [0x7F, 0x45, 0x4C, 0x46, 1, 1, 1, 0, 0, 0, 0, 0, 0, 0, 0, 0,
     2, 0, 3, 0, 1, 0, 0, 0, 0, 0, 0x20, 0, 52, 0, 0, 0, 0, 0, 0, 0, 0, 0, 0, 0, 52, 0, 32, 0, 1, 0, 0, 0, 0, 0, 0, 0,
     1, 0, 0, 0, 84, 0, 0, 0, 0, 0, 0x20, 0, 0, 0, 0x20, 0, 4, 0, 0, 0, 8, 0, 0, 0, 5, 0, 0, 0, 0, 0x10, 0, 0,
     0xB8, 2, 0, 0xCD]"

definition demo_mem :: memory where
  "demo_mem a = (let k = unat (a - 0x10000) in if k < 88 then demo_elf ! k else 0xAA)"

lemma demo_loadable: "loadable demo_mem 0x10000 88" "e_phoff (ehdr_of demo_mem 0x10000) = 52"
    "loads demo_mem 0x10000 = [\<lparr>p_type = 1, p_offset = 84, p_vaddr = 0x200000, p_paddr = 0x200000, p_filesz = 4, p_memsz = 8, p_flags = 5, p_align = 0x1000\<rparr>]"
proof -
  have h: "e_phoff (ehdr_of demo_mem 0x10000) = 52" "e_phnum (ehdr_of demo_mem 0x10000) = 1"
    by (simp_all add: ehdr_of_def ld32_def ld16_def demo_mem_def demo_elf_def)
  show l: "loads demo_mem 0x10000 = [\<lparr>p_type = 1, p_offset = 84, p_vaddr = 0x200000, p_paddr = 0x200000, p_filesz = 4, p_memsz = 8, p_flags = 5, p_align = 0x1000\<rparr>]"
    by (simp add: loads_def phdrs_def h phdr_of_def ld32_def demo_mem_def demo_elf_def)
  show "loadable demo_mem 0x10000 88" by (simp add: loadable_def h l seg_len_def)
  show "e_phoff (ehdr_of demo_mem 0x10000) = 52" by (rule h)
qed

theorem load_segments_exact_witness:
  "map_option (\<lambda>m. map m [0x1FFFFF, 0x200000, 0x200003, 0x200004, 0x200007, 0x200008]) (load_segments 0x10000 0x10034 0 demo_mem) =
    Some [0xAA, 0xB8, 0xCD, 0, 0, 0xAA]"
  using load_segments_exact [OF demo_loadable(1)]
  by (simp add: demo_loadable covers_def seg_len_def demo_mem_def demo_elf_def Let_def)

lemma boot_paging_identity:
  "odd (pde boot_paging 0)" "\<not> bit (pte boot_paging v) 2" "in_user v \<Longrightarrow> paging_get_phys v boot_paging = v"
proof -
  have pte: "pte boot_paging w = (if unat w < 2 ^ 24 then ident w else 0)" for w
    unfolding boot_paging_def by (rule paging_init_ok(2) [OF boot_paging0_ok])
  have three: "\<not> bit (PAGE_FRAME w OR PAGE_PRESENT OR PAGE_WRITABLE) 2" for w
    unfolding PAGE_FRAME_def frame_mask by (simp add: bit_simps bit_flags)
  have i: "odd (ident w)" "PAGE_FRAME (ident w) = PAGE_FRAME w" for w
    using entry_frame(2) [of "PAGE_FRAME w"] entry_present(2) [of "PAGE_FRAME w"] by (simp_all add: ident_def PAGE_FRAME_aligned)
  show "\<not> bit (pte boot_paging v) 2" using three [of v] by (simp add: pte ident_def)
  have "odd (pte boot_paging 0)" unfolding pte using i by simp
  then show "odd (pde boot_paging 0)" by (auto simp: pte_def PD_INDEX_def split: if_splits)
  show "in_user v \<Longrightarrow> paging_get_phys v boot_paging = v"
    using i by (simp add: paging_get_phys_pte pte in_user_def word_less_nat_alt frame_and_offset)
qed

theorem map_user_pages_exact_witness:
  "user_page (map_user_pages boot_paging) 0x200000 \<and> \<not> user_page (map_user_pages boot_paging) 0x301000"
  using map_user_pages_exact [of boot_paging] boot_paging_ok boot_paging_identity by (simp add: in_user_def)

end
