(* ===== verification/Syscall.thy ===== *)
theory Syscall
  imports Process Keyboard Vga Serial Args Fat32 Gdt Idt Elf
begin

text \<open>
  The system calls (kernel/syscall.c) and the part of kernel/elf.c that enters and leaves programs, on
  the state of the whole kernel. A call that waits takes the interrupts that arrive from the
  environment; a program that is started runs in ring 3 until it comes back with the exit call,
  which continues behind the call of \<open>elf_load_and_exec\<close> that started it.
\<close>

subsection \<open>Environment\<close>

text \<open>
  What the compiler, the linker and the hardware decide: the ports, the next interrupt that arrives
  while the processor waits (None if none ever comes), the addresses of the large static buffers
  and of the tables, and the kernel stack: the stack pointer in \<open>elf_load_and_exec\<close> when it is called
  by \<open>execute_command\<close>, and the number of bytes between the stack pointer an entry from ring 3
  starts with and the one in \<open>elf_load_and_exec\<close> when it is called by the exec system call.
\<close>

record 'd env =
  io :: "'d bus"
  next_irq :: "'d \<Rightarrow> (u32 \<times> 'd) option"
  binary_buffer :: u32
  exec_buffer :: u32
  saved_program :: u32
  shell_esp :: u32
  exec_stack_use :: u32
  kernel_end :: u32
  kernel_main_at :: u32
  gdt_at :: u32
  tss_at :: u32
  idt_at :: u32
  isr_at :: "nat \<Rightarrow> u32"

text \<open>
  Who called \<open>elf_load_and_exec\<close>: \<open>kernel_main\<close> for the first program, the kernel shell, or a program
  with these registers through the exec system call. With the saved value of \<open>esp\<close> this is what an
  \<open>exec_jmp_buf\<close> leads back to.
\<close>

datatype caller = At_Boot | At_Prompt | In_Program regs

record exec_jmp_buf =
  jb_caller :: caller
  jb_esp0 :: u32

text \<open>
  The state of the kernel: the memory side extended by the state of the devices' drivers, of the file
  system, of the tables, and by the static variables of args.c, syscall.c, elf.c and kernel.c. The
  registers of the program that runs in ring 3 are \<open>user\<close>. \<open>current_file\<close> tells whether the pointer is
  set; it can only point to the one static handle of fat32.c.
\<close>

record kernel = process +
  keyb :: keyboard
  screen :: vga
  disk :: fat32
  segments :: gdt_state
  ints :: idt_state
  current_program_args :: program_args
  current_file :: bool
  exec_stack :: "exec_jmp_buf list"
  exec_depth :: nat
  user :: regs
  shell_cmd_buf :: "u8 list"
  shell_cmd_pos :: nat

type_synonym 'd sys = "kernel \<times> 'd"

abbreviation (input) MAX_EXEC_DEPTH :: nat where "MAX_EXEC_DEPTH \<equiv> 8"

subsection \<open>Console\<close>

definition kputs :: "'d env \<Rightarrow> cstring \<Rightarrow> 'd sys \<Rightarrow> 'd sys" where
  "kputs E t x = (case x of (s, d) \<Rightarrow> let (d, v) = vga_puts (io E) t (screen s) d in (s\<lparr>screen := v\<rparr>, d))"

definition kputhex :: "'d env \<Rightarrow> u32 \<Rightarrow> 'd sys \<Rightarrow> 'd sys" where
  "kputhex E n x = (case x of (s, d) \<Rightarrow> let (d, v) = vga_puthex (io E) n (screen s) d in (s\<lparr>screen := v\<rparr>, d))"

definition kputchar :: "'d env \<Rightarrow> u8 \<Rightarrow> 'd sys \<Rightarrow> 'd sys" where
  "kputchar E c x = (case x of (s, d) \<Rightarrow> let (d, v) = vga_putchar (io E) c (screen s) d in (s\<lparr>screen := v\<rparr>, d))"

definition kcolor :: "vga_color_code \<Rightarrow> 'd sys \<Rightarrow> 'd sys" where
  "kcolor fg x = (case x of (s, d) \<Rightarrow> (s\<lparr>screen := vga_set_color fg VGA_COLOR_BLACK (screen s)\<rparr>, d))"

definition kserial :: "'d env \<Rightarrow> cstring \<Rightarrow> 'd sys \<Rightarrow> 'd sys option" where
  "kserial E t x = (case x of (s, d) \<Rightarrow> do { d \<leftarrow> serial_puts (io E) SERIAL_COM1 t d; Some (s, d) })"

subsection \<open>Strings of programs\<close>

text \<open>
  The memory that pointers of programs may lead to. The kernel itself lies below 0x200000: its
  variables, its stack and the video memory are fields of the state, not bytes of \<open>mem\<close>, so that what
  a pointer to them reads or overwrites is not described; behind the first 16 MiB nothing is mapped,
  and the kernel halts with a page fault. In both cases the result is None: there is no next state.
\<close>

definition described :: "u32 \<Rightarrow> nat \<Rightarrow> bool" where
  "described a n \<longleftrightarrow> 0x200000 \<le> unat a \<and> unat a + n \<le> 0x1000000"

text \<open>
  A string that a program passes is read from memory, up to its end; \<open>read_strn\<close> stops after n
  characters.
\<close>

function read_str :: "memory \<Rightarrow> u32 \<Rightarrow> cstring option" where
  "read_str m a =
    (if \<not> described a 1 then None
     else if m a = 0 then Some []
     else map_option (Cons (m a)) (read_str m (a + 1)))"
  by auto
termination
proof (relation "measure (\<lambda>(m, a). 0x1000000 - unat a)")
  fix m :: memory and a :: u32
  assume "\<not> \<not> described a 1"
  then have "unat a < 0x1000000" by (simp add: described_def)
  then show "((m, a + 1), m, a) \<in> measure (\<lambda>(m, a). 0x1000000 - unat a)" by (simp add: unat_add_small)
qed simp

declare read_str.simps [simp del]

fun read_strn :: "nat \<Rightarrow> memory \<Rightarrow> u32 \<Rightarrow> cstring option" where
  "read_strn 0 m a = (if \<not> described a 1 then None else Some [])"
| "read_strn (Suc n) m a =
    (if \<not> described a 1 then None
     else if m a = 0 then Some []
     else map_option (Cons (m a)) (read_strn n m (a + 1)))"

definition to_upper :: "u8 \<Rightarrow> u8" where
  "to_upper ch = (if ord_c CHR ''a'' \<le> ch \<and> ch \<le> ord_c CHR ''z'' then ch - 32 else ch)"

text \<open>Storing bytes that the kernel copies to a program.\<close>

definition copy_out :: "u32 \<Rightarrow> u8 list \<Rightarrow> kernel \<Rightarrow> kernel option" where
  "copy_out a bs s =
    (if bs = [] \<or> described a (length bs) then Some (s\<lparr>mem := store_bytes (mem s) a bs\<rparr>) else None)"

subsection \<open>Interrupts while the kernel waits\<close>

definition eoi :: "'d env \<Rightarrow> u32 \<Rightarrow> 'd \<Rightarrow> 'd" where
  "eoi E n d =
    (let d = (if n \<ge> 40 then outb (io E) 0xA0 0x20 d else d)
     in if n \<ge> 32 then outb (io E) 0x20 0x20 d else d)"

definition irq_handler :: "'d env \<Rightarrow> u32 \<Rightarrow> 'd sys \<Rightarrow> 'd sys" where
  "irq_handler E n x =
    (case x of (s, d) \<Rightarrow>
      if n = 32 then
        let s = s\<lparr>ints := (ints s)\<lparr>pit_ticks := pit_ticks (ints s) + 1\<rparr>\<rparr>
        in if pit_ticks (ints s) mod 10 = 0 then (schedule s, outb (io E) 0x20 0x20 d)
           else (s, eoi E n d)
      else if n = 33 then
        let (d, k) = keyboard_irq_handler (io E) d (keyb s) in (s\<lparr>keyb := k\<rparr>, eoi E n d)
      else (s, eoi E n d))"

text \<open>\<open>hlt\<close> waits for the next interrupt, which is handled before the next instruction.\<close>

definition hlt :: "'d env \<Rightarrow> 'd sys \<Rightarrow> 'd sys option" where
  "hlt E x = (case x of (s, d) \<Rightarrow> do { (n, d) \<leftarrow> next_irq E d; Some (irq_handler E n (s, d)) })"

partial_function (option) sleep_loop :: "'d env \<Rightarrow> u32 \<Rightarrow> 'd sys \<Rightarrow> 'd sys option" where
  "sleep_loop E target x =
    (if pit_ticks (ints (fst x)) < target then do { x \<leftarrow> hlt E x; sleep_loop E target x } else Some x)"

definition sleep_ms :: "'d env \<Rightarrow> u32 \<Rightarrow> 'd sys \<Rightarrow> 'd sys option" where
  "sleep_ms E ms x =
    (let ticks_to_wait = ms div 10;
         ticks_to_wait = (if ticks_to_wait = 0 then 1 else ticks_to_wait);
         target = pit_ticks (ints (fst x)) + ticks_to_wait
     in sleep_loop E target x)"

partial_function (option) getchar_loop :: "'d env \<Rightarrow> 'd sys \<Rightarrow> (u32 \<times> 'd sys) option" where
  "getchar_loop E x =
    (let (s, d) = x;
         (c, k) = keyboard_getchar (keyb s);
         s = s\<lparr>keyb := k\<rparr>
     in if c \<noteq> 0 then Some (ucast c, s, d)
        else
          let (r, d) = serial_received (io E) SERIAL_COM1 d
          in if r \<noteq> 0 then do {
               (c, d) \<leftarrow> serial_getchar (io E) SERIAL_COM1 d;
               let c = (if c = 13 then 10 else c)
               in if c \<noteq> 0 then Some (ucast c, s, d) else do { x \<leftarrow> hlt E (s, d); getchar_loop E x } }
             else do { x \<leftarrow> hlt E (s, d); getchar_loop E x })"

subsection \<open>Entering and leaving programs\<close>

text \<open>
  \<open>elf_load_and_exec\<close> up to the \<open>iret\<close>: either it returns an error (False), or the program runs (True).
  The registers that \<open>iret\<close> does not load keep values of the kernel, which are not tracked. A file
  with a segment over the memory of the kernel itself has no described outcome (the code does not
  check the addresses).
\<close>

definition elf_load_and_exec :: "'d env \<Rightarrow> caller \<Rightarrow> u32 \<Rightarrow> 'd sys \<Rightarrow> (bool \<times> 'd sys) option" where
  "elf_load_and_exec E who elf_data x =
    (if elf_validate_header (ehdr_of (mem (fst x)) elf_data) \<noteq> 0 then
       Some (False, kputs E (str ''Invalid ELF header'' @ [10]) x)
     else if \<not> list_all (\<lambda>p. seg_len p = 0 \<or> described (p_vaddr p) (seg_len p)) (loads (mem (fst x)) elf_data) then None
     else do {
       m \<leftarrow> load_segments elf_data (elf_data + e_phoff (ehdr_of (mem (fst x)) elf_data)) 0 (mem (fst x));
       let entry = e_entry (ehdr_of m elf_data);
           x = ((fst x)\<lparr>mem := m\<rparr>, snd x);
           x = kputs E [10] (kputhex E entry (kputs E (str ''Executing binary at '') x));
           (s, d) = x
       in if exec_depth s \<ge> MAX_EXEC_DEPTH then
            Some (False, kputs E (str ''exec: max nesting depth reached'' @ [10]) x)
          else
            let s = map_user_pages s;
                depth = exec_depth s;
                esp_now = (case who of In_Program r \<Rightarrow> tss_esp0 (tss (segments s)) - exec_stack_use E | _ \<Rightarrow> shell_esp E);
                s = s\<lparr>exec_depth := depth + 1,
                      exec_stack := (exec_stack s)[depth := \<lparr>jb_caller = who, jb_esp0 = esp_now\<rparr>],
                      segments := tss_set_kernel_stack esp_now (segments s),
                      user := (user s)\<lparr>eip := entry, esp := 0x301000, interrupts := True\<rparr>\<rparr>
            in Some (True, s, d) })"

text \<open>
  The way back: \<open>elf_return_to_kernel\<close> jumps to the latest \<open>exec_setjmp\<close>, behind which
  \<open>elf_load_and_exec\<close> pops its entry, sets the kernel stack and returns 0 to its caller.
\<close>

definition elf_returned :: "kernel \<Rightarrow> caller \<times> kernel" where
  "elf_returned s =
    (let buf = exec_stack s ! (exec_depth s - 1)
     in (jb_caller buf, s\<lparr>exec_depth := exec_depth s - 1, segments := tss_set_kernel_stack (jb_esp0 buf) (segments s)\<rparr>))"

subsection \<open>The system calls\<close>

text \<open>
  How a system call ends: it returns a value to the program, it starts another program, or the
  program is over and its caller goes on.
\<close>

datatype sys_end = Returned u32 | Started | Exited caller

abbreviation (input) SAVE_SIZE :: nat where "SAVE_SIZE \<equiv> 0x101000"

definition sys_print :: "'d env \<Rightarrow> u32 \<Rightarrow> 'd sys \<Rightarrow> (sys_end \<times> 'd sys) option" where
  "sys_print E arg1 x =
    (if arg1 = 0 then Some (Returned 0, x)
     else do {
       t \<leftarrow> read_str (mem (fst x)) arg1;
       x \<leftarrow> kserial E t (kputs E t (kcolor VGA_COLOR_WHITE x));
       Some (Returned 0, x) })"

definition sys_exit :: "'d env \<Rightarrow> u32 \<Rightarrow> 'd sys \<Rightarrow> sys_end \<times> 'd sys" where
  "sys_exit E arg1 x =
    (let x = kcolor VGA_COLOR_LIGHT_CYAN x;
         x = kputs E ([10] @ str ''[Program exited with code: '') x;
         x = kputs E (str '']'' @ [10]) (kputhex E arg1 x);
         (s, d) = x
     in if exec_depth s > 0 then let (who, s) = elf_returned s in (Exited who, s, d)
        else (Returned 0, s, d))"

definition sys_file_open :: "'d env \<Rightarrow> u32 \<Rightarrow> 'd sys \<Rightarrow> (sys_end \<times> 'd sys) option" where
  "sys_file_open E arg1 x =
    (case x of (s, d) \<Rightarrow>
      if arg1 = 0 then Some (Returned (-1), s, d)
      else do {
        let s = (if current_file s then s\<lparr>disk := fat32_close True (disk s), current_file := False\<rparr> else s);
        filename \<leftarrow> read_strn 255 (mem s) arg1;
        (found, f, d) \<leftarrow> fat32_open (io E) (map to_upper filename) (disk s) d;
        Some (Returned (if found then 0 else -1), s\<lparr>disk := f, current_file := found\<rparr>, d) })"

definition sys_file_read :: "'d env \<Rightarrow> u32 \<Rightarrow> u32 \<Rightarrow> 'd sys \<Rightarrow> (sys_end \<times> 'd sys) option" where
  "sys_file_read E arg1 arg2 x =
    (case x of (s, d) \<Rightarrow>
      if arg1 = 0 \<or> \<not> current_file s then Some (Returned (-1), s, d)
      else do {
        (n, bs, f, d) \<leftarrow> fat32_read (io E) True arg2 (disk s) d;
        s \<leftarrow> copy_out arg1 bs (s\<lparr>disk := f\<rparr>);
        Some (Returned (if n < 0 then -1 else of_int n), s, d) })"

definition sys_file_close :: "'d sys \<Rightarrow> sys_end \<times> 'd sys" where
  "sys_file_close x =
    (case x of (s, d) \<Rightarrow>
      if \<not> current_file s then (Returned (-1), s, d)
      else (Returned 0, s\<lparr>disk := fat32_close True (disk s), current_file := False\<rparr>, d))"

text \<open>
  An entry of the listing in memory: 24 bytes, the name with its NUL at the start, the size at offset
  16, the directory flag at offset 20; the bytes between are not written.
\<close>

fun store_dirinfos :: "u32 \<Rightarrow> fat32_dirinfo list \<Rightarrow> kernel \<Rightarrow> kernel option" where
  "store_dirinfos a [] s = Some s"
| "store_dirinfos a (i # is) s =
    (if described a 21 then
       let m = store_bytes (mem s) a (di_name i @ [0]);
           m = st32 m (a + 16) (di_size i);
           m = m(a + 20 := di_is_directory i)
       in store_dirinfos (a + 24) is (s\<lparr>mem := m\<rparr>)
     else None)"

definition sys_list_dir :: "'d env \<Rightarrow> u32 \<Rightarrow> u32 \<Rightarrow> 'd sys \<Rightarrow> (sys_end \<times> 'd sys) option" where
  "sys_list_dir E arg1 arg2 x =
    (case x of (s, d) \<Rightarrow>
      if arg1 = 0 \<or> arg2 = 0 then Some (Returned (-1), s, d)
      else do {
        (n, is, f, d) \<leftarrow> fat32_list_dir (io E) arg1 (sint arg2) (disk s) d;
        s \<leftarrow> store_dirinfos arg1 is (s\<lparr>disk := f\<rparr>);
        Some (Returned (if n < 0 then -1 else of_int n), s, d) })"

definition sys_get_args :: "u32 \<Rightarrow> u32 \<Rightarrow> u32 \<Rightarrow> 'd sys \<Rightarrow> (sys_end \<times> 'd sys) option" where
  "sys_get_args arg1 arg2 arg3 x =
    (case x of (s, d) \<Rightarrow>
      let a = current_program_args s; arg_idx = sint arg1
      in if arg_idx = -1 then Some (Returned (of_nat (count a)), s, d)
         else if arg2 = 0 \<or> arg3 = 0 then Some (Returned (-1), s, d)
         else if arg_idx < 0 \<or> arg_idx \<ge> int (count a) then Some (Returned (-1), s, d)
         else do {
           s \<leftarrow> copy_out arg2 (take (unat (arg3 - 1)) (cstr (args a ! nat arg_idx)) @ [0]) s;
           Some (Returned 0, s, d) })"

text \<open>
  The exec call up to the check of the magic number: it either returns an error code or leaves the
  file in \<open>exec_buffer\<close>.
\<close>

definition exec_fetch :: "'d env \<Rightarrow> u32 \<Rightarrow> 'd sys \<Rightarrow> (u32 option \<times> 'd sys) option" where
  "exec_fetch E arg1 x =
    (case x of (s, d) \<Rightarrow>
      if arg1 = 0 then Some (Some (-1), s, d)
      else do {
        cmd \<leftarrow> read_str (mem s) arg1;
        let (program_name, a) = parse_command_line cmd (replicate 64 0) (current_program_args s);
        let s = s\<lparr>current_program_args := a\<rparr>;
        let filename = map to_upper (take 11 (cstr program_name));
        (found, f, d) \<leftarrow> fat32_open (io E) filename (disk s) d;
        let s = s\<lparr>disk := f\<rparr>;
        if \<not> found then Some (Some (-1), s, d)
        else if f_size (fs_file f) > 65536 then Some (Some (-2), s\<lparr>disk := fat32_close True f\<rparr>, d)
        else do {
          (n, bs, f, d) \<leftarrow> fat32_read (io E) True (f_size (fs_file f)) f d;
          let s = s\<lparr>disk := fat32_close True f, mem := store_bytes (mem s) (exec_buffer E) bs\<rparr>;
          if n \<le> 0 then Some (Some (-3), s, d)
          else if mem s (exec_buffer E) \<noteq> 0x7F \<or> mem s (exec_buffer E + 1) \<noteq> ord_c CHR ''E'' \<or>
            mem s (exec_buffer E + 2) \<noteq> ord_c CHR ''L'' \<or> mem s (exec_buffer E + 3) \<noteq> ord_c CHR ''F''
          then Some (Some (-4), s, d)
          else Some (None, s, d) } })"

text \<open>
  The caller is saved in \<open>saved_program\<close>. The model keeps every byte of it; on the machine the buffer may
  cover the video memory and the ROM at 0xA0000-0xFFFFF, where stores are not kept.
\<close>

definition sys_exec :: "'d env \<Rightarrow> u32 \<Rightarrow> 'd sys \<Rightarrow> (sys_end \<times> 'd sys) option" where
  "sys_exec E arg1 x = do {
     (err, s, d) \<leftarrow> exec_fetch E arg1 x;
     case err of
       Some code \<Rightarrow> Some (Returned code, s, d)
     | None \<Rightarrow> do {
         let s = s\<lparr>mem := memcpy_loop (mem s) (saved_program E) 0x200000 SAVE_SIZE\<rparr>;
         (ok, s, d) \<leftarrow> elf_load_and_exec E (In_Program (user s)) (exec_buffer E) (s, d);
         if ok then Some (Started, s, d)
         else Some (Returned (-5), s\<lparr>mem := memcpy_loop (mem s) 0x200000 (saved_program E) SAVE_SIZE\<rparr>, d) } }"

text \<open>The end of the exec call, when the program it started is over.\<close>

definition sys_exec_resume :: "'d env \<Rightarrow> regs \<Rightarrow> kernel \<Rightarrow> kernel" where
  "sys_exec_resume E r s =
    s\<lparr>mem := memcpy_loop (mem s) 0x200000 (saved_program E) SAVE_SIZE, user := r\<lparr>eax := 0\<rparr>\<rparr>"

definition sys_clear :: "'d env \<Rightarrow> 'd sys \<Rightarrow> sys_end \<times> 'd sys" where
  "sys_clear E x = (case x of (s, d) \<Rightarrow> let (d, v) = vga_clear (io E) (screen s) d in (Returned 0, s\<lparr>screen := v\<rparr>, d))"

definition sys_meminfo :: "u32 \<Rightarrow> kernel \<Rightarrow> u32" where
  "sys_meminfo arg1 s =
    (if arg1 = 0 then pmm_get_free_count s else if arg1 = 1 then pmm_get_total_count
     else if arg1 = 2 then PAGE_SIZE else -1)"

definition sys_heap_stats :: "u32 \<Rightarrow> kernel \<Rightarrow> u32 option" where
  "sys_heap_stats arg1 s = do {
     stats \<leftarrow> heap_get_stats s;
     Some (if arg1 = 0 then free_bytes stats else if arg1 = 1 then used_bytes stats
           else if arg1 = 2 then total_bytes stats else -1) }"

definition sys_getpid :: "kernel \<Rightarrow> u32" where
  "sys_getpid s = (case process_get_current s of None \<Rightarrow> 0 | Some i \<Rightarrow> pid (proc_table s ! i))"

definition syscall_handler :: "'d env \<Rightarrow> u32 \<Rightarrow> u32 \<Rightarrow> u32 \<Rightarrow> u32 \<Rightarrow> 'd sys \<Rightarrow> (sys_end \<times> 'd sys) option" where
  "syscall_handler E num arg1 arg2 arg3 x =
    (if num = 1 then sys_print E arg1 x
     else if num = 2 then Some (sys_exit E arg1 x)
     else if num = 3 then sys_file_open E arg1 x
     else if num = 4 then sys_file_read E arg1 arg2 x
     else if num = 5 then Some (sys_file_close x)
     else if num = 6 then sys_list_dir E arg1 arg2 x
     else if num = 7 then sys_get_args arg1 arg2 arg3 x
     else if num = 8 then do { (c, x) \<leftarrow> getchar_loop E x; Some (Returned c, x) }
     else if num = 9 then sys_exec E arg1 x
     else if num = 10 then Some (sys_clear E x)
     else if num = 11 then do { x \<leftarrow> sleep_ms E arg1 x; Some (Returned 0, x) }
     else if num = 12 then Some (Returned (get_uptime_ms (ints (fst x))), x)
     else if num = 13 then Some (Returned (sys_meminfo arg1 (fst x)), x)
     else if num = 14 then do { v \<leftarrow> sys_heap_stats arg1 (fst x); Some (Returned v, x) }
     else if num = 15 then Some (Returned (sys_getpid (fst x)), x)
     else Some (Returned (-1), kputs E (str ''[Unknown syscall]'' @ [10]) x))"

end
