(* ===== verification/Kernel.thy ===== *)
theory Kernel
  imports Syscall
begin

text \<open>
  The interrupt dispatcher (kernel/idt.c), booting, the kernel shell (kernel/kernel.c), and the
  whole system as a step relation: programs in ring 3 that store to their pages, change their
  registers and make system calls, interrupts between any two of their instructions, and the
  rounds of the kernel shell. The threads of the test configuration are not built in, so there is
  only one process.
\<close>

subsection \<open>The interrupt dispatcher\<close>

definition exception_names :: "cstring list" where
  "exception_names = map str [''Division by Zero'', ''Debug'', ''Non-Maskable Interrupt'', ''Breakpoint'', ''Overflow'',
     ''Bound Range Exceeded'', ''Invalid Opcode'', ''Device Not Available'', ''Double Fault'', ''Coprocessor Segment Overrun'',
     ''Invalid TSS'', ''Segment Not Present'', ''Stack-Segment Fault'', ''General Protection Fault'', ''Page Fault'', ''Reserved'',
     ''x87 FPU Error'', ''Alignment Check'', ''Machine Check'', ''SIMD FPU Exception'', ''Virtualization Exception'',
     ''Control Protection'', ''Reserved'', ''Reserved'', ''Reserved'', ''Reserved'', ''Reserved'', ''Reserved'', ''Reserved'', ''Reserved'',
     ''Reserved'', ''Reserved'']"

text \<open>
  The registers of an interrupt that the dispatcher looks at; \<open>r_cr2\<close> is the processor's register with
  the address of the last page fault.
\<close>

record isr_regs =
  int_no :: u32
  err_code :: u32
  r_eip :: u32
  r_cr2 :: u32

definition page_fault_screen :: "'d env \<Rightarrow> isr_regs \<Rightarrow> 'd sys \<Rightarrow> 'd sys" where
  "page_fault_screen E r x =
    (let x = kcolor VGA_COLOR_LIGHT_RED x;
         x = kputs E ([10] @ str ''*** PAGE FAULT ***'' @ [10]) x;
         x = kcolor VGA_COLOR_WHITE x;
         x = kputhex E (r_cr2 r) (kputs E (str ''Address: '') x);
         x = kputhex E (r_eip r) (kputs E ([10] @ str ''EIP: '') x);
         x = kputs E ([10] @ str ''  '') x;
         x = kputs E (if err_code r AND 1 \<noteq> 0 then str ''Page-protection'' else str ''Non-present page'') x;
         x = kputs E (str '', '') x;
         x = kputs E (if err_code r AND 2 \<noteq> 0 then str ''Write'' else str ''Read'') x;
         x = kputs E (str '', '') x;
         x = kputs E (if err_code r AND 4 \<noteq> 0 then str ''User-mode'' else str ''Kernel-mode'') x;
         x = kputs E [10] x;
         x = kcolor VGA_COLOR_LIGHT_RED x
     in kputs E (str ''System halted.'' @ [10]) x)"

definition exception_screen :: "'d env \<Rightarrow> isr_regs \<Rightarrow> 'd sys \<Rightarrow> 'd sys" where
  "exception_screen E r x =
    (let x = kcolor VGA_COLOR_LIGHT_RED x;
         x = kputs E ([10] @ str ''*** EXCEPTION: '') x;
         x = kputs E (exception_names ! unat (int_no r)) x;
         x = kputs E (str '' ***'' @ [10]) x;
         x = kcolor VGA_COLOR_WHITE x;
         x = kputhex E (r_eip r) (kputs E (str ''EIP: '') x);
         x = kputhex E (err_code r) (kputs E (str ''  Error code: '') x);
         x = kputs E [10] x;
         x = kcolor VGA_COLOR_LIGHT_RED x
     in kputs E (str ''System halted.'' @ [10]) x)"

text \<open>
  How the dispatcher ends: the interrupted code goes on, the machine is halted for good, or a program
  that the kernel itself had started is over.
\<close>

datatype isr_end = Resumed | Halted | Over caller

definition isr_handler :: "'d env \<Rightarrow> isr_regs \<Rightarrow> 'd sys \<Rightarrow> (isr_end \<times> 'd sys) option" where
  "isr_handler E r x =
    (if int_no r < 32 then
       Some (Halted, if int_no r = 14 then page_fault_screen E r x else exception_screen E r x)
     else if int_no r = 128 then do {
       let u = user (fst x);
       (e, s, d) \<leftarrow> syscall_handler E (eax u) (ebx u) (ecx u) (edx u) x;
       Some (case e of
           Returned v \<Rightarrow> (Resumed, s\<lparr>user := (user s)\<lparr>eax := v\<rparr>\<rparr>, d)
         | Started \<Rightarrow> (Resumed, s, d)
         | Exited (In_Program u) \<Rightarrow> (Resumed, sys_exec_resume E u s, d)
         | Exited who \<Rightarrow> (Over who, s, d)) }
     else Some (Resumed, irq_handler E (int_no r) x))"

subsection \<open>Commands of the kernel\<close>

definition complain :: "'d env \<Rightarrow> cstring \<Rightarrow> 'd sys \<Rightarrow> 'd sys option" where
  "complain E t x = kserial E (t @ [13, 10]) (kputs E (t @ [10]) (kcolor VGA_COLOR_LIGHT_CYAN x))"

text \<open>The result tells whether a program was started (True) or the command is done.\<close>

definition execute_command :: "'d env \<Rightarrow> caller \<Rightarrow> cstring \<Rightarrow> 'd sys \<Rightarrow> (bool \<times> 'd sys) option" where
  "execute_command E who cmd x = do {
     let (s, d) = x;
     let (program_name, a) = parse_command_line cmd (replicate 64 0) (current_program_args s);
     let s = s\<lparr>current_program_args := a\<rparr>;
     let filename = map to_upper (take 11 (cstr program_name));
     (found, f, d) \<leftarrow> fat32_open (io E) filename (disk s) d;
     let s = s\<lparr>disk := f\<rparr>;
     if found then
       if f_size (fs_file f) > 0 \<and> f_size (fs_file f) \<le> 65536 then do {
         (n, bs, f, d) \<leftarrow> fat32_read (io E) True (f_size (fs_file f)) f d;
         let s = s\<lparr>disk := fat32_close True f, mem := store_bytes (mem s) (binary_buffer E) bs\<rparr>;
         if n > 0 then
           if mem s (binary_buffer E) = 0x7F \<and> mem s (binary_buffer E + 1) = ord_c CHR ''E'' \<and>
              mem s (binary_buffer E + 2) = ord_c CHR ''L'' \<and> mem s (binary_buffer E + 3) = ord_c CHR ''F''
           then do {
             (ok, x) \<leftarrow> elf_load_and_exec E who (binary_buffer E) (s, d);
             if ok then Some (True, x)
             else do { x \<leftarrow> complain E (str ''Failed to execute binary'') x; Some (False, x) } }
           else do { x \<leftarrow> complain E (str ''Not an ELF binary'') (s, d); Some (False, x) }
         else do { x \<leftarrow> complain E (str ''Failed to read file'') (s, d); Some (False, x) } }
       else do { x \<leftarrow> complain E (str ''File too large'') (s\<lparr>disk := fat32_close True f\<rparr>, d); Some (False, x) }
     else do {
       let x = kputchar E 10 (kputs E filename (kputs E (str ''Command not found: '') (kcolor VGA_COLOR_LIGHT_CYAN (s, d))));
       x \<leftarrow> kserial E (str ''Command not found: '') x;
       x \<leftarrow> kserial E filename x;
       x \<leftarrow> kserial E [13, 10] x;
       Some (False, x) } }"

subsection \<open>The kernel shell\<close>

definition prompt :: "'d env \<Rightarrow> 'd sys \<Rightarrow> 'd sys option" where
  "prompt E x = kserial E (str ''MagnOS> '') (kputs E (str ''MagnOS> '') (kcolor VGA_COLOR_LIGHT_CYAN x))"

definition shell_ready :: "'d env \<Rightarrow> 'd sys \<Rightarrow> 'd sys option" where
  "shell_ready E x = prompt E ((fst x)\<lparr>shell_cmd_pos := 0\<rparr>, snd x)"

definition shell_fallback :: "'d env \<Rightarrow> 'd sys \<Rightarrow> 'd sys option" where
  "shell_fallback E x =
    (let x = kcolor VGA_COLOR_YELLOW x;
         x = kputs E (str ''Falling back to kernel shell.'' @ [10]) x;
         x = kcolor VGA_COLOR_LIGHT_GREY x
     in shell_ready E x)"

definition putchar_serial :: "'d env \<Rightarrow> u8 \<Rightarrow> 'd sys \<Rightarrow> 'd sys option" where
  "putchar_serial E c x = (case x of (s, d) \<Rightarrow> do { d \<leftarrow> serial_putchar (io E) SERIAL_COM1 c d; Some (s, d) })"

definition shell_getchar :: "'d env \<Rightarrow> 'd sys \<Rightarrow> (u8 \<times> 'd sys) option" where
  "shell_getchar E x =
    (let (s, d) = x;
         (c, k) = keyboard_getchar (keyb s);
         s = s\<lparr>keyb := k\<rparr>
     in if c \<noteq> 0 then Some (c, s, d)
        else
          let (r, d) = serial_received (io E) SERIAL_COM1 d
          in if r \<noteq> 0 then do {
               (c, d) \<leftarrow> serial_getchar (io E) SERIAL_COM1 d;
               let c = (if c = 13 then 10 else c);
               let c = (if c = 0x7F then 8 else c);
               Some (c, s, d) }
             else Some (0, s, d))"

text \<open>What the shell does with one character.\<close>

definition shell_char :: "'d env \<Rightarrow> u8 \<Rightarrow> 'd sys \<Rightarrow> 'd sys option" where
  "shell_char E c x =
    (let s = fst x; d = snd x in
     if c = 0 then Some x
     else if c = 8 then
       if shell_cmd_pos s > 0 then do {
         let x = kputs E [8, 32, 8] (s\<lparr>shell_cmd_pos := shell_cmd_pos s - 1\<rparr>, d);
         x \<leftarrow> putchar_serial E 8 x;
         x \<leftarrow> putchar_serial E 32 x;
         putchar_serial E 8 x }
       else Some x
     else if c = 10 then do {
       (s, d) \<leftarrow> kserial E [13, 10] (kputchar E 10 x);
       let s = s\<lparr>shell_cmd_buf := (shell_cmd_buf s)[shell_cmd_pos s := 0]\<rparr>;
       if shell_cmd_pos s > 0 then do {
         (started, x) \<leftarrow> execute_command E At_Prompt (cstr (shell_cmd_buf s)) (s, d);
         if started then Some x else shell_ready E x }
       else shell_ready E (s, d) }
     else if shell_cmd_pos s < 63 then
       putchar_serial E c (kputchar E c
         (s\<lparr>shell_cmd_buf := (shell_cmd_buf s)[shell_cmd_pos s := c], shell_cmd_pos := shell_cmd_pos s + 1\<rparr>, d))
     else Some x)"

definition shell_round :: "'d env \<Rightarrow> 'd sys \<Rightarrow> 'd sys option" where
  "shell_round E x = do { (c, x) \<leftarrow> shell_getchar E x; shell_char E c x }"

subsection \<open>Booting\<close>

definition boot_console :: "'d env \<Rightarrow> 'd sys \<Rightarrow> 'd sys" where
  "boot_console E x =
    (let (s, d) = x;
         (d, v) = vga_init (io E) (screen s) d;
         (r, d) = serial_init (io E) SERIAL_COM1 d;
         x = kcolor VGA_COLOR_LIGHT_CYAN (s\<lparr>screen := v\<rparr>, d);
         x = kputs E (str ''MagnOS v0.1'' @ [10]) x;
         x = kputs E (str ''==========='' @ [10, 10]) x;
         x = kcolor VGA_COLOR_LIGHT_GREY x;
         x = kputs E (str ''Bootable x86 Operating System'' @ [10]) x;
         x = kputs E (str ''VGA Driver: OK'' @ [10]) x
     in kputs E (str ''Serial Driver: OK'' @ [10]) x)"

definition boot_interrupts :: "'d env \<Rightarrow> 'd sys \<Rightarrow> 'd sys" where
  "boot_interrupts E x =
    (let (s, d) = x;
         x = kputs E (str ''GDT/TSS: OK'' @ [10]) (s\<lparr>segments := gdt_init (gdt_at E) (tss_at E) (segments s)\<rparr>, d);
         (s, d) = x;
         (d, k) = keyboard_init (io E) d (keyb s);
         x = kputs E (str ''Keyboard Driver: OK'' @ [10]) (s\<lparr>keyb := k\<rparr>, d);
         (s, d) = x;
         (d, i) = idt_init (io E) (isr_at E) (idt_at E) (ints s) d
     in kputs E (str ''IDT/Interrupts: OK'' @ [10]) (s\<lparr>ints := i\<rparr>, d))"

definition boot_memory :: "'d env \<Rightarrow> 'd sys \<Rightarrow> 'd sys option" where
  "boot_memory E x = do {
     let (s, d) = x;
     let x = kputs E (str ''PMM: '') (pmm_init (kernel_end E) s, d);
     let x = kputhex E (pmm_get_free_count (fst x) * 4) x;
     let x = kputs E (str '' KB free ('') x;
     let x = kputhex E (pmm_get_free_count (fst x)) x;
     let x = kputs E (str '' pages)'' @ [10]) x;
     s \<leftarrow> heap_init (fst x);
     stats \<leftarrow> heap_get_stats s;
     let x = kputs E (str ''Heap: '') (s, snd x);
     let x = kputhex E (free_bytes stats div 1024) x;
     let x = kputs E (str '' KB free'' @ [10]) x;
     let x = kputs E (str ''Paging: OK'' @ [10]) (paging_init (fst x), snd x);
     Some (kputs E (str ''Processes: OK'' @ [10]) (process_init (fst x), snd x)) }"

definition boot_ide :: "'d env \<Rightarrow> 'd sys \<Rightarrow> 'd sys" where
  "boot_ide E x =
    (let x = kputs E (str ''IDE Driver: '') x;
         (s, d) = x;
         (r, d) = ide_init (io E) d;
         x = (if r = 0 then kputs E (str ''OK'' @ [10]) (kcolor VGA_COLOR_LIGHT_GREEN (s, d))
              else kputs E (str ''FAILED'' @ [10]) (kcolor VGA_COLOR_LIGHT_RED (s, d)))
     in kputs E [10] (kcolor VGA_COLOR_LIGHT_GREY x))"

definition boot_info :: "'d env \<Rightarrow> 'd sys \<Rightarrow> 'd sys option" where
  "boot_info E x = do {
     x \<leftarrow> kserial E (str ''MagnOS v0.1 - Serial port initialized'' @ [10]) x;
     x \<leftarrow> kserial E (str ''Kernel loaded successfully'' @ [10]) x;
     let x = kputs E (str ''System initialized successfully!'' @ [10, 10]) (kcolor VGA_COLOR_LIGHT_GREEN x);
     let x = kputs E (str ''Kernel at: '') (kcolor VGA_COLOR_LIGHT_GREY x);
     let x = kputs E [10] (kputhex E (kernel_main_at E) x);
     let x = kputs E [10] (kputhex E 0xB8000 (kputs E (str ''VGA at: '') x));
     Some (kputs E [10, 10] (kputhex E 0x3F8 (kputs E (str ''Serial COM1: '') x))) }"

definition boot_fat32 :: "'d env \<Rightarrow> 'd sys \<Rightarrow> 'd sys option" where
  "boot_fat32 E x = do {
     let x = kputs E (str ''Initializing FAT32 Filesystem...'' @ [10]) (kcolor VGA_COLOR_LIGHT_CYAN x);
     let (s, d) = kputs E (str ''FAT32: '') (kcolor VGA_COLOR_LIGHT_GREY x);
     let (r, f, d) = fat32_init (io E) 0 (disk s) d;
     let s = s\<lparr>disk := f\<rparr>;
     if r = 0 then do {
       let x = kputs E (str ''OK'' @ [10, 10]) (kcolor VGA_COLOR_LIGHT_GREEN (s, d));
       let (s, d) = kcolor VGA_COLOR_LIGHT_GREY x;
       (r, f, v, d) \<leftarrow> fat32_list_root (io E) (disk s) (screen s) d;
       Some (kputs E [10] (s\<lparr>disk := f, screen := v\<rparr>, d)) }
     else do {
       let x = kputs E (str ''FAILED'' @ [10]) (kcolor VGA_COLOR_LIGHT_RED (s, d));
       let x = kcolor VGA_COLOR_LIGHT_GREY x;
       Some (kputs E (str ''(Disk may not be formatted as FAT32)'' @ [10, 10]) x) } }"

definition kernel_main :: "'d env \<Rightarrow> 'd sys \<Rightarrow> 'd sys option" where
  "kernel_main E x = do {
     let x = boot_interrupts E (boot_console E x);
     x \<leftarrow> boot_memory E x;
     x \<leftarrow> boot_info E (boot_ide E x);
     x \<leftarrow> boot_fat32 E x;
     let x = kputs E (str ''System ready.'' @ [10]) (kcolor VGA_COLOR_YELLOW x);
     let x = kcolor VGA_COLOR_LIGHT_GREY x;
     (started, x) \<leftarrow> execute_command E At_Boot (str ''shell'') x;
     if started then Some x else shell_fallback E x }"

subsection \<open>The system\<close>

text \<open>An \<open>int 0x80\<close> of a program, including what the kernel does when its first program is over.\<close>

definition trap :: "'d env \<Rightarrow> 'd sys \<Rightarrow> 'd sys option" where
  "trap E x = do {
     (e, x) \<leftarrow> isr_handler E \<lparr>int_no = 128, err_code = 0, r_eip = eip (user (fst x)), r_cr2 = 0\<rparr> x;
     (case e of Over At_Boot \<Rightarrow> shell_fallback E x | Over _ \<Rightarrow> shell_ready E x | _ \<Rightarrow> Some x) }"

text \<open>
  Programs run while \<open>exec_depth\<close> is positive, the kernel shell otherwise. A store of a program goes to
  the physical address its page has; it is only possible on a page that is open to ring 3, and there
  is a next state only if it does not hit the memory of the kernel itself.
\<close>

inductive kstep :: "'d env \<Rightarrow> 'd sys \<Rightarrow> 'd sys \<Rightarrow> bool" for E where
  k_shell: "exec_depth s = 0 \<Longrightarrow> shell_round E (s, d) = Some x \<Longrightarrow> kstep E (s, d) x"
| k_irq: "next_irq E d = Some (n, d') \<Longrightarrow> 32 \<le> n \<Longrightarrow> n < 48 \<Longrightarrow> kstep E (s, d) (irq_handler E n (s, d'))"
| k_store: "0 < exec_depth s \<Longrightarrow> user_page s a \<Longrightarrow> described (paging_get_phys a s) 1 \<Longrightarrow>
    kstep E (s, d) (s\<lparr>mem := (mem s)(paging_get_phys a s := v)\<rparr>, d)"
| k_regs: "0 < exec_depth s \<Longrightarrow> kstep E (s, d) (s\<lparr>user := r\<rparr>, d)"
| k_trap: "0 < exec_depth s \<Longrightarrow> trap E (s, d) = Some x \<Longrightarrow> kstep E (s, d) x"

inductive_cases kstepE: "kstep E (s, d) x"

inductive kreach :: "'d env \<Rightarrow> 'd sys \<Rightarrow> 'd sys \<Rightarrow> bool" for E where
  k_boot: "kernel_main E x0 = Some x \<Longrightarrow> kreach E x0 x"
| k_step: "kreach E x0 x \<Longrightarrow> kstep E x y \<Longrightarrow> kreach E x0 y"

end
