(* ===== verification/Heap_Safety.thy ===== *)
theory Heap_Safety
  imports Kheap
begin

text \<open>
  Memory safety and functional correctness of the kernel heap. The invariant \<open>heap_ok\<close> relates a
  state to two ghost values, the list of its free blocks and the set of the blocks callers hold;
  heap\_init establishes it, kmalloc and kfree keep it and always return, and no operation writes a
  byte of a block that a caller holds.
\<close>

subsection \<open>Inserting and coalescing\<close>

lemma total_insert_block [simp]: "total (insert_block b bs) = total (b # bs)"
  by (induction bs) auto

lemma total_coalesce: "blocks_ok bs \<Longrightarrow> total (coalesce bs) = total bs"
proof (induction bs rule: coalesce.induct)
  case (3 a n b k bs)
  then show ?case using merge_sizes(1) [OF "3.prems"] by (auto simp: blocks_ok_Cons)
qed auto

lemma apart_coalesce:
  assumes "blocks_ok bs" and "\<forall>c \<in> set bs. apart d c"
  shows "\<forall>c \<in> set (coalesce bs). apart d c"
  using assms
proof (induction bs rule: coalesce.induct)
  case (3 a n b k bs)
  show ?case
  proof (cases "unat a + 16 + unat n = unat b")
    case True
    have "unat (fst d) < block_end d" by (cases d) simp
    then have "apart d (a, n + (16 + k))"
      using "3.prems"(2) True merge_sizes(1) [OF "3.prems"(1) True] by (auto simp: apart_def)
    moreover have "\<forall>c \<in> set (coalesce bs). apart d c"
      using "3.IH"(1) [OF True] "3.prems" by (auto simp: blocks_ok_Cons)
    ultimately show ?thesis using True by simp
  next
    case False
    then show ?thesis using "3.IH"(2) "3.prems" by (auto simp: blocks_ok_Cons)
  qed
qed auto

text \<open>The part that kfree and heap\_add\_page share: put a block on the list and coalesce.\<close>

lemma insert_coalesce_refines:
  assumes "chain (mem s) (free_list s) fs" and "blocks_ok fs" and "block_ok (b, k)"
    and "\<forall>c \<in> set fs. apart (b, k) c" and "hdr_size (mem s) b = k"
  defines "fs' \<equiv> coalesce (insert_block (b, k) fs)"
  shows "\<exists>m p. do { s \<leftarrow> list_insert b s; m \<leftarrow> coalesce_all (free_list s) (mem s); Some (s\<lparr>mem := m\<rparr>) }
      = Some (s\<lparr>mem := m, free_list := p\<rparr>) \<and> chain m p fs' \<and> frame ((b, k) # fs) (mem s) m"
    and "blocks_ok fs'" and "total fs' = 16 + unat k + total fs"
    and "\<And>d. apart d (b, k) \<Longrightarrow> \<forall>c \<in> set fs. apart d c \<Longrightarrow> \<forall>c \<in> set fs'. apart d c"
proof -
  have ok: "blocks_ok (insert_block (b, k) fs)" using assms(2-4) by (rule blocks_ok_insert_block)
  show "blocks_ok fs'" using blocks_ok_coalesce [OF ok] by (simp add: fs'_def)
  show "total fs' = 16 + unat k + total fs" using total_coalesce [OF ok] by (simp add: fs'_def)
  show "\<forall>c \<in> set fs'. apart d c" if "apart d (b, k)" "\<forall>c \<in> set fs. apart d c" for d
    unfolding fs'_def using that by (intro apart_coalesce ok) simp
  obtain m p where i: "list_insert b s = Some (s\<lparr>mem := m, free_list := p\<rparr>)"
      "chain m p (insert_block (b, k) fs)" "frame ((b, k) # fs) (mem s) m"
    using list_insert_refines [OF assms(1-5)] by blast
  obtain m' where c: "coalesce_all p m = Some m'" "chain m' p fs'" "frame (insert_block (b, k) fs) m m'"
    using coalesce_all_refines [OF i(2) ok] unfolding fs'_def by blast
  have "frame ((b, k) # fs) (mem s) m'" using i(3) c(3) by (rule frame_trans) (simp add: outside_def)
  then show "\<exists>m p. do { s \<leftarrow> list_insert b s; m \<leftarrow> coalesce_all (free_list s) (mem s); Some (s\<lparr>mem := m\<rparr>) }
      = Some (s\<lparr>mem := m, free_list := p\<rparr>) \<and> chain m p fs' \<and> frame ((b, k) # fs) (mem s) m"
    using i(1) c(1,2) by (intro exI [of _ m'] exI [of _ p]) simp
qed

lemma pmm_view_heap [simp]:
  "pmm_free_pages (s\<lparr>free_list := p\<rparr>) = pmm_free_pages s" "pmm_wf (s\<lparr>free_list := p\<rparr>) = pmm_wf s"
  "pmm_free_pages (s\<lparr>heap_pages := n\<rparr>) = pmm_free_pages s" "pmm_wf (s\<lparr>heap_pages := n\<rparr>) = pmm_wf s"
  for s :: "'z kheap_scheme"
  by (simp_all add: pmm_free_pages_def pmm_wf_def)

subsection \<open>The invariant\<close>

text \<open>
  \<open>fs\<close> are the free blocks in list order, \<open>L\<close> the blocks callers hold. No block overlaps another
  one or a page the page manager may still hand out, and the heap's pages are exactly used up by
  the headers and payloads of all blocks.
\<close>

definition heap_ok :: "'z kheap_scheme \<Rightarrow> block list \<Rightarrow> block set \<Rightarrow> bool" where
  "heap_ok s fs L \<longleftrightarrow> pmm_wf s \<and> chain (mem s) (free_list s) fs \<and> blocks_ok fs
    \<and> finite L \<and> (\<forall>b \<in> L. block_ok b \<and> hdr_size (mem s) (fst b) = snd b)
    \<and> (\<forall>b \<in> L. \<forall>c \<in> L. b \<noteq> c \<longrightarrow> apart b c)
    \<and> (\<forall>b \<in> L. \<forall>c \<in> set fs. apart b c)
    \<and> (\<forall>p \<in> pmm_free_pages s. \<forall>b \<in> L \<union> set fs. apart (page_addr p, 4080) b)
    \<and> total fs + (\<Sum>b \<in> L. 16 + unat (snd b)) = 4096 * unat (heap_pages s)
    \<and> unat (heap_pages s) + card (pmm_free_pages s) \<le> 4096"

definition live_kept :: "block set \<Rightarrow> memory \<Rightarrow> memory \<Rightarrow> bool" where
  "live_kept L m m' \<longleftrightarrow> (\<forall>b \<in> L. \<forall>x. unat (fst b) \<le> unat x \<and> unat x < block_end b \<longrightarrow> m' x = m x)"

lemma live_kept_refl [simp]: "live_kept L m m"
  by (simp add: live_kept_def)

lemma live_kept_trans: "live_kept L m m' \<Longrightarrow> live_kept L m' m'' \<Longrightarrow> live_kept L m m''"
  by (simp add: live_kept_def)

lemma live_kept_subset: "live_kept L m m' \<Longrightarrow> K \<subseteq> L \<Longrightarrow> live_kept K m m'"
  by (auto simp: live_kept_def)

lemma frame_live_kept: "frame bs m m' \<Longrightarrow> \<forall>b \<in> L. \<forall>c \<in> set bs. apart b c \<Longrightarrow> live_kept L m m'"
proof (unfold live_kept_def, intro ballI allI impI)
  fix b and x :: u32 assume fr: "frame bs m m'" and ap: "\<forall>b \<in> L. \<forall>c \<in> set bs. apart b c"
    and x: "b \<in> L" "unat (fst b) \<le> unat x \<and> unat x < block_end b"
  have "unat x < unat (fst c) \<or> block_end c \<le> unat x" if "c \<in> set bs" for c
  proof -
    from ap x(1) that have "apart b c" by blast
    with x(2) show ?thesis unfolding apart_def by linarith
  qed
  then have "outside bs x" by (simp add: outside_def)
  with fr show "m' x = m x" by (simp add: frame_def)
qed

lemma frame_live_size:
  assumes "frame bs m m'" and "block_ok b" and "\<forall>c \<in> set bs. apart b c"
  shows "hdr_size m' (fst b) = hdr_size m (fst b)"
proof (rule frame_header(1) [OF assms(1)])
  show "aligned16 (fst b)" using assms(2) by (cases b) (simp add: aligned16_def)
  show "\<forall>c \<in> set bs. unat (fst b) + 16 \<le> unat (fst c) \<or> block_end c \<le> unat (fst b)"
    using assms(3) by (cases b) (fastforce simp: apart_def)
qed

lemma page_block:
  assumes "0 < p" and "p < 4096"
  shows "block_ok (page_addr p, 4080)" and "block_end (page_addr p, 4080) = 4096 * p + 4096"
  using assms by (simp_all add: unat_page_addr dvd_mult2)

lemma pages_apart:
  assumes "p < 4096" and "q < 4096" and "p \<noteq> q"
  shows "apart (page_addr p, 4080) (page_addr q, 4080)"
  using assms by (simp add: apart_def unat_page_addr) linarith

lemma release_ok:
  assumes inv: "heap_ok s fs (insert b L)" and new: "b \<notin> L"
  shows "\<exists>m p. do { s \<leftarrow> list_insert (fst b) s; m \<leftarrow> coalesce_all (free_list s) (mem s); Some (s\<lparr>mem := m\<rparr>) }
      = Some (s\<lparr>mem := m, free_list := p\<rparr>)
    \<and> heap_ok (s\<lparr>mem := m, free_list := p\<rparr>) (coalesce (insert_block b fs)) L \<and> live_kept L (mem s) m"
proof -
  obtain a n where b: "b = (a, n)" by force
  have apb: "\<forall>c \<in> set fs. apart (a, n) c" "\<forall>c \<in> L. apart c (a, n)" "\<forall>p \<in> pmm_free_pages s. apart (page_addr p, 4080) (a, n)"
    using inv new unfolding heap_ok_def b by auto
  have parts: "chain (mem s) (free_list s) fs" "blocks_ok fs" "block_ok (a, n)" "hdr_size (mem s) a = n"
    using inv unfolding heap_ok_def b by auto
  note ic = insert_coalesce_refines [OF parts(1-3) apb(1) parts(4), folded b]
  obtain m p where st: "do { s \<leftarrow> list_insert (fst b) s; m \<leftarrow> coalesce_all (free_list s) (mem s); Some (s\<lparr>mem := m\<rparr>) }
      = Some (s\<lparr>mem := m, free_list := p\<rparr>)" and cq: "chain m p (coalesce (insert_block b fs))" "frame (b # fs) (mem s) m"
    using ic(1) by (auto simp: b)
  have apL: "\<forall>c \<in> L. \<forall>d \<in> set (b # fs). apart c d" using inv apb(2) unfolding heap_ok_def b by auto
  have "hdr_size m (fst c) = snd c" if "c \<in> L" for c
    using frame_live_size [OF cq(2), of c] apL that inv unfolding heap_ok_def by simp
  moreover have "\<forall>d \<in> set (coalesce (insert_block b fs)). apart c d"
    if "c \<in> L \<or> c \<in> (\<lambda>q. (page_addr q, 4080)) ` pmm_free_pages s" for c
    using ic(4) [of c] that inv apb unfolding heap_ok_def b by blast
  moreover have "finite L" "(\<Sum>c \<in> insert b L. 16 + unat (snd c)) = 16 + unat n + (\<Sum>c \<in> L. 16 + unat (snd c))"
    using inv new by (auto simp: heap_ok_def b)
  ultimately have "heap_ok (s\<lparr>mem := m, free_list := p\<rparr>) (coalesce (insert_block b fs)) L"
    using inv cq(1) ic(2,3) unfolding heap_ok_def by (auto simp: b)
  then show ?thesis using st frame_live_kept [OF cq(2) apL] by blast
qed

text \<open>The state of heap\_add\_page before list\_insert: the new page is one more block in use.\<close>

lemma fresh_page_ok:
  assumes inv: "heap_ok s fs L" and ne: "pmm_free_pages s \<noteq> {}"
  defines "a \<equiv> page_addr (Min (pmm_free_pages s))"
  defines "m \<equiv> set_next a 0 (set_is_free a 1 (set_size a 4080 (mem s)))"
  defines "s' \<equiv> (snd (pmm_alloc s))\<lparr>mem := m, heap_pages := heap_pages s + 1\<rparr>"
  shows "heap_ok s' fs (insert (a, 4080) L)" and "(a, 4080) \<notin> L" and "a \<noteq> 0" and "live_kept L (mem s) m"
proof -
  define p where "p = Min (pmm_free_pages s)"
  have wf: "pmm_wf s" and ok: "blocks_ok fs" and p: "p \<in> pmm_free_pages s"
    using inv ne by (auto simp: heap_ok_def p_def)
  then have pr: "0 < p" "p < 4096" using pages.free_pages_range [OF wf] by auto
  then have b: "block_ok (a, 4080)" unfolding a_def p_def by (intro page_block)
  then have al: "aligned16 a" and "a \<noteq> 0" by (auto simp: aligned16_def)
  then show "a \<noteq> 0" by simp
  have apb: "\<forall>c \<in> L \<union> set fs. apart (a, 4080) c" using inv p unfolding heap_ok_def a_def p_def by blast
  have self: "\<not> apart (a, 4080) (a, 4080)" by (simp add: apart_def)
  then show notL: "(a, 4080) \<notin> L" using apb by blast
  have "a \<notin> fst ` set fs" using apart_distinct [OF _ b ok] apb by blast
  then have ch: "chain m (free_list s) fs"
    using inv ok al unfolding m_def heap_ok_def by (intro chain_set_other) auto
  have own: "\<exists>c \<in> set [(a, 4080)]. unat (fst c) \<le> unat a \<and> unat a + 16 \<le> block_end c" by simp
  have fr: "frame [(a, 4080)] (mem s) m" unfolding m_def
    by (rule frame_trans [OF frame_trans [OF frame_set(1) [OF al own] frame_set(2) [OF al own]]
        frame_set(3) [OF al own]]) auto
  have apL: "\<forall>c \<in> L. \<forall>d \<in> set [(a, 4080)]. apart c d" using apb by (simp add: apart_sym)
  show "live_kept L (mem s) m" using fr apL by (rule frame_live_kept)
  have sz: "hdr_size m (fst c) = snd c" if "c \<in> insert (a, 4080) L" for c
    using frame_live_size [OF fr] apL that inv al unfolding heap_ok_def
    by (cases "c = (a, 4080)") (simp_all add: m_def mem_simps)
  have fp: "pmm_free_pages s' = pmm_free_pages s - {p}" and wf': "pmm_wf s'"
    using pmm_alloc_free_pages [OF wf ne] pmm_alloc_wf [OF wf]
    by (simp_all add: s'_def p_def)
  have "apart (page_addr r, 4080) (a, 4080)" if "r \<in> pmm_free_pages s - {p}" for r
    using that pr pmm_free_pages_bound [of s] unfolding a_def p_def [symmetric] by (intro pages_apart) auto
  moreover have "Suc (card (pmm_free_pages s - {p})) = card (pmm_free_pages s)"
    using p by (intro card_Suc_Diff1) auto
  moreover from this have "unat (heap_pages s + 1) = unat (heap_pages s) + 1"
    using inv by (subst unat_add_small) (auto simp: heap_ok_def)
  moreover have "free_list s' = free_list s" "heap_pages s' = heap_pages s + 1" "mem s' = m"
    by (simp_all add: s'_def pmm_alloc_least [OF wf ne])
  ultimately show "heap_ok s' fs (insert (a, 4080) L)"
    using inv wf' ch sz b apb apL notL unfolding heap_ok_def fp by (auto simp del: block_ok.simps)
qed

lemma heap_add_page_ok:
  assumes inv: "heap_ok s fs L" and ne: "pmm_free_pages s \<noteq> {}"
  defines "a \<equiv> page_addr (Min (pmm_free_pages s))"
  shows "\<exists>s'. heap_add_page s = Some (a, s') \<and> a \<noteq> 0
    \<and> heap_ok s' (coalesce (insert_block (a, 4080) fs)) L \<and> live_kept L (mem s) (mem s')
    \<and> pmm_free_pages s' = pmm_free_pages s - {Min (pmm_free_pages s)} \<and> heap_pages s' = heap_pages s + 1"
proof -
  have wf: "pmm_wf s" using inv by (simp add: heap_ok_def)
  define s1 where "s1 = (snd (pmm_alloc s))\<lparr>mem := set_next a 0 (set_is_free a 1 (set_size a 4080 (mem s))),
    heap_pages := heap_pages s + 1\<rparr>"
  note fresh = fresh_page_ok [OF inv ne, folded a_def, folded s1_def]
  obtain m p where r: "do { s \<leftarrow> list_insert a s1; m \<leftarrow> coalesce_all (free_list s) (mem s); Some (s\<lparr>mem := m\<rparr>) }
      = Some (s1\<lparr>mem := m, free_list := p\<rparr>)"
    "heap_ok (s1\<lparr>mem := m, free_list := p\<rparr>) (coalesce (insert_block (a, 4080) fs)) L" "live_kept L (mem s1) m"
    using release_ok [OF fresh(1,2), unfolded fst_conv] by (elim exE conjE) (rule that)
  have "heap_add_page s = Some (a, s1\<lparr>mem := m, free_list := p\<rparr>)"
    using r(1) fresh(3) unfolding heap_add_page_def s1_def
    by (auto simp: pmm_alloc_least [OF wf ne] Let_def bind_eq_Some_conv a_def [symmetric])
  moreover have "live_kept L (mem s) m" using fresh(4) r(3) by (simp add: s1_def live_kept_def)
  moreover have "pmm_free_pages (s1\<lparr>mem := m, free_list := p\<rparr>) = pmm_free_pages s - {Min (pmm_free_pages s)}"
    using pmm_alloc_free_pages [OF wf ne] by (simp add: s1_def)
  ultimately show ?thesis using r(2) fresh(3) by (intro exI [of _ "s1\<lparr>mem := m, free_list := p\<rparr>"]) (simp add: s1_def)
qed

lemma heap_add_page_none:
  "heap_ok s fs L \<Longrightarrow> pmm_free_pages s = {} \<Longrightarrow> heap_add_page s = Some (0, s)"
  by (simp add: heap_add_page_def heap_ok_def pmm_alloc_empty)


lemma first_fit_ok:
  assumes inv: "heap_ok s fs L" and sz: "16 dvd unat sz" "16 \<le> unat sz"
  shows "case fit sz fs of
      None \<Rightarrow> first_fit sz 0 (free_list s) s = Some (None, s)
    | Some (b, rem) \<Rightarrow> \<exists>m p. first_fit sz 0 (free_list s) s = Some (Some (fst b + 16), s\<lparr>mem := m, free_list := p\<rparr>)
        \<and> heap_ok (s\<lparr>mem := m, free_list := p\<rparr>) rem (insert b L) \<and> b \<notin> L \<and> live_kept L (mem s) m"
proof -
  have ch: "chain (mem s) (free_list s) fs" and ok: "blocks_ok fs" using inv by (auto simp: heap_ok_def)
  have seg: "case fit sz fs of
      None \<Rightarrow> first_fit sz 0 (free_list s) s = Some (None, s)
    | Some (b, rem) \<Rightarrow> \<exists>m p. first_fit sz 0 (free_list s) s = Some (Some (fst b + 16), s\<lparr>mem := m, free_list := p\<rparr>)
        \<and> chain m p rem \<and> hdr_size m (fst b) = snd b \<and> frame fs (mem s) m \<and> blocks_ok rem"
    using first_fit_segment [of s "[]" "free_list s" fs 0 sz] ch ok sz by (simp only: seg.simps append_Nil simp_thms if_True)
  show ?thesis
  proof (cases "fit sz fs")
    case None
    then show ?thesis using seg by simp
  next
    case (Some r)
    obtain b rem where r: "r = (b, rem)" by (rule prod.exhaust)
    obtain m p where mp: "first_fit sz 0 (free_list s) s = Some (Some (fst b + 16), s\<lparr>mem := m, free_list := p\<rparr>)"
        "chain m p rem" "hdr_size m (fst b) = snd b" "frame fs (mem s) m" "blocks_ok rem"
      using seg Some r by auto
    note fp = fit_props [OF Some [unfolded r] ok sz]
    have apL: "\<forall>c \<in> L. \<forall>d \<in> set fs. apart c d" using inv by (simp add: heap_ok_def)
    have ins: "apart c d" if "\<forall>d \<in> set fs. apart c d" "d \<in> set (b # rem)" for c d
      using fp(5) that apart_inside by blast
    have self: "\<not> apart b b" by (cases b) (simp add: apart_def)
    then have new: "b \<notin> L" using ins [of b b] apL by auto
    have sizes: "hdr_size m (fst c) = snd c" if "c \<in> L" for c
      using frame_live_size [OF mp(4), of c] apL that inv unfolding heap_ok_def by simp
    have apb: "apart c d" if "c \<in> L \<or> c \<in> (\<lambda>q. (page_addr q, 4080)) ` pmm_free_pages s" "d \<in> set (b # rem)" for c d
      using ins [OF _ that(2), of c] that(1) inv unfolding heap_ok_def by blast
    have apb': "apart b c" if "c \<in> L" for c using apb [of c b] that by (simp add: apart_sym)
    have "heap_ok (s\<lparr>mem := m, free_list := p\<rparr>) rem (insert b L)"
      using inv mp(2,3,5) fp(1,4,6) new sizes apb apb' unfolding heap_ok_def
      by (auto simp del: block_ok.simps)
    then show ?thesis using mp(1) new frame_live_kept [OF mp(4) apL] by (auto simp: Some r)
  qed
qed

lemma grow_loop_ok:
  assumes "heap_ok s fs L"
  shows "\<exists>ok s' fs'. grow_loop n s = Some (ok, s') \<and> heap_ok s' fs' L \<and> live_kept L (mem s) (mem s')
    \<and> (ok \<longrightarrow> unat (heap_pages s') = unat (heap_pages s) + n) \<and> (\<not> ok \<longrightarrow> pmm_free_pages s' = {})"
  using assms
proof (induction n arbitrary: s fs)
  case 0
  then show ?case by auto
next
  case (Suc n)
  show ?case
  proof (cases "pmm_free_pages s = {}")
    case True
    then show ?thesis using Suc.prems by (auto simp: heap_add_page_none [OF Suc.prems])
  next
    case False
    from heap_add_page_ok [OF Suc.prems False] obtain a s1 where
      s1: "heap_add_page s = Some (a, s1)" "a \<noteq> 0" "heap_ok s1 (coalesce (insert_block (a, 4080) fs)) L"
        "live_kept L (mem s) (mem s1)" "heap_pages s1 = heap_pages s + 1"
      by blast
    have "unat (heap_pages s) < 4096"
      using Suc.prems False card_gt_0_iff [of "pmm_free_pages s"] unfolding heap_ok_def by simp
    then have hp: "unat (heap_pages s1) = unat (heap_pages s) + 1"
      by (simp add: s1(5) unat_add_small)
    from Suc.IH [OF s1(3)] obtain ok s' fs' where
      "grow_loop n s1 = Some (ok, s')" "heap_ok s' fs' L" "live_kept L (mem s1) (mem s')"
        "ok \<longrightarrow> unat (heap_pages s') = unat (heap_pages s1) + n" "\<not> ok \<longrightarrow> pmm_free_pages s' = {}"
      by blast
    then show ?thesis using s1(1,2,4) hp live_kept_trans by (intro exI [of _ ok] exI [of _ s'] exI [of _ fs']) auto
  qed
qed


lemma kmalloc_size_ok:
  shows "16 dvd unat (kmalloc_size sz)" and "16 \<le> unat (kmalloc_size sz)"
    and "unat sz \<le> 0xFFFFFFF0 \<Longrightarrow> unat sz \<le> unat (kmalloc_size sz)"
    and "unat sz \<le> 0xFFFFFFF0 \<Longrightarrow> sz \<noteq> 0 \<Longrightarrow> unat (kmalloc_size sz) < unat sz + 16"
proof -
  define r where "r = (sz + 15) AND NOT (mask 4 :: u32)"
  have r: "unat r = 16 * (unat (sz + 15) div 16)"
    by (simp add: r_def unat_and_not_mask)
  have m: "mask 4 = (15 :: u32)" by (simp add: mask_eq_exp_minus_1)
  have k: "kmalloc_size sz = (if unat r < 16 then 16 else r)"
    by (simp add: kmalloc_size_def Let_def r_def m word_less_nat_alt add_diff_eq [symmetric])
  show "16 dvd unat (kmalloc_size sz)" "16 \<le> unat (kmalloc_size sz)" using r k by auto
  assume le: "unat sz \<le> 0xFFFFFFF0"
  then have e: "unat (sz + 15) = unat sz + 15" by (simp add: unat_add_small)
  show "unat sz \<le> unat (kmalloc_size sz)" using r k e by auto
  assume "sz \<noteq> 0"
  then have "0 < unat sz" by (simp add: unat_gt_0)
  then show "unat (kmalloc_size sz) < unat sz + 16" using r k e by auto
qed

subsection \<open>Allocation and release\<close>

lemma kmalloc_found:
  assumes inv: "heap_ok s fs L" and "sz \<noteq> 0" and fit: "fit (kmalloc_size sz) fs = Some (b, rem)"
  shows "\<exists>m p. kmalloc sz s = Some (fst b + 16, s\<lparr>mem := m, free_list := p\<rparr>)
    \<and> heap_ok (s\<lparr>mem := m, free_list := p\<rparr>) rem (insert b L) \<and> b \<notin> L \<and> live_kept L (mem s) m"
proof -
  obtain m p where "first_fit (kmalloc_size sz) 0 (free_list s) s = Some (Some (fst b + 16), s\<lparr>mem := m, free_list := p\<rparr>)"
    and rest: "heap_ok (s\<lparr>mem := m, free_list := p\<rparr>) rem (insert b L)" "b \<notin> L" "live_kept L (mem s) m"
    using first_fit_ok [OF inv kmalloc_size_ok(1,2) [of sz]] by (auto simp: fit)
  then have "kmalloc sz s = Some (fst b + 16, s\<lparr>mem := m, free_list := p\<rparr>)"
    using assms(2) by (simp add: kmalloc_def Let_def)
  with rest show ?thesis by blast
qed

lemma kmalloc_not_found:
  assumes inv: "heap_ok s fs L" and sz: "sz \<noteq> 0" and fit: "fit (kmalloc_size sz) fs = None"
  defines "n \<equiv> unat ((kmalloc_size sz + HEADER_SIZE + PAGE_SIZE - 1) div PAGE_SIZE)"
  shows "kmalloc sz s = do {
      (ok, s) \<leftarrow> grow_loop n s;
      if \<not> ok then Some (0, s)
      else do {
        (found, s) \<leftarrow> first_fit (kmalloc_size sz) 0 (free_list s) s;
        Some (case found of Some p \<Rightarrow> p | None \<Rightarrow> 0, s)
      }
    }"
  using first_fit_ok [OF inv kmalloc_size_ok(1,2) [of sz]] sz
  by (simp add: fit kmalloc_def Let_def n_def)

text \<open>What a caller gets: nothing, or a block nobody else holds.\<close>

definition kmalloc_result :: "u32 \<Rightarrow> 'z kheap_scheme \<Rightarrow> block set \<Rightarrow> u32 \<Rightarrow> bool" where
  "kmalloc_result sz s L p \<longleftrightarrow>
    (if p = 0 then \<exists>fs. heap_ok s fs L
     else \<exists>fs n. (p - 16, n) \<notin> L \<and> heap_ok s fs (insert (p - 16, n) L)
       \<and> unat (kmalloc_size sz) \<le> unat n \<and> unat n < unat (kmalloc_size sz) + 32)"

lemma payload_nonzero: "block_ok b \<Longrightarrow> fst b + 16 \<noteq> 0"
proof -
  assume "block_ok b"
  then have "unat (fst b + 16) = unat (fst b) + 16" by (cases b) (simp add: unat_add_small)
  then show ?thesis by (metis add_is_0 unat_0 zero_neq_numeral)
qed

lemma kmalloc_result_found:
  assumes "heap_ok t fs L" and "fit (kmalloc_size sz) fs = Some (b, rem)"
    and "heap_ok s rem (insert b L)" and "b \<notin> L"
  shows "kmalloc_result sz s L (fst b + 16)"
proof -
  have "blocks_ok fs" using assms(1) by (simp add: heap_ok_def)
  note fp = fit_props [OF assms(2) this kmalloc_size_ok(1,2)]
  have "(fst b + 16 - 16, snd b) = b" by simp
  then show ?thesis
    using assms(3,4) fp(2,3) payload_nonzero [OF fp(1)] unfolding kmalloc_result_def
    by (metis word_le_nat_alt)
qed

lemma kmalloc_ok:
  assumes inv: "heap_ok s fs L"
  shows "\<exists>p s'. kmalloc sz s = Some (p, s') \<and> live_kept L (mem s) (mem s') \<and> kmalloc_result sz s' L p"
proof (cases "sz = 0")
  case True
  then show ?thesis using inv by (auto simp: kmalloc_def kmalloc_result_def)
next
  case False
  show ?thesis
  proof (cases "fit (kmalloc_size sz) fs")
    case (Some r)
    obtain b rem where r: "r = (b, rem)" by (rule prod.exhaust)
    obtain m p where f: "kmalloc sz s = Some (fst b + 16, s\<lparr>mem := m, free_list := p\<rparr>)"
        "heap_ok (s\<lparr>mem := m, free_list := p\<rparr>) rem (insert b L)" "b \<notin> L" "live_kept L (mem s) m"
      using kmalloc_found [OF inv False Some [unfolded r]] by blast
    then show ?thesis using kmalloc_result_found [OF inv Some [unfolded r] f(2,3)] by simp
  next
    case None
    let ?n = "unat ((kmalloc_size sz + HEADER_SIZE + PAGE_SIZE - 1) div PAGE_SIZE)"
    obtain ok t ft where g: "grow_loop ?n s = Some (ok, t)" "heap_ok t ft L" "live_kept L (mem s) (mem t)"
      using grow_loop_ok [OF inv] by blast
    note km = kmalloc_not_found [OF inv False None]
    show ?thesis
    proof (cases "ok")
      case ok: True
      show ?thesis
      proof (cases "fit (kmalloc_size sz) ft")
        case None
        then have "kmalloc sz s = Some (0, t)"
          using km g(1) ok first_fit_ok [OF g(2) kmalloc_size_ok(1,2) [of sz]] by simp
        then show ?thesis using g(2,3) by (auto simp: kmalloc_result_def)
      next
        case (Some r)
        obtain b rem where r: "r = (b, rem)" by (rule prod.exhaust)
        obtain m p where f: "first_fit (kmalloc_size sz) 0 (free_list t) t = Some (Some (fst b + 16), t\<lparr>mem := m, free_list := p\<rparr>)"
            "heap_ok (t\<lparr>mem := m, free_list := p\<rparr>) rem (insert b L)" "b \<notin> L" "live_kept L (mem t) m"
          using first_fit_ok [OF g(2) kmalloc_size_ok(1,2) [of sz]] Some r by auto
        then have "kmalloc sz s = Some (fst b + 16, t\<lparr>mem := m, free_list := p\<rparr>)" using km g(1) ok by simp
        then show ?thesis
          using kmalloc_result_found [OF g(2) Some [unfolded r] f(2,3)] live_kept_trans [OF g(3) f(4)] by simp
      qed
    next
      case False
      then have "kmalloc sz s = Some (0, t)" using km g(1) by simp
      then show ?thesis using g(2,3) by (auto simp: kmalloc_result_def)
    qed
  qed
qed

lemma kfree_ok:
  assumes inv: "heap_ok s fs (insert b L)" and new: "b \<notin> L"
  shows "\<exists>s'. kfree (fst b + 16) s = Some s' \<and> heap_ok s' (coalesce (insert_block b fs)) L
    \<and> live_kept L (mem s) (mem s') \<and> heap_pages s' = heap_pages s \<and> pmm_free_pages s' = pmm_free_pages s"
proof -
  have "block_ok b" using inv by (simp add: heap_ok_def)
  then have "fst b + 16 \<noteq> 0" by (rule payload_nonzero)
  moreover obtain m p where
    r: "do { s \<leftarrow> list_insert (fst b) s; m \<leftarrow> coalesce_all (free_list s) (mem s); Some (s\<lparr>mem := m\<rparr>) }
      = Some (s\<lparr>mem := m, free_list := p\<rparr>)"
    "heap_ok (s\<lparr>mem := m, free_list := p\<rparr>) (coalesce (insert_block b fs)) L" "live_kept L (mem s) m"
    using release_ok [OF inv new] by blast
  ultimately have "kfree (fst b + 16) s = Some (s\<lparr>mem := m, free_list := p\<rparr>)"
    by (simp add: kfree_def)
  then show ?thesis using r(2,3) by simp
qed

text \<open>A request of up to one page's payload is only refused when the memory is used up.\<close>

lemma coalesce_keeps_size:
  assumes "blocks_ok bs" and "b \<in> set bs"
  shows "\<exists>c \<in> set (coalesce bs). snd b \<le> snd c"
  using assms
proof (induction bs rule: coalesce.induct)
  case (3 a n a' k bs)
  have bs: "blocks_ok bs" "blocks_ok ((a', k) # bs)" using "3.prems"(1) by (auto simp: blocks_ok_Cons)
  show ?case
  proof (cases "unat a + 16 + unat n = unat a'")
    case True
    then have "n \<le> n + (16 + k)" "k \<le> n + (16 + k)"
      using merge_sizes(1) [OF "3.prems"(1) True] by (simp_all add: word_le_nat_alt)
    then show ?thesis using "3.IH"(1) [OF True bs(1)] "3.prems"(2) True by auto
  next
    case False
    then show ?thesis using "3.IH"(2) [OF False bs(2)] "3.prems"(2) by auto
  qed
qed auto

lemma kmalloc_refused:
  assumes inv: "heap_ok s fs L" and sz: "0 < unat sz" "unat sz \<le> 4080" and none: "kmalloc sz s = Some (0, s')"
  shows "pmm_free_pages s = {} \<and> (\<forall>c \<in> set fs. unat (snd c) < unat (kmalloc_size sz))"
proof -
  have s0: "sz \<noteq> 0" using sz by auto
  have k: "unat (kmalloc_size sz) \<le> 4080"
  proof -
    have "unat (kmalloc_size sz) < unat sz + 16" using sz s0 by (intro kmalloc_size_ok) auto
    then show ?thesis using kmalloc_size_ok(1) [of sz] sz(2) by (elim dvdE) simp
  qed
  have fit: "fit (kmalloc_size sz) fs = None"
  proof (cases "fit (kmalloc_size sz) fs")
    case (Some r)
    obtain b rem where r: "r = (b, rem)" by (rule prod.exhaust)
    have "fst b + 16 = 0" using kmalloc_found [OF inv s0 Some [unfolded r]] none by auto
    moreover have "block_ok b"
      using fit_props(1) [OF Some [unfolded r] _ kmalloc_size_ok(1,2)] inv by (simp add: heap_ok_def)
    ultimately show ?thesis using payload_nonzero by blast
  qed
  have one: "unat ((kmalloc_size sz + HEADER_SIZE + PAGE_SIZE - 1) div PAGE_SIZE) = 1"
  proof -
    have "kmalloc_size sz + HEADER_SIZE + PAGE_SIZE - 1 = kmalloc_size sz + 4111" by simp
    moreover have "unat (kmalloc_size sz + 4111) = unat (kmalloc_size sz) + 4111"
      using k by (simp add: unat_add_small)
    ultimately show ?thesis using k kmalloc_size_ok(2) [of sz] by (simp only: unat_div) simp
  qed
  have "pmm_free_pages s = {}"
  proof (rule ccontr)
    assume ne: "pmm_free_pages s \<noteq> {}"
    let ?a = "page_addr (Min (pmm_free_pages s))"
    let ?fs = "coalesce (insert_block (?a, 4080) fs)"
    obtain t where t: "heap_add_page s = Some (?a, t)" "?a \<noteq> 0" "heap_ok t ?fs L"
      using heap_add_page_ok [OF inv ne] by blast
    have "blocks_ok (insert_block (?a, 4080) fs)" using fresh_page_ok(1) [OF inv ne] ne
      unfolding heap_ok_def by (intro blocks_ok_insert_block) auto
    then have "\<exists>c \<in> set ?fs. 4080 \<le> snd c" using coalesce_keeps_size [of _ "(?a, 4080)"] by fastforce
    then have "fit (kmalloc_size sz) ?fs \<noteq> None"
      using k unfolding fit_None by (fastforce simp: word_less_nat_alt word_le_nat_alt)
    then obtain b rem where f: "fit (kmalloc_size sz) ?fs = Some (b, rem)" by (metis not_None_eq surj_pair)
    have "fst b + 16 = 0"
      using kmalloc_not_found [OF inv s0 fit] none t(1,2) first_fit_ok [OF t(3) kmalloc_size_ok(1,2) [of sz]] f
      unfolding one One_nat_def by auto
    moreover have "block_ok b"
      using fit_props(1) [OF f _ kmalloc_size_ok(1,2)] t(3) by (simp add: heap_ok_def)
    ultimately show False using payload_nonzero by blast
  qed
  then show ?thesis using fit by (simp add: fit_None word_less_nat_alt)
qed

subsection \<open>Statistics\<close>

lemma heap_stats_walk_chain:
  assumes "chain m p bs"
  shows "heap_stats_walk m p bytes blocks =
    Some (bytes + (\<Sum>b \<leftarrow> bs. snd b), blocks + of_nat (length bs))"
  using assms
proof (induction bs arbitrary: p bytes blocks)
  case Nil
  then show ?case by (simp add: heap_stats_walk.simps)
next
  case (Cons b bs)
  obtain a n where b: "b = (a, n)" by force
  have a: "p = a" "a \<noteq> 0" "hdr_size m a = n" "hdr_is_free m a = 1" "chain m (hdr_next m a) bs"
    using Cons.prems by (auto simp: b)
  have "heap_stats_walk m p bytes blocks = heap_stats_walk m (hdr_next m a) (bytes + n) (blocks + 1)"
    using a by (subst heap_stats_walk.simps) simp
  then show ?case using Cons.IH [OF a(5)] by (simp add: b algebra_simps)
qed

lemma heap_pages_bound: "heap_ok s fs L \<Longrightarrow> unat (heap_pages s) \<le> 4096"
  by (simp add: heap_ok_def)

lemma sum_sizes_total: "(\<Sum>b \<leftarrow> bs. unat (snd b)) + 16 * length bs = total bs"
  by (induction bs) auto

lemma sum_sizes_word: "(\<Sum>b \<leftarrow> bs. snd b) = of_nat (\<Sum>b \<leftarrow> bs. unat (snd b))" for bs :: "block list"
  by (induction bs) simp_all

lemma heap_get_stats_ok:
  assumes inv: "heap_ok s fs L"
  shows "\<exists>st. heap_get_stats s = Some st
    \<and> unat (total_bytes st) = 4096 * unat (heap_pages s)
    \<and> unat (free_bytes st) = (\<Sum>b \<leftarrow> fs. unat (snd b))
    \<and> unat (used_bytes st) = (\<Sum>b \<in> L. 16 + unat (snd b)) + 16 * length fs
    \<and> unat (num_free_blocks st) = length fs \<and> num_pages st = heap_pages s"
proof -
  have acc: "total fs + (\<Sum>b \<in> L. 16 + unat (snd b)) = 4096 * unat (heap_pages s)"
    and ch: "chain (mem s) (free_list s) fs"
    using inv by (auto simp: heap_ok_def)
  note hp = heap_pages_bound [OF inv] and tot = sum_sizes_total [of fs]
  define f where "f = (\<Sum>b \<leftarrow> fs. snd b)"
  have f: "unat f = (\<Sum>b \<leftarrow> fs. unat (snd b))"
    unfolding f_def sum_sizes_word using acc hp tot by (intro unat_of_nat_u32) simp
  have t: "unat (heap_pages s * 4096) = 4096 * unat (heap_pages s)"
    using hp by (simp add: unat_word_ariths)
  have "length fs < 2 ^ 32" using acc hp tot by simp
  then have l: "unat (of_nat (length fs) :: u32) = length fs" by (rule unat_of_nat_u32)
  have u: "unat (heap_pages s * 4096 - f) = 4096 * unat (heap_pages s) - unat f"
    using t f acc tot by (subst unat_sub) (simp_all add: word_le_nat_alt)
  have "heap_get_stats s = Some \<lparr>total_bytes = heap_pages s * 4096, free_bytes = f,
      used_bytes = heap_pages s * 4096 - f, num_free_blocks = of_nat (length fs), num_pages = heap_pages s\<rparr>"
    using heap_stats_walk_chain [OF ch, of 0 0] by (simp add: heap_get_stats_def f_def)
  then show ?thesis using f t l u acc tot by simp
qed

subsection \<open>Initialisation\<close>

lemma heap_ok_empty:
  assumes "pmm_wf s" and "free_list s = 0" and "heap_pages s = 0"
  shows "heap_ok s [] {}"
proof -
  have "card (pmm_free_pages s) \<le> card {..< 4096 :: nat}"
    using pmm_free_pages_bound by (intro card_mono) auto
  then show ?thesis using assms by (simp add: heap_ok_def)
qed

lemma heap_init_loop_ok:
  assumes "heap_ok s fs L"
  shows "\<exists>s' fs'. heap_init_loop n s = Some s' \<and> heap_ok s' fs' L \<and> live_kept L (mem s) (mem s')
    \<and> unat (heap_pages s') = unat (heap_pages s) + min n (card (pmm_free_pages s))"
  using assms
proof (induction n arbitrary: s fs)
  case 0
  then show ?case by auto
next
  case (Suc n)
  show ?case
  proof (cases "pmm_free_pages s = {}")
    case True
    then show ?thesis using Suc.IH [OF Suc.prems] by (simp add: heap_add_page_none [OF Suc.prems])
  next
    case False
    from heap_add_page_ok [OF Suc.prems False] obtain a t where
      t: "heap_add_page s = Some (a, t)" "heap_ok t (coalesce (insert_block (a, 4080) fs)) L"
        "live_kept L (mem s) (mem t)" "pmm_free_pages t = pmm_free_pages s - {Min (pmm_free_pages s)}"
        "heap_pages t = heap_pages s + 1"
      by blast
    have c: "card (pmm_free_pages s) = Suc (card (pmm_free_pages t))"
      unfolding t(4) using False by (intro card.remove) auto
    then have hp: "unat (heap_pages t) = unat (heap_pages s) + 1"
      using Suc.prems unfolding t(5) heap_ok_def by (subst unat_add_small) simp_all
    from Suc.IH [OF t(2)] obtain s' fs' where
      "heap_init_loop n t = Some s'" "heap_ok s' fs' L" "live_kept L (mem t) (mem s')"
        "unat (heap_pages s') = unat (heap_pages t) + min n (card (pmm_free_pages t))"
      by blast
    then show ?thesis using t(1) live_kept_trans [OF t(3)] hp c
      by (intro exI [of _ s'] exI [of _ fs']) simp
  qed
qed

subsection \<open>Callers of the heap\<close>

lemma hdr_upd_other:
  assumes "\<And>k. k < 16 \<Longrightarrow> x \<noteq> a + k"
  shows "hdr_size (m(x := v)) a = hdr_size m a" and "hdr_is_free (m(x := v)) a = hdr_is_free m a"
    and "hdr_next (m(x := v)) a = hdr_next m a"
proof -
  have "ld32 (m(x := v)) (a + j) = ld32 m (a + j)" if "j \<in> {0, 4, 8}" for j
  proof (rule ld32_cong)
    fix k :: u32 assume "k < 4"
    then have "j + k < 16" using that by (auto simp: word_less_nat_alt unat_add_small)
    then show "(m(x := v)) (a + j + k) = m (a + j + k)" using assms [of "j + k"] by (simp add: add.assoc)
  qed
  from this [of 0] this [of 4] this [of 8]
  show "hdr_size (m(x := v)) a = hdr_size m a" "hdr_is_free (m(x := v)) a = hdr_is_free m a"
    "hdr_next (m(x := v)) a = hdr_next m a"
    by (simp_all add: hdr_size_def hdr_is_free_def hdr_next_def)
qed

definition in_payload :: "block \<Rightarrow> u32 \<Rightarrow> bool" where
  "in_payload b x \<longleftrightarrow> unat (fst b) + 16 \<le> unat x \<and> unat x < block_end b"

lemma payload_not_header:
  assumes "in_payload b x" and "c = b \<or> apart b c" and "aligned16 (fst c)" and "k < 16"
  shows "x \<noteq> fst c + k"
proof -
  have "unat (fst c + k) = unat (fst c) + unat k" using assms(3,4) by (rule header_byte)
  moreover have "unat k < 16" using assms(4) by (simp add: word_less_nat_alt)
  moreover have "unat (fst c) + 16 \<le> block_end c" by (cases c) simp
  ultimately have "unat x \<noteq> unat (fst c + k)" using assms(1,2) by (auto simp: in_payload_def apart_def)
  then show ?thesis by blast
qed

text \<open>A caller may write its block as it likes.\<close>

lemma heap_ok_write:
  assumes inv: "heap_ok s fs L" and b: "b \<in> L" and x: "in_payload b x"
  shows "heap_ok (s\<lparr>mem := (mem s)(x := v)\<rparr>) fs L"
proof -
  have nothd: "x \<noteq> fst c + k" if "c \<in> L \<or> c \<in> set fs" "k < 16" for c k
  proof (rule payload_not_header [OF x _ _ that(2)])
    show "c = b \<or> apart b c" using inv b that(1) unfolding heap_ok_def by (elim conjE disjE) auto
    show "aligned16 (fst c)" using inv that(1) blocks_ok_member [of fs c] block_ok_aligned [of "fst c" "snd c"]
      unfolding heap_ok_def by auto
  qed
  have "chain ((mem s)(x := v)) (free_list s) fs"
  proof (rule chain_cong)
    show "chain (mem s) (free_list s) fs" using inv by (simp add: heap_ok_def)
    show "hdr_size ((mem s)(x := v)) a = hdr_size (mem s) a \<and> hdr_is_free ((mem s)(x := v)) a = hdr_is_free (mem s) a
      \<and> hdr_next ((mem s)(x := v)) a = hdr_next (mem s) a" if "(a, n) \<in> set fs" for a n
      using hdr_upd_other [of x a] nothd [of "(a, n)"] that by auto
  qed
  moreover have "hdr_size ((mem s)(x := v)) (fst c) = hdr_size (mem s) (fst c)" if "c \<in> L" for c
    using hdr_upd_other(1) [of x "fst c"] nothd [of c] that by auto
  ultimately show ?thesis using inv unfolding heap_ok_def by simp
qed

text \<open>
  The states a kernel can reach whose code uses the heap as intended: \<open>H\<close> are the pointers it
  holds; it frees only these, once, and writes only the bytes of their blocks.
\<close>

inductive heap_run :: "'z kheap_scheme \<Rightarrow> u32 set \<Rightarrow> bool" where
  init: "pmm_wf s \<Longrightarrow> free_list s = 0 \<Longrightarrow> heap_pages s = 0 \<Longrightarrow> heap_init s = Some s' \<Longrightarrow> heap_run s' {}"
| malloc: "heap_run s H \<Longrightarrow> kmalloc sz s = Some (p, s') \<Longrightarrow> heap_run s' (if p = 0 then H else insert p H)"
| free: "heap_run s H \<Longrightarrow> p \<in> H \<Longrightarrow> kfree p s = Some s' \<Longrightarrow> heap_run s' (H - {p})"
| store: "heap_run s H \<Longrightarrow> p \<in> H \<Longrightarrow> p \<le> x \<Longrightarrow> x - p < hdr_size (mem s) (p - 16) \<Longrightarrow>
    heap_run (s\<lparr>mem := (mem s)(x := v)\<rparr>) H"

definition held :: "block set \<Rightarrow> u32 set" where
  "held L = (\<lambda>b. fst b + 16) ` L"

lemma held_unique:
  assumes "heap_ok s fs L" and "b \<in> L" and "c \<in> L" and "fst b = fst c"
  shows "b = c"
proof (rule ccontr)
  assume "b \<noteq> c"
  then have "apart b c" using assms(1-3) unfolding heap_ok_def by blast
  then show False using assms(4) by (cases b; cases c) (simp add: apart_def)
qed

lemma heap_run_ok:
  assumes "heap_run s H"
  shows "\<exists>fs L. heap_ok s fs L \<and> H = held L"
  using assms
proof induction
  case (init s s')
  then obtain fs' where "heap_ok s' fs' {}"
    using heap_init_loop_ok [OF heap_ok_empty, of s 16] by (auto simp: heap_init_def)
  then show ?case by (intro exI [of _ fs'] exI [of _ "{}"]) (simp add: held_def)
next
  case (malloc s H sz p s')
  then obtain fs L where ih: "heap_ok s fs L" "H = held L" by blast
  from kmalloc_ok [OF ih(1), of sz] malloc(2) have "kmalloc_result sz s' L p" by auto
  then show ?case
  proof (cases "p = 0")
    case False
    then obtain fs' n where "heap_ok s' fs' (insert (p - 16, n) L)"
      using \<open>kmalloc_result sz s' L p\<close> by (auto simp: kmalloc_result_def)
    then show ?thesis using False ih(2)
      by (intro exI [of _ fs'] exI [of _ "insert (p - 16, n) L"]) (simp add: held_def)
  qed (use ih(2) in \<open>auto simp: kmalloc_result_def\<close>)
next
  case (free s H p s')
  then obtain fs L where ih: "heap_ok s fs L" "H = held L" by blast
  then obtain b where b: "b \<in> L" "p = fst b + 16" using free(2) by (auto simp: held_def)
  then have "insert b (L - {b}) = L" by blast
  then obtain t where t: "kfree (fst b + 16) s = Some t" "heap_ok t (coalesce (insert_block b fs)) (L - {b})"
    using kfree_ok [of s fs b "L - {b}"] ih(1) by auto
  moreover have "inj_on (\<lambda>b. fst b + 16) L" using held_unique [OF ih(1)] by (intro inj_onI) simp
  then have "held (L - {b}) = held L - {p}"
    using inj_on_image_set_diff [of _ L L "{b}"] b by (simp add: held_def)
  ultimately show ?case using free(3) b(2) ih(2) by auto
next
  case (store s H p x v)
  then obtain fs L where ih: "heap_ok s fs L" "H = held L" by blast
  then obtain b where b: "b \<in> L" "p = fst b + 16" using store(2) by (auto simp: held_def)
  have sz: "hdr_size (mem s) (p - 16) = snd b" "block_ok b" using ih(1) b by (auto simp: heap_ok_def)
  then have p: "unat p = unat (fst b) + 16" unfolding b(2) by (cases b) (simp add: unat_add_small)
  have "unat x - unat p < unat (snd b)" "unat p \<le> unat x"
    using store(3,4) sz(1) by (simp_all add: word_less_nat_alt unat_sub word_le_nat_alt)
  then have "in_payload b x" using p by (cases b) (simp add: in_payload_def)
  then show ?case using heap_ok_write [OF ih(1) b(1)] ih(2) by blast
qed

subsection \<open>Properties\<close>

text \<open>The size of the block behind a pointer, and the bytes a caller may use.\<close>

definition alloc_size :: "'z kheap_scheme \<Rightarrow> u32 \<Rightarrow> nat" where
  "alloc_size s p = unat (hdr_size (mem s) (p - HEADER_SIZE))"

definition payload :: "'z kheap_scheme \<Rightarrow> u32 \<Rightarrow> nat set" where
  "payload s p = {unat p ..< unat p + alloc_size s p}"

lemma held_block:
  assumes "heap_ok s fs L" and "b \<in> L"
  shows "unat (fst b + 16) = unat (fst b) + 16" and "alloc_size s (fst b + 16) = unat (snd b)"
    and "payload s (fst b + 16) = {unat (fst b) + 16 ..< block_end b}"
proof -
  have b: "block_ok b" "hdr_size (mem s) (fst b) = snd b" using assms by (auto simp: heap_ok_def)
  then show p: "unat (fst b + 16) = unat (fst b) + 16" by (cases b) (simp add: unat_add_small)
  show a: "alloc_size s (fst b + 16) = unat (snd b)" using b(2) by (simp add: alloc_size_def)
  show "payload s (fst b + 16) = {unat (fst b) + 16 ..< block_end b}"
    unfolding payload_def p a by (cases b) simp
qed

lemma held_payloads_disjoint:
  assumes "heap_ok s fs L" and "b \<in> L" and "c \<in> L" and "b \<noteq> c"
  shows "payload s (fst b + 16) \<inter> payload s (fst c + 16) = {}"
proof -
  have "apart b c" using assms unfolding heap_ok_def by auto
  then show ?thesis
    unfolding held_block(3) [OF assms(1,2)] held_block(3) [OF assms(1,3)] by (auto simp: apart_def)
qed

lemma live_kept_payload:
  assumes "live_kept K (mem s) (mem s')" and "heap_ok s fs L" and "heap_ok s' fs' L'"
    and "b \<in> L" and "b \<in> L'" and "b \<in> K"
  shows "payload s' (fst b + 16) = payload s (fst b + 16)"
    and "\<forall>x. unat x \<in> payload s (fst b + 16) \<longrightarrow> mem s' x = mem s x"
proof -
  show "payload s' (fst b + 16) = payload s (fst b + 16)"
    by (simp only: held_block(3) [OF assms(2,4)] held_block(3) [OF assms(3,5)])
  show "\<forall>x. unat x \<in> payload s (fst b + 16) \<longrightarrow> mem s' x = mem s x"
    using assms(1,6) unfolding held_block(3) [OF assms(2,4)] live_kept_def by auto
qed

text \<open>
  C3: the heap never gets stuck and never hands out memory twice: in every state a correct client
  can reach, kmalloc returns for every size, kfree returns for every pointer the client holds, and
  the memory behind different held pointers is disjoint, inside the 16 MB and 16-byte aligned.
\<close>

theorem heap_run_safe:
  assumes "heap_run s H"
  shows "(\<exists>r. kmalloc sz s = Some r) \<and> (\<forall>p \<in> H. \<exists>s'. kfree p s = Some s')
    \<and> (\<forall>p \<in> H. 16 dvd unat p \<and> payload s p \<subseteq> {0 <..< 2 ^ 24})
    \<and> (\<forall>p \<in> H. \<forall>q \<in> H. p \<noteq> q \<longrightarrow> payload s p \<inter> payload s q = {})"
proof -
  obtain fs L where ok: "heap_ok s fs L" "H = held L" using heap_run_ok [OF assms] by blast
  have "\<exists>r. kmalloc sz s = Some r" using kmalloc_ok [OF ok(1)] by blast
  moreover have "\<exists>s'. kfree (fst b + 16) s = Some s'" if "b \<in> L" for b
    using kfree_ok [of s fs b "L - {b}"] ok(1) that by (auto simp: insert_absorb)
  moreover have "16 dvd unat (fst b + 16) \<and> payload s (fst b + 16) \<subseteq> {0 <..< 2 ^ 24}" if "b \<in> L" for b
  proof -
    have "block_ok b" using ok(1) that by (simp add: heap_ok_def)
    then show ?thesis
      unfolding held_block(3) [OF ok(1) that] held_block(1) [OF ok(1) that] by (cases b) auto
  qed
  moreover have "payload s (fst b + 16) \<inter> payload s (fst c + 16) = {}"
    if "b \<in> L" "c \<in> L" "fst b + 16 \<noteq> fst c + 16" for b c
    using that by (intro held_payloads_disjoint [OF ok(1)]) auto
  ultimately show ?thesis unfolding ok(2) held_def by blast
qed

text \<open>
  the size kmalloc works with is the request rounded up to a multiple of 16, at least 16; a
  request above 0xFFFFFFF0 wraps around and is served with a 16-byte block.
\<close>

theorem kmalloc_size_rounding:
  "unat (kmalloc_size sz) =
    (if unat sz \<le> 0xFFFFFFF0 then max 16 (16 * ((unat sz + 15) div 16)) else 16)"
proof -
  define r where "r = (sz + 15) AND NOT (mask 4 :: u32)"
  have m: "mask 4 = (15 :: u32)" by (simp add: mask_eq_exp_minus_1)
  have "kmalloc_size sz = (if unat r < 16 then 16 else r)"
    by (simp add: kmalloc_size_def Let_def r_def m word_less_nat_alt add_diff_eq [symmetric])
  moreover have "unat r = 16 * (unat (sz + 15) div 16)" by (simp add: r_def unat_and_not_mask)
  moreover have "unat (sz + 15) = (if unat sz \<le> 0xFFFFFFF0 then unat sz + 15 else unat sz + 15 - 2 ^ 32)"
  proof (cases "unat sz \<le> 0xFFFFFFF0")
    case False
    then have "(unat sz + 15) mod 2 ^ 32 = unat sz + 15 - 2 ^ 32"
      using unat_u32_less [of sz] by (subst le_mod_geq) (simp_all add: mod_less [OF le_less_trans [OF diff_le_self unat_u32_less]])
    then show ?thesis using False by (simp add: unat_word_ariths)
  qed (simp add: unat_add_small)
  moreover have "unat sz + 15 - 4294967296 < 16" using unat_u32_less [of sz] by linarith
  then have "(unat sz + 15 - 2 ^ 32) div 16 = 0" by simp
  ultimately show ?thesis by (cases "unat sz \<le> 0xFFFFFFF0") (simp_all add: max_def)
qed

text \<open>
  C5: kmalloc returns a pointer that nobody holds, and every block the client holds keeps its size and
  contents. A request of at most 0xFFFFFFF0 bytes gets at least as many bytes as it asks for (and
  fewer than 48 more); a larger one wraps around when it is rounded up and gets fewer than 48 bytes.
\<close>

theorem kmalloc_fresh:
  assumes "heap_run s H" and "kmalloc sz s = Some (p, s')" and "p \<noteq> 0"
  shows "p \<notin> H
    \<and> (if unat sz \<le> 0xFFFFFFF0 then unat sz \<le> alloc_size s' p \<and> alloc_size s' p < unat sz + 48 else alloc_size s' p < 48)
    \<and> (\<forall>q \<in> H. payload s' q = payload s q \<and> payload s' p \<inter> payload s' q = {}
         \<and> (\<forall>x. unat x \<in> payload s q \<longrightarrow> mem s' x = mem s x))"
proof -
  obtain fs L where ok: "heap_ok s fs L" "H = held L" using heap_run_ok [OF assms(1)] by blast
  have kept: "live_kept L (mem s) (mem s')" and "kmalloc_result sz s' L p"
    using kmalloc_ok [OF ok(1), of sz] assms(2) by auto
  then obtain fs' n where b: "(p - 16, n) \<notin> L" "heap_ok s' fs' (insert (p - 16, n) L)"
      "unat (kmalloc_size sz) \<le> unat n" "unat n < unat (kmalloc_size sz) + 32"
    using assms(3) by (auto simp: kmalloc_result_def)
  let ?b = "(p - 16, n)"
  have p: "p = fst ?b + 16" by simp
  have sz0: "sz \<noteq> 0" using assms(2,3) by (auto simp: kmalloc_def)
  have size: "alloc_size s' p = unat n" using held_block(2) [OF b(2), of ?b] by simp
  have "p \<notin> H"
  proof
    assume "p \<in> H"
    then obtain c where "c \<in> L" "fst c = fst ?b" by (auto simp: ok(2) held_def)
    then show False using held_unique [OF b(2), of c ?b] b(1) by auto
  qed
  moreover have "payload s' (fst c + 16) = payload s (fst c + 16) \<and> payload s' p \<inter> payload s' (fst c + 16) = {}
      \<and> (\<forall>x. unat x \<in> payload s (fst c + 16) \<longrightarrow> mem s' x = mem s x)" if "c \<in> L" for c
    using live_kept_payload [OF kept ok(1) b(2) that] held_payloads_disjoint [OF b(2), of ?b c] that b(1) by auto
  then have "\<forall>q \<in> H. payload s' q = payload s q \<and> payload s' p \<inter> payload s' q = {}
      \<and> (\<forall>x. unat x \<in> payload s q \<longrightarrow> mem s' x = mem s x)"
    unfolding ok(2) held_def by (intro ballI, elim imageE, hypsubst) blast
  moreover have "if unat sz \<le> 0xFFFFFFF0 then unat sz \<le> alloc_size s' p \<and> alloc_size s' p < unat sz + 48 else alloc_size s' p < 48"
    using b(3,4) kmalloc_size_ok(3,4) [of sz] sz0 size kmalloc_size_rounding [of sz] by (auto split: if_splits)
  ultimately show ?thesis by blast
qed

text \<open>C19: freeing a held pointer keeps the size and the contents of all other blocks.\<close>

theorem kfree_keeps_others:
  assumes "heap_run s H" and "p \<in> H"
  shows "\<exists>s'. kfree p s = Some s' \<and> heap_run s' (H - {p}) \<and> heap_pages s' = heap_pages s
    \<and> (\<forall>q \<in> H - {p}. payload s' q = payload s q \<and> (\<forall>x. unat x \<in> payload s q \<longrightarrow> mem s' x = mem s x))"
proof -
  obtain fs L where ok: "heap_ok s fs L" "H = held L" using heap_run_ok [OF assms(1)] by blast
  then obtain b where b: "b \<in> L" "p = fst b + 16" using assms(2) by (auto simp: held_def)
  then have "insert b (L - {b}) = L" by blast
  then obtain s' where s': "kfree p s = Some s'" "heap_ok s' (coalesce (insert_block b fs)) (L - {b})"
      "live_kept (L - {b}) (mem s) (mem s')" "heap_pages s' = heap_pages s"
    using kfree_ok [of s fs b "L - {b}"] ok(1) b(2) by auto
  have "payload s' q = payload s q \<and> (\<forall>x. unat x \<in> payload s q \<longrightarrow> mem s' x = mem s x)" if "q \<in> H - {p}" for q
  proof -
    obtain c where c: "c \<in> L" "c \<noteq> b" "q = fst c + 16" using \<open>q \<in> H - {p}\<close> b(2) by (auto simp: ok(2) held_def)
    then show ?thesis using live_kept_payload [OF s'(3) ok(1) s'(2), of c] by auto
  qed
  then show ?thesis using s' heap_run.free [OF assms s'(1)] by blast
qed


text \<open>
  C15: kmalloc and kfree are a first-fit allocator on the sorted list of free blocks. A request that
  fits takes the first block that is large enough and leaves the rest of it on the list; freeing a
  block puts it back in address order and merges neighbours.
\<close>

theorem kmalloc_kfree_refine:
  assumes "heap_ok s fs L" and "sz \<noteq> 0"
  shows "(\<forall>b rem. fit (kmalloc_size sz) fs = Some (b, rem) \<longrightarrow>
      (\<exists>s'. kmalloc sz s = Some (fst b + 16, s') \<and> b \<notin> L \<and> heap_ok s' rem (insert b L)))
    \<and> (\<forall>b \<in> L. \<exists>s'. kfree (fst b + 16) s = Some s' \<and> heap_ok s' (coalesce (insert_block b fs)) (L - {b}))"
proof -
  have "\<exists>s'. kmalloc sz s = Some (fst b + 16, s') \<and> b \<notin> L \<and> heap_ok s' rem (insert b L)"
    if "fit (kmalloc_size sz) fs = Some (b, rem)" for b rem
    using kmalloc_found [OF assms that] by blast
  moreover have "\<exists>s'. kfree (fst b + 16) s = Some s' \<and> heap_ok s' (coalesce (insert_block b fs)) (L - {b})"
    if "b \<in> L" for b
    using kfree_ok [of s fs b "L - {b}"] assms(1) that by (auto simp: insert_absorb)
  ultimately show ?thesis by blast
qed

text \<open>
  C21: a request of at most 4080 bytes is refused only when the page manager has no page left and
  no free block is large enough.
\<close>

theorem kmalloc_refused_only_when_full:
  assumes "heap_ok s fs L" and "0 < unat sz" and "unat sz \<le> 4080" and "kmalloc sz s = Some (0, s')"
  shows "pmm_free_pages s = {} \<and> (\<forall>c \<in> set fs. unat (snd c) < unat (kmalloc_size sz))"
  using assms by (rule kmalloc_refused)

text \<open>
  the statistics are exact: the free bytes are the payload of the free blocks, the used bytes
  are the blocks in use with their headers and the headers of the free blocks.
\<close>

theorem heap_get_stats_exact:
  assumes "heap_ok s fs L"
  shows "\<exists>st. heap_get_stats s = Some st
    \<and> unat (total_bytes st) = 4096 * unat (heap_pages s)
    \<and> unat (free_bytes st) = (\<Sum>b \<leftarrow> fs. unat (snd b))
    \<and> unat (used_bytes st) = (\<Sum>b \<in> L. 16 + unat (snd b)) + 16 * length fs
    \<and> unat (num_free_blocks st) = length fs \<and> num_pages st = heap_pages s"
  using assms by (rule heap_get_stats_ok)

lemma coalesce_all_cycle:
  assumes "hdr_next m a = a" and "a \<noteq> 0" and "a + 16 + hdr_size m a \<noteq> a"
  shows "coalesce_all a m = None"
proof (rule ccontr)
  have fwd: "coalesce_forward a m = m" using assms by (simp add: coalesce_forward_def Let_def)
  have "\<not> (c = a \<and> n = m)" if "coalesce_all c n = Some y" for c n y
    by (rule coalesce_all.raw_induct [where P = "\<lambda>c n y. \<not> (c = a \<and> n = m)", OF _ that])
      (use fwd assms in \<open>fastforce split: if_splits\<close>)
  moreover assume "coalesce_all a m \<noteq> None"
  ultimately show False by blast
qed

text \<open>
  freeing the only free block a second time makes the list point to itself: the coalescing
  loop of kfree never ends.
\<close>

theorem kfree_twice_hangs:
  assumes "heap_ok s [(a, n)] L"
  shows "kfree (a + 16) s = None"
proof -
  have ch: "free_list s = a" "a \<noteq> 0" "hdr_size (mem s) a = n" "hdr_next (mem s) a = 0" and ok: "block_ok (a, n)"
    using assms by (auto simp: heap_ok_def blocks_ok_def)
  then have al: "aligned16 a" by (intro block_ok_aligned)
  let ?m = "set_is_free a 1 (mem s)"
  have "list_insert_walk ?m a a = Some a"
    using ch al by (subst list_insert_walk.simps) (simp add: mem_simps)
  then have ins: "list_insert a s = Some (s\<lparr>mem := set_next a a (set_next a 0 ?m)\<rparr>)"
    using ch al by (simp add: list_insert_def Let_def mem_simps)
  have "unat (16 + n) = 16 + unat n" using ok by (simp add: unat_add_small)
  then have "16 + n \<noteq> 0" by (metis add_is_0 unat_0 zero_neq_numeral)
  then have "coalesce_all a (set_next a a (set_next a 0 ?m)) = None"
    using ch al by (intro coalesce_all_cycle) (simp_all add: mem_simps add.assoc)
  moreover have "a + 16 \<noteq> 0" using payload_nonzero [OF ok] by simp
  ultimately show ?thesis using ins ch by (simp add: kfree_def)
qed


subsection \<open>A concrete heap\<close>

text \<open>
  A heap on a machine with a single free page, at 0x300000, and the same heap after a first
  allocation of 100 bytes.
\<close>

definition demo_heap0 :: kheap where
  "demo_heap0 = \<lparr>mem = (\<lambda>_. 0), bitmap = BITMAP_CLEAR 0x300 (replicate 512 0xFF), free_list = 0, heap_pages = 0\<rparr>"

definition demo_heap :: kheap where
  "demo_heap = the (heap_init demo_heap0)"

definition demo_heap1 :: kheap where
  "demo_heap1 = snd (the (kmalloc 100 demo_heap))"

lemma demo_heap0_ok: "pmm_free_pages demo_heap0 = {0x300}" "pmm_wf demo_heap0"
proof -
  show "pmm_free_pages demo_heap0 = {0x300}"
    using page_used_replicate by (auto simp: pmm_free_pages_def demo_heap0_def page_used_BITMAP_CLEAR)
  then show "pmm_wf demo_heap0" by (simp add: pmm_wf_def demo_heap0_def)
qed

lemma heap_init_loop_none:
  "heap_ok s fs L \<Longrightarrow> pmm_free_pages s = {} \<Longrightarrow> heap_init_loop n s = Some s"
  by (induction n) (simp_all add: heap_add_page_none)

lemma demo_heap_ok:
  shows "heap_init demo_heap0 = Some demo_heap" and "heap_ok demo_heap [(0x300000, 4080)] {}"
    and "pmm_free_pages demo_heap = {}" and "heap_run demo_heap {}"
proof -
  have inv: "heap_ok demo_heap0 [] {}"
    using demo_heap0_ok(2) by (rule heap_ok_empty) (simp_all add: demo_heap0_def)
  have a: "page_addr 0x300 = 0x300000" by (simp add: page_addr_def)
  obtain t where t: "heap_add_page demo_heap0 = Some (0x300000, t)" "heap_ok t [(0x300000, 4080)] {}"
      "pmm_free_pages t = {}"
    using heap_add_page_ok [OF inv] by (auto simp: demo_heap0_ok a)
  have "heap_init_loop (Suc 15) demo_heap0 = Some t"
    unfolding heap_init_loop.simps using t(1) heap_init_loop_none [OF t(2,3)] by simp
  then have i: "heap_init demo_heap0 = Some t" by (simp add: heap_init_def)
  then have "demo_heap = t" by (simp add: demo_heap_def)
  then show "heap_init demo_heap0 = Some demo_heap" "heap_ok demo_heap [(0x300000, 4080)] {}"
    "pmm_free_pages demo_heap = {}"
    using i t by simp_all
  then show "heap_run demo_heap {}"
    using demo_heap0_ok(2) by (intro heap_run.init [of demo_heap0]) (simp_all add: demo_heap0_def)
qed

lemma demo_heap1_ok:
  shows "kmalloc 100 demo_heap = Some (0x300010, demo_heap1)"
    and "heap_ok demo_heap1 [(0x300080, 3952)] {(0x300000, 112)}"
    and "pmm_free_pages demo_heap1 = {}" and "heap_run demo_heap1 {0x300010}"
proof -
  have sz: "kmalloc_size 100 = 112" by (simp add: kmalloc_size_def)
  then have "fit (kmalloc_size 100) [(0x300000, 4080)] = Some ((0x300000, 112), [(0x300080, 3952)])" by simp
  from kmalloc_found [OF demo_heap_ok(2) _ this] obtain m p where
    k: "kmalloc 100 demo_heap = Some (0x300010, demo_heap\<lparr>mem := m, free_list := p\<rparr>)"
      "heap_ok (demo_heap\<lparr>mem := m, free_list := p\<rparr>) [(0x300080, 3952)] {(0x300000, 112)}"
    by auto
  then have d: "demo_heap1 = demo_heap\<lparr>mem := m, free_list := p\<rparr>" by (simp add: demo_heap1_def)
  show km: "kmalloc 100 demo_heap = Some (0x300010, demo_heap1)"
    and "heap_ok demo_heap1 [(0x300080, 3952)] {(0x300000, 112)}" and "pmm_free_pages demo_heap1 = {}"
    using k demo_heap_ok(3) unfolding d by simp_all
  show "heap_run demo_heap1 {0x300010}" using heap_run.malloc [OF demo_heap_ok(4) km] by simp
qed

lemma demo_heap1_kmalloc:
  shows "\<exists>s'. kmalloc 200 demo_heap1 = Some (0x300090, s')" and "kmalloc 4000 demo_heap1 = Some (0, demo_heap1)"
proof -
  have "fit (kmalloc_size 200) [(0x300080, 3952)] = Some ((0x300080, 208), [(0x300160, 3728)])"
    by (simp add: kmalloc_size_def)
  from kmalloc_found [OF demo_heap1_ok(2) _ this] show "\<exists>s'. kmalloc 200 demo_heap1 = Some (0x300090, s')" by auto
  have "fit (kmalloc_size 4000) [(0x300080, 3952)] = None" by (simp add: kmalloc_size_def)
  moreover have "unat ((kmalloc_size 4000 + HEADER_SIZE + PAGE_SIZE - 1) div PAGE_SIZE) = Suc 0"
    by (simp add: kmalloc_size_def)
  ultimately show "kmalloc 4000 demo_heap1 = Some (0, demo_heap1)"
    using kmalloc_not_found [OF demo_heap1_ok(2), of 4000] heap_add_page_none [OF demo_heap1_ok(2,3)] by simp
qed


theorem heap_run_safe_witness:
  "heap_run demo_heap1 {0x300010} \<and> (\<exists>s'. kfree 0x300010 demo_heap1 = Some s')
    \<and> payload demo_heap1 0x300010 \<subseteq> {0 <..< 2 ^ 24}"
  using heap_run_safe [OF demo_heap1_ok(4)] demo_heap1_ok(4) by blast

theorem kmalloc_fresh_witness:
  "heap_run demo_heap1 {0x300010}
    \<and> (\<exists>s'. kmalloc 200 demo_heap1 = Some (0x300090, s') \<and> 200 \<le> alloc_size s' 0x300090
        \<and> payload s' 0x300090 \<inter> payload s' 0x300010 = {})"
proof -
  obtain s' where s': "kmalloc 200 demo_heap1 = Some (0x300090, s')" using demo_heap1_kmalloc(1) by blast
  then show ?thesis using kmalloc_fresh [OF demo_heap1_ok(4) s'] demo_heap1_ok(4) by auto
qed

theorem kfree_keeps_others_witness:
  "heap_run demo_heap1 {0x300010} \<and> (\<exists>s'. kfree 0x300010 demo_heap1 = Some s' \<and> heap_run s' {})"
  using kfree_keeps_others [OF demo_heap1_ok(4) singletonI] demo_heap1_ok(4) by auto

theorem kmalloc_kfree_refine_witness:
  "heap_ok demo_heap1 [(0x300080, 3952)] {(0x300000, 112)}
    \<and> (\<exists>s'. kmalloc 200 demo_heap1 = Some (0x300090, s') \<and> heap_ok s' [(0x300160, 3728)] {(0x300080, 208), (0x300000, 112)})
    \<and> (\<exists>s'. kfree 0x300010 demo_heap1 = Some s' \<and> heap_ok s' [(0x300000, 4080)] {})"
proof -
  have "fit (kmalloc_size 200) [(0x300080, 3952)] = Some ((0x300080, 208), [(0x300160, 3728)])"
    by (simp add: kmalloc_size_def)
  then show ?thesis using kmalloc_kfree_refine [OF demo_heap1_ok(2), of 200] demo_heap1_ok(2) by auto
qed

theorem kmalloc_refused_only_when_full_witness:
  "heap_ok demo_heap1 [(0x300080, 3952)] {(0x300000, 112)} \<and> kmalloc 4000 demo_heap1 = Some (0, demo_heap1)
    \<and> pmm_free_pages demo_heap1 = {}"
  using kmalloc_refused_only_when_full [OF demo_heap1_ok(2) _ _ demo_heap1_kmalloc(2)]
    demo_heap1_ok(2) demo_heap1_kmalloc(2) by simp

theorem heap_get_stats_exact_witness:
  "heap_ok demo_heap1 [(0x300080, 3952)] {(0x300000, 112)}
    \<and> (\<exists>st. heap_get_stats demo_heap1 = Some st \<and> unat (free_bytes st) = 3952 \<and> unat (used_bytes st) = 144)"
  using heap_get_stats_exact [OF demo_heap1_ok(2)] demo_heap1_ok(2) by auto

theorem kfree_twice_hangs_witness:
  "heap_ok demo_heap [(0x300000, 4080)] {} \<and> kfree 0x300010 demo_heap = None"
  using kfree_twice_hangs [OF demo_heap_ok(2)] demo_heap_ok(2) by simp

end
