(* ===== verification/Kernel_Inv.thy ===== *)
theory Kernel_Inv
  imports Kernel Heap_Safety
begin

text \<open>
  Well-formedness of the kernel state, and that booting and every step of the system keep it.
\<close>

subsection \<open>Well-formed states\<close>

definition kernel_ok :: "kernel \<Rightarrow> bool" where
  "kernel_ok s \<longleftrightarrow> vga_ok (screen s) \<and> kb_ok (keyb s) \<and> args_ok (current_program_args s)
     \<and> length (gdt (segments s)) = 6 \<and> length (idt (ints s)) = 256
     \<and> length (shell_cmd_buf s) = 64 \<and> shell_cmd_pos s < 64
     \<and> length (exec_stack s) = 8 \<and> exec_depth s \<le> 8
     \<and> (\<forall>i < exec_depth s. (jb_caller (exec_stack s ! i) \<in> range In_Program) = (0 < i))"

named_theorems kept \<open>operations that keep the state well-formed\<close>

text \<open>The fields that belong to the kernel record itself; the memory side does not touch them.\<close>

definition kview :: "kernel \<Rightarrow> _" where
  "kview s = (screen s, keyb s, disk s, segments s, ints s, current_program_args s, current_file s, exec_stack s, exec_depth s,
     user s, shell_cmd_buf s, shell_cmd_pos s)"

lemma kernel_ok_view: "kview s = kview s' \<Longrightarrow> kernel_ok s = kernel_ok s'"
  by (simp add: kview_def kernel_ok_def)

lemma kview_frame:
  "kview (schedule s) = kview s" "kview (paging_map v p f s) = kview s" "kview (map_user_pages s) = kview s"
  "kview (pmm_init e s) = kview s" "kview (paging_init s) = kview s" "kview (process_init s) = kview s"
proof -
  show "kview (schedule s) = kview s" for s
    by (simp add: kview_def schedule_def context_switch_def set_proc_def Let_def split: option.split prod.split)
  show m: "kview (paging_map v p f s) = kview s" for v p f s
    by (auto simp: kview_def paging_map_def paging_table_def set_pde_def pmm_alloc_def Let_def split: option.split prod.split)
  have "kview (fold (\<lambda>a. paging_map a a 7) as s) = kview s" for as s
    by (induction as arbitrary: s) (simp_all add: m)
  then show "kview (map_user_pages s) = kview s" by (simp add: map_user_pages_fold)
  show "kview (pmm_init e s) = kview s" by (simp add: kview_def pmm_init_def Let_def)
  have i: "kview (paging_init_entry i s) = kview s" for i s
    by (simp add: kview_def paging_init_entry_def pmm_alloc_def Let_def split: prod.split)
  have "kview (fold paging_init_entry is s) = kview s" for "is" s
    by (induction "is" arbitrary: s) (simp_all add: i)
  then show "kview (paging_init s) = kview s"
    by (simp add: paging_init_def Let_def split: prod.split) (simp add: kview_def pmm_alloc_def split: prod.split)
  show "kview (process_init s) = kview s" by (simp add: kview_def process_init_def set_proc_def Let_def)
qed

lemma heap_init_frame: "heap_init s = Some s' \<Longrightarrow> kview s' = kview s"
proof -
  have "kview s' = kview s" if "heap_add_page s = Some (b, s')" for b s s'
    using that by (auto simp: heap_add_page_def list_insert_def pmm_alloc_def kview_def Let_def split: prod.splits if_splits bind_splits)
  then have "heap_init_loop n s = Some s' \<Longrightarrow> kview s' = kview s" for n s s'
    by (induction n arbitrary: s) (fastforce split: bind_splits)+
  then show "heap_init s = Some s' \<Longrightarrow> kview s' = kview s" by (simp add: heap_init_def)
qed

subsection \<open>The console\<close>

lemma vga_puts_ok: "vga_ok v \<Longrightarrow> vga_ok (snd (vga_puts bus cs v d))"
proof (induction cs arbitrary: v d)
  case (Cons c cs)
  obtain d1 v1 where p: "vga_putchar bus c v d = (d1, v1)" by (meson surj_pair)
  then have "vga_ok v1" using vga_putchar_refines [OF Cons.prems, of bus c d] by simp
  then show ?case using Cons p by simp
qed simp

lemma vga_other_ok:
  assumes "vga_ok v"
  shows "vga_ok (snd (vga_putchar bus c v d))" and "vga_ok (snd (vga_puthex bus n v d))" and "vga_ok (snd (vga_clear bus v d))"
    and "vga_ok (vga_set_color fg bg v)"
proof -
  have c: "vga_ok (snd (vga_putchar bus c v d))" if "vga_ok v" for c v d using vga_putchar_refines [OF that] by (rule conjunct1)
  then show "vga_ok (snd (vga_putchar bus c v d))" using assms .
  show "vga_ok (snd (vga_puthex bus n v d))" using assms by (simp add: vga_puthex_def split_beta c vga_puts_ok)
  have l: "length (fold (\<lambda>i b. b[f i := y]) is b) = length b" for f y and "is" :: "nat list" and b :: "u16 list"
    by (induction "is" arbitrary: b) simp_all
  have "length (fold (\<lambda>i. fold (\<lambda>j b. b[f i j := y]) js) is b) = length b" for f y and js "is" :: "nat list" and b :: "u16 list"
    by (induction "is" arbitrary: b) (simp_all add: l)
  then show "vga_ok (snd (vga_clear bus v d))" using assms by (simp add: vga_clear_def vga_ok_def Let_def)
  show "vga_ok (vga_set_color fg bg v)" using assms by (simp add: vga_set_color_def vga_ok_def)
qed

lemma console_ok [kept]:
  assumes "kernel_ok (fst x)"
  shows "kernel_ok (fst (kputs E t x))" and "kernel_ok (fst (kputhex E n x))" and "kernel_ok (fst (kputchar E c x))"
    and "kernel_ok (fst (kcolor fg x))"
proof -
  obtain s d where x: "x = (s, d)" by (meson surj_pair)
  have v: "vga_ok (screen s)" using assms by (simp add: x kernel_ok_def)
  have upd: "kernel_ok (s\<lparr>screen := v\<rparr>)" if "vga_ok v" for v using assms that by (simp add: x kernel_ok_def)
  show "kernel_ok (fst (kputs E t x))" using vga_puts_ok [OF v, of "io E" t d] by (auto simp: kputs_def x upd split: prod.splits)
  show "kernel_ok (fst (kputhex E n x))" using vga_other_ok(2) [OF v, of "io E" n d] by (auto simp: kputhex_def x upd split: prod.splits)
  show "kernel_ok (fst (kputchar E c x))" using vga_other_ok(1) [OF v, of "io E" c d] by (auto simp: kputchar_def x upd split: prod.splits)
  show "kernel_ok (fst (kcolor fg x))" using vga_other_ok(4) [OF v] by (simp add: kcolor_def x upd)
qed

lemma console_frame:
  "(fst (kputs E t x))\<lparr>screen := v\<rparr> = (fst x)\<lparr>screen := v\<rparr>" "(fst (kputhex E n x))\<lparr>screen := v\<rparr> = (fst x)\<lparr>screen := v\<rparr>"
  "(fst (kputchar E c x))\<lparr>screen := v\<rparr> = (fst x)\<lparr>screen := v\<rparr>" "(fst (kcolor fg x))\<lparr>screen := v\<rparr> = (fst x)\<lparr>screen := v\<rparr>"
  by (simp_all add: kputs_def kputhex_def kputchar_def kcolor_def split: prod.split)

lemma kserial_frame: "kserial E t x = Some y \<Longrightarrow> fst y = fst x"
  by (auto simp: kserial_def split: prod.splits bind_splits)

lemma putchar_serial_frame: "putchar_serial E c x = Some y \<Longrightarrow> fst y = fst x"
  by (auto simp: putchar_serial_def split: prod.splits bind_splits)

lemma kserial_ok [kept]: "kserial E t x = Some y \<Longrightarrow> kernel_ok (fst x) \<Longrightarrow> kernel_ok (fst y)"
  using kserial_frame by metis

lemma putchar_serial_ok [kept]: "putchar_serial E c x = Some y \<Longrightarrow> kernel_ok (fst x) \<Longrightarrow> kernel_ok (fst y)"
  using putchar_serial_frame by metis

subsection \<open>Fields that carry no invariant\<close>

lemma kernel_ok_updates [simp]:
  "kernel_ok (s\<lparr>mem := m\<rparr>) = kernel_ok s" "kernel_ok (s\<lparr>disk := f\<rparr>) = kernel_ok s" "kernel_ok (s\<lparr>user := r\<rparr>) = kernel_ok s"
  "kernel_ok (s\<lparr>current_file := b\<rparr>) = kernel_ok s"
  by (simp_all add: kernel_ok_def)

lemma kernel_ok_args: "kernel_ok s \<Longrightarrow> args_ok a \<Longrightarrow> kernel_ok (s\<lparr>current_program_args := a\<rparr>)"
  by (simp add: kernel_ok_def)

lemma kernel_ok_keyb: "kernel_ok s \<Longrightarrow> kb_ok k \<Longrightarrow> kernel_ok (s\<lparr>keyb := k\<rparr>)"
  by (simp add: kernel_ok_def)

lemma kernel_ok_ticks: "kernel_ok s \<Longrightarrow> kernel_ok (s\<lparr>ints := (ints s)\<lparr>pit_ticks := t\<rparr>\<rparr>)"
  by (simp add: kernel_ok_def)

lemma keyboard_ok:
  assumes "kb_ok k"
  shows "kb_ok (snd (keyboard_irq_handler bus d k))" and "kb_ok (snd (keyboard_getchar k))"
proof -
  show "kb_ok (snd (keyboard_getchar k))" by (rule kbq.get_invar [OF assms])
  obtain sc d' where i: "inb bus KB_DATA_PORT d = (sc, d')" by (meson surj_pair)
  obtain c k1 where tr: "translate_scancode sc k = (c, k1)" by (meson surj_pair)
  have "kb_ok k1" using assms tr by (auto simp: translate_scancode_def Let_def kb_ok_def split: if_splits)
  then show "kb_ok (snd (keyboard_irq_handler bus d k))"
    using kbq.put_invar by (auto simp: keyboard_irq_handler_def i tr Let_def)
qed

subsection \<open>Interrupts and waiting\<close>

lemma irq_handler_ok [kept]:
  assumes "kernel_ok (fst x)"
  shows "kernel_ok (fst (irq_handler E n x))"
proof -
  obtain s d where x: "x = (s, d)" by (meson surj_pair)
  have ok: "kernel_ok s" using assms by (simp add: x)
  let ?s = "s\<lparr>ints := (ints s)\<lparr>pit_ticks := pit_ticks (ints s) + 1\<rparr>\<rparr>"
  have t: "kernel_ok ?s" by (rule kernel_ok_ticks [OF ok])
  have sch: "kernel_ok (schedule ?s)" using t kernel_ok_view [OF kview_frame(1), of ?s] by simp
  obtain d' k where k: "keyboard_irq_handler (io E) d (keyb s) = (d', k)" by (meson surj_pair)
  have "kb_ok k" using keyboard_ok(1) [of "keyb s" "io E" d] ok k by (simp add: kernel_ok_def)
  then have "kernel_ok (s\<lparr>keyb := k\<rparr>)" by (rule kernel_ok_keyb [OF ok])
  then show ?thesis using ok t sch unfolding irq_handler_def x Let_def by (simp add: k)
qed

lemma hlt_ok [kept]: "hlt E x = Some y \<Longrightarrow> kernel_ok (fst x) \<Longrightarrow> kernel_ok (fst y)"
  by (auto simp: hlt_def irq_handler_ok split: prod.splits bind_splits)

lemma sleep_loop_ok:
  assumes "sleep_loop E t x = Some y" and "kernel_ok (fst x)"
  shows "kernel_ok (fst y)"
proof -
  have "kernel_ok (fst x) \<longrightarrow> kernel_ok (fst y)"
    by (rule sleep_loop.raw_induct [where P = "\<lambda>E t x y. kernel_ok (fst x) \<longrightarrow> kernel_ok (fst y)" and xa = "((E, t), x)", unfolded prod.case, OF _ assms(1)])
      (fastforce split: if_splits bind_splits dest: hlt_ok)
  then show ?thesis using assms(2) by blast
qed

lemma getchar_loop_ok:
  assumes "getchar_loop E x = Some cy" and "kernel_ok (fst x)"
  shows "kernel_ok (fst (snd cy))"
proof -
  have key: "kernel_ok (s\<lparr>keyb := k\<rparr>)" if "kernel_ok s" "keyboard_getchar (keyb s) = (c, k)" for s c k
    using that keyboard_ok(2) [of "keyb s"] by (intro kernel_ok_keyb) (simp_all add: kernel_ok_def)
  have "kernel_ok (fst x) \<longrightarrow> kernel_ok (fst (snd cy))"
    by (rule getchar_loop.raw_induct [where P = "\<lambda>E x y. kernel_ok (fst x) \<longrightarrow> kernel_ok (fst (snd y))" and xa = "(E, x)", unfolded prod.case, OF _ assms(1)])
      (fastforce simp: Let_def split: if_splits bind_splits prod.splits dest: key hlt_ok)
  then show ?thesis using assms(2) by blast
qed

subsection \<open>System calls\<close>

lemma read_str_cstring: "read_str m a = Some t \<Longrightarrow> is_cstring t"
proof (induction m a arbitrary: t rule: read_str.induct)
  case (1 m a)
  then show ?case by (subst (asm) (2) read_str.simps) (auto simp: is_cstring_def split: if_splits)
qed

lemma parse_command_line_ok:
  assumes "is_cstring cmd" and "args_ok a" and "parse_command_line cmd (replicate 64 0) a = (p, a')"
  shows "args_ok a'"
  using parse_command_line_spec [of cmd "replicate 64 0" a] assms by simp

text \<open>A program is entered on behalf of a program exactly if one is running already.\<close>

lemma elf_load_and_exec_ok:
  assumes "elf_load_and_exec E who elf x = Some (ok, y)" and "kernel_ok (fst x)" and "(who \<in> range In_Program) = (0 < exec_depth (fst x))"
  shows "kernel_ok (fst y)"
proof (cases "elf_validate_header (ehdr_of (mem (fst x)) elf) \<noteq> 0")
  case True
  then show ?thesis using assms(1,2) by (auto simp: elf_load_and_exec_def console_ok)
next
  case False
  then have g: "list_all (\<lambda>p. seg_len p = 0 \<or> described (p_vaddr p) (seg_len p)) (loads (mem (fst x)) elf)"
    using assms(1) by (auto simp: elf_load_and_exec_def split: if_split_asm)
  obtain m where m: "load_segments elf (elf + e_phoff (ehdr_of (mem (fst x)) elf)) 0 (mem (fst x)) = Some m"
    using assms(1) False g by (auto simp: elf_load_and_exec_def split: bind_splits)
  let ?x = "kputs E [10] (kputhex E (e_entry (ehdr_of m elf)) (kputs E (str ''Executing binary at '') ((fst x)\<lparr>mem := m\<rparr>, snd x)))"
  have ok: "kernel_ok (fst ?x)" using assms(2) by (simp add: console_ok)
  have dep: "exec_depth (fst ?x) = exec_depth (fst x)"
    by (simp add: kputs_def kputhex_def split: prod.split)
  show ?thesis
  proof (cases "exec_depth (fst ?x) \<ge> 8")
    case True
    then have "y = kputs E (str ''exec: max nesting depth reached'' @ [10]) ?x"
      using assms(1) False g m by (simp add: elf_load_and_exec_def Let_def split_beta)
    then show ?thesis using ok by (simp add: console_ok)
  next
    case small: False
    obtain s d where s: "?x = (s, d)" by (meson surj_pair)
    have v: "kview (map_user_pages s) = kview s" by (rule kview_frame)
    have "kernel_ok (map_user_pages s)" using ok s kernel_ok_view [OF v] by simp
    moreover have "exec_depth (map_user_pages s) = exec_depth (fst x)" using v dep s by (simp add: kview_def)
    ultimately show ?thesis using assms(1,3) False g m small dep s
      by (auto simp: elf_load_and_exec_def Let_def kernel_ok_def tss_set_kernel_stack_def nth_list_update less_Suc_eq)
  qed
qed

lemma sys_print_ok: "sys_print E a x = Some (e, y) \<Longrightarrow> kernel_ok (fst x) \<Longrightarrow> kernel_ok (fst y)"
  by (auto simp: sys_print_def console_ok split: if_splits bind_splits dest!: kserial_ok)

lemma sys_file_ok:
  "sys_file_open E a x = Some (e, y) \<Longrightarrow> kernel_ok (fst x) \<Longrightarrow> kernel_ok (fst y)"
  "sys_file_read E a n x = Some (e, y) \<Longrightarrow> kernel_ok (fst x) \<Longrightarrow> kernel_ok (fst y)"
  "sys_file_close x = (e, y) \<Longrightarrow> kernel_ok (fst x) \<Longrightarrow> kernel_ok (fst y)"
proof -
  show "sys_file_open E a x = Some (e, y) \<Longrightarrow> kernel_ok (fst x) \<Longrightarrow> kernel_ok (fst y)"
    by (auto simp: sys_file_open_def Let_def split: if_splits bind_splits prod.splits)
  show "sys_file_read E a n x = Some (e, y) \<Longrightarrow> kernel_ok (fst x) \<Longrightarrow> kernel_ok (fst y)"
    by (auto simp: sys_file_read_def copy_out_def split: if_splits bind_splits prod.splits)
  show "sys_file_close x = (e, y) \<Longrightarrow> kernel_ok (fst x) \<Longrightarrow> kernel_ok (fst y)"
    by (auto simp: sys_file_close_def split: if_splits prod.splits)
qed

lemma store_dirinfos_ok: "store_dirinfos a is s = Some s' \<Longrightarrow> kernel_ok s \<Longrightarrow> kernel_ok s'"
  by (induction a "is" s rule: store_dirinfos.induct) (auto simp: Let_def split: if_splits)

lemma sys_list_dir_ok: "sys_list_dir E a n x = Some (e, y) \<Longrightarrow> kernel_ok (fst x) \<Longrightarrow> kernel_ok (fst y)"
  by (auto simp: sys_list_dir_def split: if_splits bind_splits prod.splits dest!: store_dirinfos_ok)

lemma sys_get_args_ok: "sys_get_args a b c x = Some (e, y) \<Longrightarrow> kernel_ok (fst x) \<Longrightarrow> kernel_ok (fst y)"
  by (auto simp: sys_get_args_def copy_out_def Let_def split: if_splits bind_splits prod.splits)

lemma exec_fetch_ok:
  assumes "exec_fetch E a x = Some (err, y)" and "kernel_ok (fst x)"
  shows "kernel_ok (fst y)" and "exec_depth (fst y) = exec_depth (fst x)"
proof -
  obtain s d where x: "x = (s, d)" by (meson surj_pair)
  have args: "kernel_ok (s\<lparr>current_program_args := a'\<rparr>)"
    if "read_str (mem s) a = Some cmd" "parse_command_line cmd (replicate 64 0) (current_program_args s) = (p, a')" for cmd p a'
    using assms(2) parse_command_line_ok [OF read_str_cstring [OF that(1)] _ that(2)]
    by (intro kernel_ok_args) (simp_all add: x kernel_ok_def)
  show "kernel_ok (fst y)" using assms unfolding exec_fetch_def x
    by (auto simp: Let_def split: if_splits bind_splits prod.splits dest!: args)
  show "exec_depth (fst y) = exec_depth (fst x)" using assms(1) unfolding exec_fetch_def x
    by (auto simp: Let_def split: if_splits bind_splits prod.splits)
qed

lemma sys_exec_ok:
  assumes "sys_exec E a x = Some (e, y)" and "kernel_ok (fst x)" and "0 < exec_depth (fst x)"
  shows "kernel_ok (fst y)"
proof -
  obtain err s d where f: "exec_fetch E a x = Some (err, s, d)"
    using assms(1) by (auto simp: sys_exec_def split: bind_splits)
  have s: "kernel_ok s" "exec_depth s = exec_depth (fst x)" using exec_fetch_ok [OF f assms(2)] by simp_all
  have "kernel_ok s'" if "elf_load_and_exec E (In_Program r) elf (s\<lparr>mem := m\<rparr>, d1) = Some (ok, s', d')" for m d1 ok s' d' r elf
    using elf_load_and_exec_ok [OF that] s assms(3) by simp
  then show ?thesis using assms(1) f s(1) unfolding sys_exec_def
    by (auto simp: Let_def split: if_splits bind_splits option.splits)
qed

lemma elf_returned_ok:
  assumes "kernel_ok s" and "0 < exec_depth s" and "elf_returned s = (who, s')"
  shows "kernel_ok s'" and "(who \<in> range In_Program) = (0 < exec_depth s')"
proof -
  have C: "(jb_caller (exec_stack s ! i) \<in> range In_Program) = (0 < i)" if "i < exec_depth s" for i
    using assms(1) that unfolding kernel_ok_def by blast
  have s': "s' = s\<lparr>exec_depth := exec_depth s - 1, segments := tss_set_kernel_stack (jb_esp0 (exec_stack s ! (exec_depth s - 1))) (segments s)\<rparr>"
    "who = jb_caller (exec_stack s ! (exec_depth s - 1))"
    using assms(3) by (simp_all add: elf_returned_def Let_def)
  show "kernel_ok s'" using assms(1) C unfolding kernel_ok_def s' by (simp add: tss_set_kernel_stack_def le_diff_conv)
  show "(who \<in> range In_Program) = (0 < exec_depth s')" using assms(2) C [of "exec_depth s - 1"] unfolding s' by simp
qed

lemma syscall_handler_ok:
  assumes "syscall_handler E n a b c x = Some (e, y)" and "kernel_ok (fst x)" and "0 < exec_depth (fst x)"
  shows "kernel_ok (fst y) \<and> (case e of Exited who \<Rightarrow> (who \<in> range In_Program) = (0 < exec_depth (fst y)) | _ \<Rightarrow> True)"
proof -
  have exit: "kernel_ok (fst y) \<and> (case e of Exited who \<Rightarrow> (who \<in> range In_Program) = (0 < exec_depth (fst y)) | _ \<Rightarrow> True)"
    if "sys_exit E a x = (e, y)"
  proof -
    let ?x = "kputs E (str '']'' @ [10]) (kputhex E a (kputs E ([10] @ str ''[Program exited with code: '') (kcolor VGA_COLOR_LIGHT_CYAN x)))"
    obtain s d where s: "?x = (s, d)" by (meson surj_pair)
    have k: "kernel_ok s" using assms(2) s console_ok by (metis fst_conv)
    show ?thesis
    proof (cases "0 < exec_depth s")
      case True
      obtain who s' where r: "elf_returned s = (who, s')" by (meson surj_pair)
      have "sys_exit E a x = (Exited who, s', d)" using s True r by (simp add: sys_exit_def Let_def)
      then show ?thesis using elf_returned_ok [OF k True r] that by simp
    next
      case False
      then have "sys_exit E a x = (Returned 0, s, d)" using s by (simp add: sys_exit_def Let_def)
      then show ?thesis using that k by simp
    qed
  qed
  have noexit: "case e of Exited who \<Rightarrow> (who \<in> range In_Program) = (0 < exec_depth (fst y)) | _ \<Rightarrow> True" if "n \<noteq> 2"
    using assms(1) that
    by (auto simp: syscall_handler_def sys_print_def sys_file_open_def sys_file_read_def sys_file_close_def sys_list_dir_def
        sys_get_args_def sys_exec_def sys_clear_def Let_def split: if_splits bind_splits prod.splits option.splits)
  have clear: "kernel_ok (fst y)" if "sys_clear E x = (e, y)"
    using that assms(2) vga_other_ok(3) [of "screen (fst x)" "io E" "snd x"]
    by (auto simp: sys_clear_def kernel_ok_def split: prod.splits)
  have "kernel_ok (fst y)" if "n \<noteq> 2"
    using assms(1,2) that clear unfolding syscall_handler_def
    by (auto simp: sleep_ms_def Let_def console_ok split: if_splits bind_splits prod.splits
        dest: sys_print_ok [OF _ assms(2)] sys_file_ok(1,2) [OF _ assms(2)] sys_file_ok(3) [OF _ assms(2)] sys_list_dir_ok [OF _ assms(2)]
          sys_get_args_ok [OF _ assms(2)] sys_exec_ok [OF _ assms(2,3)] getchar_loop_ok [OF _ assms(2)] sleep_loop_ok [OF _ assms(2)])
  then show ?thesis using exit noexit assms(1) by (cases "n = 2") (auto simp: syscall_handler_def)
qed

subsection \<open>The kernel shell\<close>

lemma shell_ready_ok: "shell_ready E x = Some y \<Longrightarrow> kernel_ok (fst x) \<Longrightarrow> kernel_ok (fst y)"
proof -
  assume "shell_ready E x = Some y" "kernel_ok (fst x)"
  moreover from this(2) have "kernel_ok ((fst x)\<lparr>shell_cmd_pos := 0\<rparr>)" by (simp add: kernel_ok_def)
  ultimately show "kernel_ok (fst y)" by (auto simp: shell_ready_def prompt_def console_ok dest!: kserial_ok)
qed

lemma shell_fallback_ok: "shell_fallback E x = Some y \<Longrightarrow> kernel_ok (fst x) \<Longrightarrow> kernel_ok (fst y)"
  by (auto simp: shell_fallback_def Let_def console_ok dest!: shell_ready_ok)

lemma trap_ok:
  assumes "trap E x = Some y" and "kernel_ok (fst x)" and "0 < exec_depth (fst x)"
  shows "kernel_ok (fst y)"
proof -
  obtain e s d where h: "syscall_handler E (eax (user (fst x))) (ebx (user (fst x))) (ecx (user (fst x))) (edx (user (fst x))) x = Some (e, s, d)"
    using assms(1) by (auto simp: trap_def isr_handler_def Let_def split: bind_splits)
  have k: "kernel_ok s" using syscall_handler_ok [OF h assms(2,3)] by simp
  then have u: "kernel_ok (sys_exec_resume E r s)" for r by (simp add: sys_exec_resume_def)
  show ?thesis
  proof (cases e)
    case (Returned v)
    then show ?thesis using assms(1) h k by (auto simp: trap_def isr_handler_def Let_def)
  next
    case Started
    then show ?thesis using assms(1) h k by (auto simp: trap_def isr_handler_def Let_def)
  next
    case (Exited who)
    then show ?thesis using assms(1) h k u
      by (cases who) (auto simp: trap_def isr_handler_def Let_def dest: shell_fallback_ok shell_ready_ok)
  qed
qed

lemma complain_ok: "complain E t x = Some y \<Longrightarrow> kernel_ok (fst x) \<Longrightarrow> kernel_ok (fst y)"
  by (auto simp: complain_def console_ok dest!: kserial_ok)

lemma execute_command_ok:
  assumes "execute_command E who cmd x = Some (b, y)" and "kernel_ok (fst x)" and "is_cstring cmd"
    and "who \<notin> range In_Program" and "exec_depth (fst x) = 0"
  shows "kernel_ok (fst y)"
proof -
  obtain s d where x: "x = (s, d)" by (meson surj_pair)
  have args: "kernel_ok (s\<lparr>current_program_args := a'\<rparr>)"
    if "parse_command_line cmd (replicate 64 0) (current_program_args s) = (p, a')" for p a'
    using assms(2) parse_command_line_ok [OF assms(3) _ that] by (intro kernel_ok_args) (simp_all add: x kernel_ok_def)
  have load: "kernel_ok (fst y')" if "elf_load_and_exec E who elf (s1, d1) = Some (ok, y')" "kernel_ok s1" "exec_depth s1 = exec_depth s"
    for s1 d1 ok y' elf
    using elf_load_and_exec_ok [OF that(1)] that(2,3) assms(4,5) by (simp add: x)
  show ?thesis using assms(1) unfolding execute_command_def x
    by (auto simp: Let_def split: if_splits bind_splits prod.splits
        dest!: args complain_ok kserial_ok intro!: console_ok dest: load)
qed

lemma is_cstring_cstr: "is_cstring (cstr b)"
  by (auto simp: is_cstring_def cstr_def dest: set_takeWhileD)

lemma shell_getchar_ok:
  assumes "shell_getchar E x = Some (c, y)" and "kernel_ok (fst x)"
  shows "kernel_ok (fst y)" and "exec_depth (fst y) = exec_depth (fst x)"
proof -
  have key: "kernel_ok (s\<lparr>keyb := k\<rparr>)" if "kernel_ok s" "keyboard_getchar (keyb s) = (c, k)" for s c k
    using that keyboard_ok(2) [of "keyb s"] by (intro kernel_ok_keyb) (simp_all add: kernel_ok_def)
  show "kernel_ok (fst y)" "exec_depth (fst y) = exec_depth (fst x)"
    using assms by (auto simp: shell_getchar_def Let_def split: if_splits bind_splits prod.splits dest: key)
qed

lemma console_depth [simp]:
  "exec_depth (fst (kputs E t x)) = exec_depth (fst x)" "exec_depth (fst (kputhex E n x)) = exec_depth (fst x)"
  "exec_depth (fst (kputchar E c x)) = exec_depth (fst x)" "exec_depth (fst (kcolor fg x)) = exec_depth (fst x)"
  by (simp_all add: kputs_def kputhex_def kputchar_def kcolor_def split: prod.split)

lemma shell_char_ok:
  assumes "shell_char E c x = Some y" and "kernel_ok (fst x)" and "exec_depth (fst x) = 0"
  shows "kernel_ok (fst y)"
proof -
  obtain s d where x: "x = (s, d)" by (meson surj_pair)
  have ok: "kernel_ok s" and dep: "exec_depth s = 0" using assms(2,3) by (simp_all add: x)
  have upd: "kernel_ok (s'\<lparr>shell_cmd_buf := (shell_cmd_buf s')[i := v], shell_cmd_pos := p\<rparr>)"
    "kernel_ok (s'\<lparr>shell_cmd_buf := (shell_cmd_buf s')[i := v]\<rparr>)" "kernel_ok (s'\<lparr>shell_cmd_pos := p\<rparr>)"
    if "p < 64" "kernel_ok s'" for i v p s' using that by (simp_all add: kernel_ok_def)
  consider (nul) "c = 0" | (bs) "c = 8" | (nl) "c = 10" | (ch) "c \<noteq> 0" "c \<noteq> 8" "c \<noteq> 10" by blast
  then show ?thesis
  proof cases
    case bs
    have "shell_cmd_pos s - 1 < 64" using ok by (auto simp: kernel_ok_def)
    then show ?thesis using assms(1) ok bs upd(3)
      by (auto simp: shell_char_def x console_ok Let_def split: if_splits bind_splits dest!: putchar_serial_ok)
  next
    case nl
    then obtain s1 d1 where k: "kserial E [13, 10] (kputchar E 10 x) = Some (s1, d1)"
      using assms(1) by (auto simp: shell_char_def Let_def split: bind_splits)
    let ?s = "s1\<lparr>shell_cmd_buf := (shell_cmd_buf s1)[shell_cmd_pos s1 := 0]\<rparr>"
    have s1: "kernel_ok s1" "exec_depth s1 = 0" using kserial_frame [OF k] console_ok(3) assms(2,3) by simp_all
    have ex: "execute_command E At_Prompt (cstr (shell_cmd_buf ?s)) (?s, d1) = Some (b, z) \<Longrightarrow> kernel_ok (fst z)" for b z
      using execute_command_ok [of E At_Prompt _ "(?s, d1)"] s1 upd(2) is_cstring_cstr by (fastforce simp: kernel_ok_def)
    have rdy: "shell_ready E (a, b) = Some y \<Longrightarrow> kernel_ok a \<Longrightarrow> kernel_ok (fst y)" for a b using shell_ready_ok [of E "(a, b)" y] by simp
    have "kernel_ok ?s" using upd(2) s1 by (simp add: kernel_ok_def)
    then show ?thesis using assms(1) nl k ex
      by (auto simp: shell_char_def Let_def split: if_splits bind_splits dest: rdy)
  next
    case ch
    then show ?thesis using assms(1) ok upd(1)
      by (auto simp: shell_char_def x console_ok Let_def split: if_splits dest!: putchar_serial_ok)
  qed (use assms in \<open>simp add: shell_char_def\<close>)
qed

lemma shell_round_ok:
  assumes "shell_round E x = Some y" and "kernel_ok (fst x)" and "exec_depth (fst x) = 0"
  shows "kernel_ok (fst y)"
proof -
  obtain c z where z: "shell_getchar E x = Some (c, z)" "shell_char E c z = Some y"
    using assms(1) by (auto simp: shell_round_def split: bind_splits)
  show ?thesis by (rule shell_char_ok [OF z(2)]) (use shell_getchar_ok [OF z(1) assms(2)] assms(3) in simp_all)
qed

subsection \<open>Steps and booting\<close>

lemma kstep_ok:
  assumes "kstep E x y" and "kernel_ok (fst x)"
  shows "kernel_ok (fst y)"
  using assms
proof cases
  case (k_shell s d)
  then show ?thesis using assms(2) shell_round_ok by fastforce
next
  case (k_trap s d)
  then show ?thesis using assms(2) trap_ok by fastforce
qed (use assms(2) irq_handler_ok in auto)

text \<open>
  What the loader leaves behind in the static variables before \<open>kernel_main\<close> runs: the arrays have
  their sizes, and no program is running.
\<close>

definition loaded :: "kernel \<Rightarrow> bool" where
  "loaded s \<longleftrightarrow> length (vga_buffer (screen s)) = 2000 \<and> kb_ok (keyb s) \<and> args_ok (current_program_args s)
     \<and> length (gdt (segments s)) = 6 \<and> length (idt (ints s)) = 256 \<and> length (shell_cmd_buf s) = 64 \<and> shell_cmd_pos s < 64
     \<and> length (exec_stack s) = 8 \<and> exec_depth s = 0"

text \<open>States in which no program runs, during boot.\<close>

definition idle_ok :: "kernel \<Rightarrow> bool" where
  "idle_ok s \<longleftrightarrow> kernel_ok s \<and> exec_depth s = 0"

lemma idle_console [simp]:
  assumes "idle_ok (fst x)"
  shows "idle_ok (fst (kputs E t x))" and "idle_ok (fst (kputhex E n x))" and "idle_ok (fst (kcolor fg x))"
  using assms by (simp_all add: idle_ok_def console_ok)

lemma idle_view:
  assumes "kview s = kview s'"
  shows "idle_ok s = idle_ok s'"
proof -
  have "exec_depth s = exec_depth s'" using assms by (simp add: kview_def)
  then show ?thesis using kernel_ok_view [OF assms] by (simp add: idle_ok_def)
qed

lemma idle_kserial: "kserial E t x = Some y \<Longrightarrow> idle_ok (fst x) \<Longrightarrow> idle_ok (fst y)"
  using kserial_frame by metis

lemma boot_console_ok:
  assumes "loaded (fst x)"
  shows "idle_ok (fst (boot_console E x))"
proof -
  obtain s d where x: "x = (s, d)" by (meson surj_pair)
  obtain d1 v where v: "vga_init (io E) (screen s) d = (d1, v)" by (meson surj_pair)
  have "vga_ok ((screen s)\<lparr>vga_row := 0, vga_column := 0, vga_color := c\<rparr>)" for c using assms by (simp add: loaded_def x vga_ok_def)
  then have "vga_ok v" using vga_other_ok(3) v unfolding vga_init_def by (metis snd_conv)
  then have "idle_ok (s\<lparr>screen := v\<rparr>)" using assms by (simp add: idle_ok_def kernel_ok_def loaded_def x)
  then show ?thesis by (simp add: boot_console_def x v Let_def split: prod.split)
qed

lemma boot_interrupts_ok:
  assumes "idle_ok (fst x)"
  shows "idle_ok (fst (boot_interrupts E x))"
proof -
  obtain s d where x: "x = (s, d)" by (meson surj_pair)
  have "length (gdt (gdt_init a b g)) = length (gdt g)" for a b and g :: gdt_state
    by (simp add: gdt_init_def gdt_set_gate_def gdt_flush_def tss_flush_def mark_access_def Let_def)
  then have 1: "idle_ok (s\<lparr>segments := gdt_init (gdt_at E) (tss_at E) (segments s)\<rparr>)"
    using assms by (simp add: idle_ok_def kernel_ok_def x)
  have kb: "kb_ok (snd (keyboard_init bus d k))" if "kb_ok k" for bus :: "'a bus" and d and k :: keyboard
    using that by (auto simp: keyboard_init_def kb_ok_def Let_def split: prod.splits)
  have kbu: "idle_ok (s'\<lparr>keyb := k\<rparr>)" if "idle_ok s'" "keyboard_init (io E) d' (keyb s') = (d'', k)" for s' d' d'' k
    using that kb [of "keyb s'" "io E" d'] by (simp add: idle_ok_def kernel_ok_def)
  have "length (idt (fold (\<lambda>i. idt_set_gate (of_nat i) (f i) a b) is i0)) = length (idt i0)" for f a b and "is" :: "nat list" and i0 :: idt_state
    by (induction "is" arbitrary: i0) (simp_all add: idt_set_gate_def)
  then have id: "length (idt (snd (idt_init bus f a i0 d))) = length (idt i0)" for bus :: "'a bus" and f a d and i0 :: idt_state
    by (simp add: idt_init_def idt_set_gate_def Let_def)
  have idu: "idle_ok (s'\<lparr>ints := i\<rparr>)" if "idle_ok s'" "idt_init (io E) (isr_at E) (idt_at E) (ints s') d' = (d'', i)" for s' d' d'' i
    using that id [of "io E" "isr_at E" "idt_at E" "ints s'" d'] by (simp add: idle_ok_def kernel_ok_def)
  obtain s1 d1 where s1: "kputs E (str ''GDT/TSS: OK'' @ [10]) (s\<lparr>segments := gdt_init (gdt_at E) (tss_at E) (segments s)\<rparr>, d) = (s1, d1)"
    by (meson surj_pair)
  have ok1: "idle_ok s1" using idle_console(1) [of "(s\<lparr>segments := gdt_init (gdt_at E) (tss_at E) (segments s)\<rparr>, d)"] 1 s1 by (metis fst_conv)
  obtain d2 k where k: "keyboard_init (io E) d1 (keyb s1) = (d2, k)" by (meson surj_pair)
  obtain s2 d3 where s2: "kputs E (str ''Keyboard Driver: OK'' @ [10]) (s1\<lparr>keyb := k\<rparr>, d2) = (s2, d3)" by (meson surj_pair)
  have ok2: "idle_ok s2" using idle_console(1) [of "(s1\<lparr>keyb := k\<rparr>, d2)"] kbu [OF ok1 k] s2 by (metis fst_conv)
  obtain d4 i where i: "idt_init (io E) (isr_at E) (idt_at E) (ints s2) d3 = (d4, i)" by (meson surj_pair)
  show ?thesis using idu [OF ok2 i] by (simp add: boot_interrupts_def x s1 k s2 i)
qed

lemma root_entries_ok: "vga_ok v \<Longrightarrow> vga_ok (fst (snd (snd (root_entries bus es n v d))))"
  by (induction es arbitrary: n v d) (simp_all add: Let_def split_beta vga_puts_ok vga_other_ok)

lemma root_sectors_ok: "vga_ok v \<Longrightarrow> vga_ok (fst (snd (snd (snd (root_sectors bus sec i n c st v d)))))"
  by (induction n arbitrary: i c st v d) (simp_all add: Let_def split_beta root_entries_ok)

lemma print_total_ok: "vga_ok v \<Longrightarrow> vga_ok (snd (print_total bus c v d))"
  by (simp add: print_total_def split_beta vga_puts_ok vga_other_ok)

lemma root_chain_ok:
  assumes "root_chain bus cl c st v d = Some y" and "vga_ok v"
  shows "vga_ok (fst (snd (snd y)))"
proof -
  have p: "print_total bus c v d = (d', v') \<Longrightarrow> vga_ok v \<Longrightarrow> vga_ok v'" for bus :: "'a bus" and c v d d' v'
    using print_total_ok by (metis snd_conv)
  have s: "root_sectors bus a b c e st v d = (r, c', st', v', d') \<Longrightarrow> vga_ok v \<Longrightarrow> vga_ok v'" for bus :: "'a bus" and a b c e st v d r c' st' v' d'
    using root_sectors_ok by (metis fst_conv snd_conv)
  have "vga_ok v \<longrightarrow> vga_ok (fst (snd (snd y)))"
    by (rule root_chain.raw_induct [where P = "\<lambda>bus cl c st v d y. vga_ok v \<longrightarrow> vga_ok (fst (snd (snd y)))", OF _ assms(1)])
      (fastforce simp: Let_def split: if_splits prod.splits sum.splits dest: s p)
  then show ?thesis using assms(2) by blast
qed

lemma fat32_list_root_ok: "fat32_list_root bus st v d = Some y \<Longrightarrow> vga_ok v \<Longrightarrow> vga_ok (fst (snd (snd y)))"
  by (auto simp: fat32_list_root_def split_beta vga_puts_ok split: if_splits dest!: root_chain_ok)

lemma boot_memory_ok:
  assumes "boot_memory E x = Some y" and "idle_ok (fst x)"
  shows "idle_ok (fst y)"
proof -
  have v: "idle_ok (pmm_init e s) = idle_ok s" "idle_ok (paging_init s) = idle_ok s" "idle_ok (process_init s) = idle_ok s" for e s
    by (rule idle_view; rule kview_frame)+
  have h: "heap_init s = Some s' \<Longrightarrow> idle_ok s' = idle_ok s" for s s' by (rule idle_view) (rule heap_init_frame)
  show ?thesis using assms
    by (auto simp: boot_memory_def v Let_def split: bind_splits prod.splits dest!: h)
qed

lemma boot_disk_ok:
  assumes "idle_ok (fst x)"
  shows "idle_ok (fst (boot_ide E x))" and "boot_info E x = Some y \<Longrightarrow> idle_ok (fst y)"
    and "boot_fat32 E x = Some y \<Longrightarrow> idle_ok (fst y)"
proof -
  obtain s d where x: "kputs E (str ''IDE Driver: '') x = (s, d)" by (meson surj_pair)
  have s: "idle_ok s" using assms x idle_console(1) by (metis fst_conv)
  show "idle_ok (fst (boot_ide E x))" using s by (auto simp: boot_ide_def x Let_def split: prod.split)
  show "boot_info E x = Some y \<Longrightarrow> idle_ok (fst y)"
    using assms by (auto simp: boot_info_def Let_def split: bind_splits dest!: idle_kserial)
  have d: "idle_ok (s\<lparr>disk := f\<rparr>) = idle_ok s" for s f by (simp add: idle_ok_def)
  have r: "idle_ok (s\<lparr>disk := f, screen := v\<rparr>)" if "fat32_list_root (io E) g (screen s) d = Some (r, f, v, d')" "idle_ok s" for s f v g d d' r
    using that fat32_list_root_ok [OF that(1)] by (simp add: idle_ok_def kernel_ok_def)
  show "idle_ok (fst y)" if b: "boot_fat32 E x = Some y"
  proof -
    let ?x = "kputs E (str ''FAT32: '') (kcolor VGA_COLOR_LIGHT_GREY
      (kputs E (str ''Initializing FAT32 Filesystem...'' @ [10]) (kcolor VGA_COLOR_LIGHT_CYAN x)))"
    obtain s1 d1 where s1: "?x = (s1, d1)" by (meson surj_pair)
    have ok1: "idle_ok s1" using assms s1 idle_console(1,3) by (metis fst_conv)
    obtain r1 f1 d2 where f1: "fat32_init (io E) 0 (disk s1) d1 = (r1, f1, d2)" by (meson prod_cases3)
    let ?y = "kcolor VGA_COLOR_LIGHT_GREY (kputs E (str ''OK'' @ [10, 10]) (kcolor VGA_COLOR_LIGHT_GREEN (s1\<lparr>disk := f1\<rparr>, d2)))"
    obtain s2 d3 where s2: "?y = (s2, d3)" by (meson surj_pair)
    have "idle_ok (s1\<lparr>disk := f1\<rparr>)" using ok1 d by simp
    then have ok2: "idle_ok s2" using s2 idle_console(1,3) by (metis fst_conv)
    show ?thesis using b s1 s2 f1 ok1 d r [OF _ ok2]
      by (auto simp: boot_fat32_def Let_def split: if_splits bind_splits)
  qed
qed

lemma kernel_main_ok:
  assumes "kernel_main E x = Some y" and "loaded (fst x)"
  shows "kernel_ok (fst y)"
proof -
  let ?x = "boot_interrupts E (boot_console E x)"
  obtain x1 x2 x3 where s: "boot_memory E ?x = Some x1" "boot_info E (boot_ide E x1) = Some x2" "boot_fat32 E x2 = Some x3"
    using assms(1) by (auto simp: kernel_main_def split: bind_splits)
  let ?z = "kcolor VGA_COLOR_LIGHT_GREY (kputs E (str ''System ready.'' @ [10]) (kcolor VGA_COLOR_YELLOW x3))"
  have "idle_ok (fst x3)"
    using boot_disk_ok(3) [OF _ s(3)] boot_disk_ok(2) [OF _ s(2)] boot_disk_ok(1) boot_memory_ok [OF s(1)]
      boot_interrupts_ok [OF boot_console_ok [OF assms(2)]] by blast
  then have z: "kernel_ok (fst ?z)" "exec_depth (fst ?z) = 0" by (simp_all add: console_ok idle_ok_def)
  obtain b w where w: "execute_command E At_Boot (str ''shell'') ?z = Some (b, w)" "(if b then Some w else shell_fallback E w) = Some y"
    using assms(1) s by (auto simp: kernel_main_def split: bind_splits)
  have "is_cstring (str ''shell'')" by (simp add: is_cstring_def str_def ord_c_def of_char_def)
  then have "kernel_ok (fst w)" using execute_command_ok [OF w(1) z(1)] z(2) by auto
  then show ?thesis using w(2) shell_fallback_ok [of E w y] by (auto split: if_splits)
qed

subsection \<open>Booting returns\<close>

lemma kserial_returns:
  assumes "uart_tx (io E) SERIAL_COM1 busy sent" and "is_cstring t"
  shows "\<exists>d'. kserial E t x = Some (fst x, d') \<and> sent d' = sent (snd x) @ crlf t"
  using serial_puts_spec [OF assms, of "snd x"] by (auto simp: kserial_def split: prod.split)

text \<open>The fields of the memory side, which the console leaves alone.\<close>

definition mside :: "kernel \<Rightarrow> _" where
  "mside s = (mem s, bitmap s, free_list s, heap_pages s)"

lemma mside_console [simp]:
  "mside (fst (kputs E t x)) = mside (fst x)" "mside (fst (kputhex E n x)) = mside (fst x)"
  "mside (fst (kcolor fg x)) = mside (fst x)" "mside (fst (kputchar E c x)) = mside (fst x)"
  by (simp_all add: mside_def kputs_def kputhex_def kcolor_def kputchar_def split: prod.split)

lemma heap_ok_mside:
  assumes "mside s = mside s'"
  shows "heap_ok s fs L = heap_ok s' fs L"
proof -
  have f: "mem s = mem s'" "free_list s = free_list s'" "heap_pages s = heap_pages s'" "bitmap s = bitmap s'"
    using assms by (simp_all add: mside_def)
  then have "pmm_free_pages s = pmm_free_pages s'" "pmm_wf s = pmm_wf s'" by (simp_all add: pmm_free_pages_def pmm_wf_def)
  then show ?thesis using f by (simp add: heap_ok_def)
qed

lemma boot_memory_returns:
  assumes "kernel_end E \<noteq> 0" and "unat (kernel_end E) + 4096 < 2 ^ 32" and "free_list (fst x) = 0" and "heap_pages (fst x) = 0"
  shows "\<exists>y. boot_memory E x = Some y"
proof -
  obtain s d where x: "x = (s, d)" by (meson surj_pair)
  let ?x = "kputs E (str '' pages)'' @ [10]) (kputhex E (pmm_get_free_count (fst (kputs E (str '' KB free ('') (kputhex E
    (pmm_get_free_count (fst (kputs E (str ''PMM: '') (pmm_init (kernel_end E) s, d))) * 4) (kputs E (str ''PMM: '') (pmm_init (kernel_end E) s, d))))))
    (kputs E (str '' KB free ('') (kputhex E (pmm_get_free_count (fst (kputs E (str ''PMM: '') (pmm_init (kernel_end E) s, d))) * 4)
      (kputs E (str ''PMM: '') (pmm_init (kernel_end E) s, d)))))"
  have "pmm_wf (pmm_init (kernel_end E) s)" by (rule pmm_init_wf [OF assms(1,2)])
  moreover have "free_list (pmm_init (kernel_end E) s) = 0" "heap_pages (pmm_init (kernel_end E) s) = 0"
    using assms(3,4) by (simp_all add: pmm_init_def x Let_def)
  ultimately have "heap_ok (pmm_init (kernel_end E) s) [] {}" by (rule heap_ok_empty)
  then have "heap_ok (fst ?x) [] {}" using heap_ok_mside [of "fst ?x" "pmm_init (kernel_end E) s"] by simp
  then obtain s' fs where h: "heap_init (fst ?x) = Some s'" "heap_ok s' fs {}"
    using heap_init_loop_ok [of "fst ?x" "[]" "{}" 16] unfolding heap_init_def by blast
  obtain st where "heap_get_stats s' = Some st" using heap_get_stats_ok [OF h(2)] by blast
  then show ?thesis using h(1) by (simp add: boot_memory_def x Let_def)
qed

lemma boot_mside:
  "mside (fst (boot_console E x)) = mside (fst x)" "mside (fst (boot_interrupts E x)) = mside (fst x)"
proof -
  have u: "mside (s\<lparr>screen := v\<rparr>) = mside s" "mside (s\<lparr>segments := g\<rparr>) = mside s" "mside (s\<lparr>keyb := k\<rparr>) = mside s" "mside (s\<lparr>ints := i\<rparr>) = mside s"
    for s v g k i by (simp_all add: mside_def)
  show "mside (fst (boot_console E x)) = mside (fst x)" by (simp add: boot_console_def u Let_def split_beta)
  show "mside (fst (boot_interrupts E x)) = mside (fst x)" by (simp add: boot_interrupts_def u Let_def split_beta)
qed

lemma upper_cstring: "is_cstring t \<Longrightarrow> is_cstring (map to_upper t)"
  by (auto simp: is_cstring_def to_upper_def ord_c_def of_char_def word_le_nat_alt)

lemma fat32_init_fails: "fst (fat32_init bus drv f d) \<noteq> 0 \<Longrightarrow> initialized (fst (snd (fat32_init bus drv f d))) = 0"
  by (auto simp: fat32_init_def read_sector_def Let_def split: prod.splits if_splits)

lemma boot_fat32_fails:
  assumes "\<forall>f d. fst (fat32_init (io E) 0 f d) \<noteq> 0"
  shows "\<exists>y. boot_fat32 E x = Some y \<and> initialized (disk (fst y)) = 0"
proof -
  obtain s d where x: "kputs E (str ''FAT32: '') (kcolor VGA_COLOR_LIGHT_GREY
      (kputs E (str ''Initializing FAT32 Filesystem...'' @ [10]) (kcolor VGA_COLOR_LIGHT_CYAN x))) = (s, d)" by (meson surj_pair)
  obtain r f d' where f: "fat32_init (io E) 0 (disk s) d = (r, f, d')" by (meson prod_cases3)
  have "r \<noteq> 0" "initialized f = 0"
    using assms [rule_format, of "disk s" d] fat32_init_fails [of "io E" 0 "disk s" d] f by simp_all
  moreover have "disk (fst (kputs E t z)) = disk (fst z)" "disk (fst (kcolor c z)) = disk (fst z)" for t c z
    by (simp_all add: kputs_def kcolor_def split: prod.split)
  ultimately show ?thesis using x f by (simp add: boot_fat32_def Let_def)
qed

lemma execute_command_missing:
  assumes "uart_tx (io E) SERIAL_COM1 busy sent" and "initialized (disk (fst x)) = 0" and "is_cstring cmd" and "args_ok (current_program_args (fst x))"
  shows "\<exists>y. execute_command E who cmd x = Some (False, y) \<and> exec_depth (fst y) = exec_depth (fst x)"
proof -
  obtain s d where x: "x = (s, d)" by (meson surj_pair)
  obtain p a where p: "parse_command_line cmd (replicate 64 0) (current_program_args s) = (p, a)" by (meson surj_pair)
  let ?f = "map to_upper (take 11 (cstr p))"
  have "is_cstring ?f" by (intro upper_cstring) (auto simp: is_cstring_def cstr_def dest: set_takeWhileD in_set_takeD)
  moreover have "is_cstring (str ''Command not found: '')" "is_cstring [13, 10]" by (simp_all add: is_cstring_def str_def ord_c_def of_char_def)
  ultimately have k: "\<exists>d'. kserial E t z = Some (fst z, d')" if "t \<in> {?f, str ''Command not found: '', [13, 10]}" for t z
    using kserial_returns [OF assms(1)] that by blast
  have o: "fat32_open (io E) ?f (disk s) d = Some (False, disk s, d)" using assms(2) by (simp add: fat32_open_def x)
  let ?z = "kputchar E 10 (kputs E ?f (kputs E (str ''Command not found: '') (kcolor VGA_COLOR_LIGHT_CYAN
    (s\<lparr>current_program_args := a, disk := disk s\<rparr>, d))))"
  obtain d1 where d1: "kserial E (str ''Command not found: '') ?z = Some (fst ?z, d1)" using k by blast
  obtain d2 where d2: "kserial E ?f (fst ?z, d1) = Some (fst ?z, d2)" using k [of ?f "(fst ?z, d1)"] by auto
  obtain d3 where d3: "kserial E [13, 10] (fst ?z, d2) = Some (fst ?z, d3)" using k [of "[13, 10]" "(fst ?z, d2)"] by auto
  show ?thesis using p o d1 d2 d3 by (simp add: execute_command_def x Let_def)
qed

lemma boot_strings:
  "is_cstring (str ''MagnOS v0.1 - Serial port initialized'' @ [10])" "is_cstring (str ''Kernel loaded successfully'' @ [10])"
  "is_cstring (str ''MagnOS> '')" "is_cstring (str ''shell'')"
  by (simp_all add: is_cstring_def str_def ord_c_def of_char_def)

lemma boot_info_returns:
  assumes "uart_tx (io E) SERIAL_COM1 busy sent"
  shows "\<exists>y. boot_info E x = Some y"
proof -
  obtain d1 where d1: "kserial E (str ''MagnOS v0.1 - Serial port initialized'' @ [10]) x = Some (fst x, d1)"
    using kserial_returns [OF assms boot_strings(1)] by blast
  obtain d2 where "kserial E (str ''Kernel loaded successfully'' @ [10]) (fst x, d1) = Some (fst x, d2)"
    using kserial_returns [OF assms boot_strings(2), of "(fst x, d1)"] by auto
  then show ?thesis unfolding boot_info_def Let_def d1 bind.bind_lunit by (simp only: bind.bind_lunit option.inject simp_thms)
qed

lemma shell_fallback_returns:
  assumes "uart_tx (io E) SERIAL_COM1 busy sent"
  shows "\<exists>y t. shell_fallback E x = Some y \<and> exec_depth (fst y) = exec_depth (fst x) \<and> shell_cmd_pos (fst y) = 0
    \<and> sent (snd y) = t @ str ''MagnOS> ''"
proof -
  let ?v = "kcolor VGA_COLOR_LIGHT_GREY (kputs E (str ''Falling back to kernel shell.'' @ [10]) (kcolor VGA_COLOR_YELLOW x))"
  let ?p = "kputs E (str ''MagnOS> '') (kcolor VGA_COLOR_LIGHT_CYAN ((fst ?v)\<lparr>shell_cmd_pos := 0\<rparr>, snd ?v))"
  obtain d' where d': "kserial E (str ''MagnOS> '') ?p = Some (fst ?p, d')" "sent d' = sent (snd ?p) @ crlf (str ''MagnOS> '')"
    using kserial_returns [OF assms boot_strings(3), of ?p] by blast
  have "shell_cmd_pos (fst (kputs E t z)) = shell_cmd_pos (fst z)" "shell_cmd_pos (fst (kcolor c z)) = shell_cmd_pos (fst z)" for t c z
    by (simp_all add: kputs_def kcolor_def split: prod.split)
  moreover have "crlf (str ''MagnOS> '') = str ''MagnOS> ''" by (simp add: str_def ord_c_def of_char_def)
  ultimately show ?thesis using d' by (simp add: shell_fallback_def shell_ready_def prompt_def Let_def split_beta)
qed

lemma kernel_main_without_disk:
  assumes "loaded (fst x)" and "uart_tx (io E) SERIAL_COM1 busy sent" and "kernel_end E \<noteq> 0" and "unat (kernel_end E) + 4096 < 2 ^ 32"
    and "free_list (fst x) = 0" and "heap_pages (fst x) = 0" and "\<forall>f d. fst (fat32_init (io E) 0 f d) \<noteq> 0"
  shows "\<exists>y t. kernel_main E x = Some y \<and> kernel_ok (fst y) \<and> exec_depth (fst y) = 0 \<and> shell_cmd_pos (fst y) = 0
    \<and> sent (snd y) = t @ str ''MagnOS> ''"
proof -
  let ?x = "boot_interrupts E (boot_console E x)"
  have "free_list (fst ?x) = 0" "heap_pages (fst ?x) = 0"
    using boot_mside(2) [of E "boot_console E x"] boot_mside(1) [of E x] assms(5,6) by (simp_all add: mside_def)
  then obtain x1 where x1: "boot_memory E ?x = Some x1" using boot_memory_returns [OF assms(3,4)] by blast
  obtain x2 where x2: "boot_info E (boot_ide E x1) = Some x2" using boot_info_returns [OF assms(2)] by blast
  obtain x3 where x3: "boot_fat32 E x2 = Some x3" "initialized (disk (fst x3)) = 0" using boot_fat32_fails [OF assms(7)] by blast
  let ?z = "kcolor VGA_COLOR_LIGHT_GREY (kputs E (str ''System ready.'' @ [10]) (kcolor VGA_COLOR_YELLOW x3))"
  have "idle_ok (fst x3)"
    using boot_disk_ok(3) [OF _ x3(1)] boot_disk_ok(2) [OF _ x2] boot_disk_ok(1) boot_memory_ok [OF x1]
      boot_interrupts_ok [OF boot_console_ok [OF assms(1)]] by blast
  then have z: "exec_depth (fst ?z) = 0" "args_ok (current_program_args (fst ?z))" "disk (fst ?z) = disk (fst x3)"
    by (auto simp: idle_ok_def kernel_ok_def kputs_def kcolor_def split: prod.split)
  obtain w where w: "execute_command E At_Boot (str ''shell'') ?z = Some (False, w)" "exec_depth (fst w) = 0"
    using execute_command_missing [OF assms(2) _ boot_strings(4) z(2)] x3(2) z(1,3) by metis
  obtain y t where y: "shell_fallback E w = Some y" "exec_depth (fst y) = 0" "shell_cmd_pos (fst y) = 0" "sent (snd y) = t @ str ''MagnOS> ''"
    using shell_fallback_returns [OF assms(2), of w] w(2) by auto
  have "kernel_main E x = Some y" using x1 x2 x3(1) w(1) y(1) by (simp add: kernel_main_def Let_def)
  then show ?thesis using y(2-4) kernel_main_ok [OF _ assms(1)] by blast
qed

text \<open>
  A machine with a serial port and nothing else: every port reads \<open>0xFF\<close>, no interrupt arrives, and the
  device state is what was sent on COM1. The statics of the kernel are zero, as the loader leaves them.
\<close>

definition bare_bus :: "u8 list bus" where
  "bare_bus = \<lparr>bus_in = (\<lambda>p d. (0xFF, d)), bus_out = (\<lambda>p v d. if p = SERIAL_COM1 then d @ [v] else d),
     bus_inw = (\<lambda>p d. (0xFFFF, d)), bus_outw = (\<lambda>p w d. d)\<rparr>"

definition bare_env :: "u8 list env" where
  "bare_env = \<lparr>io = bare_bus, next_irq = (\<lambda>d. None), binary_buffer = 0x20000, exec_buffer = 0x30000, saved_program = 0x40000,
     shell_esp = 0x8FF00, exec_stack_use = 0x200, kernel_end = 0x9C000, kernel_main_at = 0x2000, gdt_at = 0x15000, tss_at = 0x15100,
     idt_at = 0x15200, isr_at = (\<lambda>n. 0x16000 + of_nat (16 * n))\<rparr>"

definition zero_regs :: regs where
  "zero_regs = \<lparr>eax = 0, ecx = 0, edx = 0, ebx = 0, ebp = 0, esi = 0, edi = 0, esp = 0, eip = 0, interrupts = False\<rparr>"

definition power_on :: kernel where
  "power_on = \<lparr>mem = (\<lambda>a. 0), bitmap = replicate 512 0, free_list = 0, heap_pages = 0, kernel_page_directory = 0, cr0 = 0, cr3 = 0,
     proc_table = replicate 16 \<lparr>pid = 0, pname = replicate 16 0, pstate = PROC_UNUSED, saved_esp = 0, saved_eip = 0,
       page_directory = 0, kernel_stack = 0\<rparr>,
     current_proc = None, next_pid = 1, cpu = zero_regs,
     keyb = \<lparr>shift_pressed = 0, ctrl_pressed = 0, alt_pressed = 0, capslock_on = 0, kb_buffer = replicate 256 0, kb_head = 0, kb_tail = 0\<rparr>,
     screen = \<lparr>vga_buffer = replicate 2000 0, vga_row = 0, vga_column = 0, vga_color = 0\<rparr>,
     disk = \<lparr>fs_drive = 0, bpb = bpb_of (replicate 512 0), fat_start_sector = 0, data_start_sector = 0, root_dir_cluster = 0,
       initialized = 0, sector_buffer = replicate 512 0,
       fs_file = \<lparr>f_first_cluster = 0, f_current_cluster = 0, f_size = 0, f_position = 0, f_attr = 0, f_valid = 0\<rparr>\<rparr>,
     segments = \<lparr>gdt = replicate 6 (gdt_gate 0 0 0 0), gdtp = (0, 0), tss = zero_tss, gdtr = (0, 0), seg_cs = 8, seg_ds = 16,
       seg_es = 16, seg_fs = 16, seg_gs = 16, seg_ss = 16, task_reg = 0\<rparr>,
     ints = \<lparr>idt = replicate 256 \<lparr>offset_low = 0, selector = 0, zero = 0, type_attr = 0, offset_high = 0\<rparr>,
       idtp = (0, 0), pit_ticks = 0, idtr = (0, 0), interrupts_on = False\<rparr>,
     current_program_args = \<lparr>args = replicate 16 (replicate 64 0), count = 0\<rparr>, current_file = False,
     exec_stack = replicate 8 \<lparr>jb_caller = At_Boot, jb_esp0 = 0\<rparr>, exec_depth = 0, user = zero_regs,
     shell_cmd_buf = replicate 64 0, shell_cmd_pos = 0\<rparr>"

lemma power_on_loaded: "loaded power_on"
  by (simp add: loaded_def power_on_def kb_ok_def args_ok_def)

lemma bare_uart: "uart_tx (io bare_env) SERIAL_COM1 (\<lambda>d. 0) id"
  by (simp add: uart_tx_def bare_env_def bare_bus_def inb_def outb_def)

lemma bare_no_disk: "\<forall>f d. fst (fat32_init (io bare_env) 0 f d) \<noteq> 0"
proof -
  have "fst (ide_wait_ready bare_bus d) = -1" for d
    unfolding ide_wait_ready_def by (rule ide_ready_loop_absent) (simp add: inb_def bare_bus_def)
  then show ?thesis by (simp add: fat32_init_def read_sector_def ide_read_sectors_def bare_env_def Let_def case_prod_beta)
qed

lemma bare_memory:
  "kernel_end bare_env \<noteq> 0" "unat (kernel_end bare_env) + 4096 < 2 ^ 32" "free_list power_on = 0" "heap_pages power_on = 0"
  by (simp_all add: bare_env_def power_on_def)

lemma bare_boot: "\<exists>y. kernel_main bare_env (power_on, []) = Some y"
  using kernel_main_without_disk [of "(power_on, [])", OF _ bare_uart bare_memory(1,2) _ _ bare_no_disk] power_on_loaded bare_memory(3,4)
  by auto

subsection \<open>Results\<close>



text \<open>
  C39: booting comes to an end. On a machine whose serial port transmits and whose disk cannot be
  mounted, \<open>kernel_main\<close> gets through its initialisation, finds no shell and ends up at the prompt of
  the kernel shell, with an empty command line and a well-formed state.
\<close>

theorem kernel_boots_without_disk:
  assumes "loaded (fst x)" and "uart_tx (io E) SERIAL_COM1 busy sent" and "kernel_end E \<noteq> 0" and "unat (kernel_end E) + 4096 < 2 ^ 32"
    and "free_list (fst x) = 0" and "heap_pages (fst x) = 0" and "\<forall>f d. fst (fat32_init (io E) 0 f d) \<noteq> 0"
  shows "\<exists>y t. kernel_main E x = Some y \<and> kernel_ok (fst y) \<and> exec_depth (fst y) = 0 \<and> shell_cmd_pos (fst y) = 0
    \<and> sent (snd y) = t @ str ''MagnOS> ''"
  using assms by (rule kernel_main_without_disk)

theorem kernel_boots_without_disk_witness:
  "\<exists>y t. kernel_main bare_env (power_on, []) = Some y \<and> kernel_ok (fst y) \<and> exec_depth (fst y) = 0 \<and> shell_cmd_pos (fst y) = 0
    \<and> snd y = t @ str ''MagnOS> ''"
  using kernel_boots_without_disk [of "(power_on, [])", OF _ bare_uart bare_memory(1,2) _ _ bare_no_disk] power_on_loaded bare_memory(3,4)
  by simp

end
