(* ===== verification/Fat32_Bounds.thy ===== *)
theory Fat32_Bounds
  imports Fat32
begin

text \<open>
  Bounds of the file system: how much a read or a listing gives its caller, and what happens to the
  file handle, whatever the disk returns.
\<close>

lemma read_sector_file: "read_sector bus a st d = (r, st', d') \<Longrightarrow> fs_file st' = fs_file st"
  by (auto simp: read_sector_def Let_def split: prod.splits)

lemma next_cluster_file: "fat32_get_next_cluster bus c st d = (c', st', d') \<Longrightarrow> fs_file st' = fs_file st"
  by (auto simp: fat32_get_next_cluster_def Let_def dest!: read_sector_file split: if_splits prod.splits)

subsection \<open>Reading\<close>

text \<open>A read gives at most as many bytes as its loop starts with, and advances the position by at most as many.\<close>

definition read_bounded :: "u32 \<Rightarrow> u8 list \<Rightarrow> fat32 \<Rightarrow> u8 list \<Rightarrow> fat32 \<Rightarrow> bool" where
  "read_bounded n acc st acc' st' \<longleftrightarrow> length acc' \<le> length acc + unat n \<and> f_size (fs_file st') = f_size (fs_file st)
     \<and> (unat (f_position (fs_file st)) + unat n < 2 ^ 32 \<longrightarrow>
          unat (f_position (fs_file st')) \<le> unat (f_position (fs_file st)) + unat n)"

lemma read_bounded_round:
  assumes "k \<le> n" and "length bs \<le> unat k" and "f_position (fs_file st1) = f_position (fs_file st) + k"
    and "f_size (fs_file st1) = f_size (fs_file st)" and "read_bounded (n - k) (acc @ bs) st1 acc' st'"
  shows "read_bounded n acc st acc' st'"
proof -
  have k: "unat k \<le> unat n" "unat (n - k) = unat n - unat k"
    using assms(1) by (simp_all add: word_le_nat_alt unat_sub)
  have "unat (f_position (fs_file st1)) = unat (f_position (fs_file st)) + unat k"
    if "unat (f_position (fs_file st)) + unat n < 2 ^ 32"
    using that k(1) unfolding assms(3) by (intro unat_add_small) simp
  then show ?thesis using assms(2,4,5) k by (auto simp: read_bounded_def)
qed

lemma read_loop_bounded:
  assumes "read_loop bus n acc st d = Some y"
  shows "read_bounded n acc st (fst y) (fst (snd y))"
proof (rule read_loop.raw_induct [where P = "\<lambda>bus n acc st d y. read_bounded n acc st (fst y) (fst (snd y))", OF _ assms], goal_cases)
  case (1 rl bus n acc st d y)
  define c where "c = (ucast (sectors_per_cluster (bpb st)) * FAT32_SECTOR_SIZE :: u32)"
  define b where "b = (if c - f_position (fs_file st) mod c > n then n else c - f_position (fs_file st) mod c)"
  define k where "k = (if FAT32_SECTOR_SIZE - f_position (fs_file st) mod c mod FAT32_SECTOR_SIZE > b then b
      else FAT32_SECTOR_SIZE - f_position (fs_file st) mod c mod FAT32_SECTOR_SIZE)"
  have "k \<le> n" by (auto simp: k_def b_def not_less)
  have len: "length (bytes w i (unat k)) \<le> unat k" for w i by (simp add: bytes_def)
  note step = 1(2) [unfolded Let_def, folded c_def, folded b_def, folded k_def]
  show ?case
  proof (cases "n > 0 \<and> f_current_cluster (fs_file st) < FAT32_CLUSTER_EOC \<and> c \<noteq> 0")
    case True
    obtain r st1 d1 where r: "read_sector bus (fat32_cluster_to_sector st (f_current_cluster (fs_file st)) + f_position (fs_file st) mod c div 512) st d = (r, st1, d1)"
      by (meson prod_cases3)
    let ?st = "st1\<lparr>fs_file := (fs_file st1)\<lparr>f_position := f_position (fs_file st1) + k\<rparr>\<rparr>"
    obtain c3 st3 d3 where n: "fat32_get_next_cluster bus (f_current_cluster (fs_file ?st)) ?st d1 = (c3, st3, d3)" by (meson prod_cases3)
    note files = read_sector_file [OF r] next_cluster_file [OF n]
    have round: "read_bounded n acc st (fst y) (fst (snd y))"
      if "rl bus (n - k) (acc @ bytes (sector_buffer st1) i (unat k)) st2 d2 = Some y"
        "f_position (fs_file st2) = f_position (fs_file st) + k" "f_size (fs_file st2) = f_size (fs_file st)" for i st2 d2
      by (rule read_bounded_round [OF \<open>k \<le> n\<close> len that(2,3) 1(1) [OF that(1)]])
    show ?thesis
    proof (cases "r = 0")
      case True
      then show ?thesis using step r n files \<open>n > 0 \<and> _\<close> by (auto split: if_split_asm intro: round)
    next
      case False
      then show ?thesis using step r files \<open>n > 0 \<and> _\<close> by (auto simp: read_bounded_def)
    qed
  qed (use step in \<open>auto simp: read_bounded_def split: if_split_asm\<close>)
qed

lemma fat32_read_bounded:
  assumes "fat32_read bus h sz st d = Some (n, bs, st', d')"
    and "f_position (fs_file st) \<le> f_size (fs_file st)" and "unat (f_position (fs_file st)) + unat sz < 2 ^ 32"
  shows "length bs \<le> unat sz" and "f_position (fs_file st') \<le> f_size (fs_file st')"
proof -
  define f where "f = fs_file st"
  have pos: "unat (f_position f) \<le> unat (f_size f)" "unat (f_position f + sz) = unat (f_position f) + unat sz"
    using assms(2,3) by (simp_all add: f_def word_le_nat_alt unat_add_small)
  define k where "k = (if f_position f + sz > f_size f then f_size f - f_position f else sz)"
  have k: "unat k \<le> unat sz" "unat (f_position f) + unat k \<le> unat (f_size f)"
    using pos by (auto simp: k_def word_less_nat_alt unat_sub word_le_nat_alt)
  consider "bs = []" "st' = st" | "read_loop bus k [] st d = Some (bs, st', d')"
    using assms(1) by (auto simp: fat32_read_def f_def k_def Let_def split: if_split_asm bind_splits)
  then have "length bs \<le> unat sz \<and> unat (f_position (fs_file st')) \<le> unat (f_size (fs_file st'))"
  proof cases
    case 2
    have "unat (f_position f) + unat k < 2 ^ 32" using le_less_trans [OF k(2) unat_u32_less] by simp
    then show ?thesis using read_loop_bounded [OF 2] k by (auto simp: read_bounded_def f_def)
  qed (use pos in \<open>simp add: f_def\<close>)
  then show "length bs \<le> unat sz" "f_position (fs_file st') \<le> f_size (fs_file st')" by (simp_all add: word_le_nat_alt)
qed

subsection \<open>Opening and listing\<close>

lemma open_sectors_file: "open_sectors bus nm a i n st d = (r, st', d') \<Longrightarrow> fs_file st' = fs_file st"
proof (induction n arbitrary: i st d)
  case (Suc n)
  obtain r1 st1 d1 where s: "read_sector bus (a + of_nat i) st d = (r1, st1, d1)" by (meson prod_cases3)
  then show ?case using Suc read_sector_file [OF s] by (auto split: if_splits option.splits)
qed simp

lemma open_chain_file:
  assumes "open_chain bus nm c st d = Some y"
  shows "fs_file (fst (snd y)) = fs_file st"
  by (rule open_chain.raw_induct [where P = "\<lambda>bus nm c st d y. fs_file (fst (snd y)) = fs_file st", OF _ assms])
    (auto simp: Let_def split: if_splits prod.splits option.splits dest!: open_sectors_file next_cluster_file)

lemma fat32_open_bounded:
  assumes "fat32_open bus nm st d = Some (b, st', d')" and "f_position (fs_file st) \<le> f_size (fs_file st)"
  shows "f_position (fs_file st') \<le> f_size (fs_file st')"
  using assms by (auto simp: fat32_open_def file_of_def Let_def split: if_splits bind_splits option.splits dest!: open_chain_file)

lemma fat32_close_bounded [simp]:
  "f_position (fs_file (fat32_close h st)) \<le> f_size (fs_file (fat32_close h st)) \<longleftrightarrow> f_position (fs_file st) \<le> f_size (fs_file st)"
  by (simp add: fat32_close_def)

text \<open>A listing has at most as many entries as asked for, with names that fit their 13 bytes.\<close>

definition listing_ok :: "int \<Rightarrow> fat32_dirinfo list \<Rightarrow> bool" where
  "listing_ok mx is \<longleftrightarrow> int (length is) \<le> mx \<and> list_all (\<lambda>i. length (di_name i) \<le> 12) is"

lemma length_name_to_string: "length (fat32_name_to_string nm) \<le> 12"
proof -
  have t: "length (takeWhile P (take n xs)) \<le> n" for P n and xs :: "u8 list"
    by (rule order_trans [OF length_takeWhile_le]) simp
  show ?thesis using t [of "\<lambda>c. c \<noteq> 32" 8 nm] t [of "\<lambda>c. c \<noteq> 32" 3 "drop 8 nm"] by (simp add: fat32_name_to_string_def)
qed

lemma list_entries_listing: "list_entries mx es acc = (fin, acc') \<Longrightarrow> listing_ok mx acc \<Longrightarrow> listing_ok mx acc'"
  by (induction mx es acc arbitrary: fin acc' rule: list_entries.induct)
    (auto simp: listing_ok_def dirinfo_of_def length_name_to_string split: if_splits)

lemma list_sectors_listing:
  "list_sectors bus mx a i n acc st d = (r, acc', st', d') \<Longrightarrow> listing_ok mx acc \<Longrightarrow> listing_ok mx acc' \<and> fs_file st' = fs_file st"
proof (induction n arbitrary: i acc st d)
  case (Suc n)
  obtain r1 st1 d1 where s: "read_sector bus (a + of_nat i) st d = (r1, st1, d1)" by (meson prod_cases3)
  obtain fin acc1 where e: "list_entries mx (sector_entries (sector_buffer st1)) acc = (fin, acc1)" by (meson surj_pair)
  show ?case using Suc s read_sector_file [OF s] e list_entries_listing [OF e] by (auto split: if_splits)
qed simp

lemma list_chain_listing:
  assumes "list_chain bus mx c acc st d = Some y" and "listing_ok mx acc"
  shows "listing_ok mx (fst (snd y))" and "fs_file (fst (snd (snd y))) = fs_file st"
proof -
  have "listing_ok mx acc \<longrightarrow> listing_ok mx (fst (snd y)) \<and> fs_file (fst (snd (snd y))) = fs_file st"
    by (rule list_chain.raw_induct [where P = "\<lambda>bus mx c acc st d y. listing_ok mx acc \<longrightarrow>
          listing_ok mx (fst (snd y)) \<and> fs_file (fst (snd (snd y))) = fs_file st", OF _ assms(1)])
      (fastforce simp: Let_def split: if_splits prod.splits sum.splits dest: list_sectors_listing next_cluster_file)
  then show "listing_ok mx (fst (snd y))" "fs_file (fst (snd (snd y))) = fs_file st" using assms(2) by simp_all
qed

lemma fat32_list_dir_listing:
  assumes "fat32_list_dir bus p mx st d = Some (n, is, st', d')"
  shows "listing_ok (max 0 mx) is" and "fs_file st' = fs_file st"
proof -
  have "listing_ok mx []" if "0 < mx" using that by (simp add: listing_ok_def)
  then show "listing_ok (max 0 mx) is" "fs_file st' = fs_file st"
    using assms list_chain_listing [of bus mx "root_dir_cluster st" "[]" st d "(n, is, st', d')"]
    by (auto simp: fat32_list_dir_def listing_ok_def split: if_splits)
qed

end
