(* ===== verification/Exec.thy ===== *)
theory Exec
  imports Kernel_Inv Fat32_Bounds
begin

text \<open>
  Programs and their memory: what a program in ring 3 can change, and what the exec system call does
  to the memory and the registers of the program that called it.
\<close>

subsection \<open>The fence around a program\<close>

text \<open>
  The addresses of the page directory and of the page tables in use. The fence: the page tables are
  well-formed and outside the program region, mapped pages are mapped to themselves, and only the
  program region is open to ring 3.
\<close>

definition table_addr :: "'z paging_scheme \<Rightarrow> u32 \<Rightarrow> bool" where
  "table_addr s a \<longleftrightarrow> PAGE_FRAME a = kernel_page_directory s \<or> (\<exists>i < 1024. odd (pde s i) \<and> PAGE_FRAME a = PAGE_FRAME (pde s i))"

definition fenced :: "'z paging_scheme \<Rightarrow> bool" where
  "fenced s \<longleftrightarrow> paging_ok s \<and> odd (pde s 0) \<and> (\<forall>w. in_user w \<longrightarrow> odd (pte s w))
     \<and> (\<forall>w. odd (pte s w) \<longrightarrow> paging_get_phys w s = w) \<and> (\<forall>w. bit (pte s w) 2 \<longrightarrow> in_user w)
     \<and> (\<forall>a. table_addr s a \<longrightarrow> \<not> in_user a)"

lemma slot_frame:
  assumes "page_aligned p" and "i < 1024" and "k < 4"
  shows "PAGE_FRAME (slot p i + k) = p"
proof -
  have i: "unat i < 1024" and k: "unat k < 4" using assms(2,3) by (simp_all add: word_less_nat_alt)
  obtain q where q: "unat p = 4096 * q" using assms(1) by (auto simp: page_aligned_def elim: dvdE)
  have "unat (slot p i) = 4096 * q + 4 * unat i" using slot_unat(1) [OF assms(1,2)] q by simp
  moreover have "4096 * q + 4096 \<le> 2 ^ 32" using q unat_u32_less [of p] by simp
  ultimately have "unat (slot p i + k) = 4096 * q + (4 * unat i + unat k)"
    using i k by (subst unat_add_small) simp_all
  then have "unat (PAGE_FRAME (slot p i + k)) = unat p" using i k by (simp add: unat_PAGE_FRAME q)
  then show ?thesis by (simp add: u32_eq_unat)
qed

lemma ld_slot_cong:
  assumes "page_aligned p" and "i < 1024" and "\<And>a. PAGE_FRAME a = p \<Longrightarrow> m a = m' a"
  shows "ld32 m (slot p i) = ld32 m' (slot p i)"
proof -
  have "m (slot p i + k) = m' (slot p i + k)" if "k < 4" for k
    using assms(3) slot_frame [OF assms(1,2) that] by blast
  from this [of 0] this [of 1] this [of 2] this [of 3] show ?thesis by (simp add: ld32_def)
qed

text \<open>Memory outside the tables does not matter to paging.\<close>

lemma paging_cong:
  fixes s :: "'z paging_scheme" and s' :: "'y paging_scheme"
  assumes ok: "paging_ok s" and mem: "\<And>a. table_addr s a \<Longrightarrow> mem s' a = mem s a"
    and view: "kernel_page_directory s' = kernel_page_directory s" "bitmap s' = bitmap s"
  shows "i < 1024 \<Longrightarrow> pde s' i = pde s i" and "pte s' w = pte s w" and "paging_ok s'" and "table_addr s' a = table_addr s a"
proof -
  have al: "page_aligned (kernel_page_directory s)" "\<And>i. i < 1024 \<Longrightarrow> odd (pde s i) \<Longrightarrow> page_aligned (PAGE_FRAME (pde s i))"
    using ok table_page_aligned by (auto simp: paging_ok_def)
  show pde: "pde s' i = pde s i" if "i < 1024" for i
    unfolding pde_def view by (rule ld_slot_cong [OF al(1) that]) (simp add: mem table_addr_def)
  have ix: "PD_INDEX w < 1024" "PT_INDEX w < 1024" for w by (simp_all add: index_bound)
  show pte: "pte s' w = pte s w" for w
  proof (cases "odd (pde s (PD_INDEX w))")
    case True
    then have "table_addr s a" if "PAGE_FRAME a = PAGE_FRAME (pde s (PD_INDEX w))" for a
      unfolding table_addr_def using that ix(1) True by blast
    then show ?thesis unfolding pte_def pde [OF ix(1)] using mem ld_slot_cong [OF al(2) [OF ix(1) True] ix(2)] by metis
  qed (simp add: pte_def pde ix)
  have "pmm_wf s' = pmm_wf s" "table_page s' = table_page s"
    using view by (simp_all add: pmm_wf_def pmm_free_pages_def table_page_def fun_eq_iff)
  then show "paging_ok s'" using ok by (simp add: paging_ok_def view pde)
  show "table_addr s' a = table_addr s a" unfolding table_addr_def view using pde by metis
qed

lemma fenced_cong:
  fixes s :: "'z paging_scheme" and s' :: "'y paging_scheme"
  assumes "fenced s" and "\<And>a. table_addr s a \<Longrightarrow> mem s' a = mem s a"
    and "kernel_page_directory s' = kernel_page_directory s" "bitmap s' = bitmap s"
  shows "fenced s'" and "table_addr s' a = table_addr s a" and "user_page s' w = user_page s w"
    and "paging_get_phys w s' = paging_get_phys w s"
proof -
  have ok: "paging_ok s" using assms(1) by (simp add: fenced_def)
  note c = paging_cong [OF ok assms(2-4)]
  have p: "paging_get_phys w s' = paging_get_phys w s" for w by (simp add: paging_get_phys_pte c(2))
  then show "paging_get_phys w s' = paging_get_phys w s" .
  show "fenced s'" using assms(1) c(3) by (simp add: fenced_def c(1,2,4) p)
  show "table_addr s' a = table_addr s a" by (rule c(4))
  show "user_page s' w = user_page s w" by (simp add: user_page_def c(1,2) index_bound)
qed

text \<open>A program's store stays inside its region.\<close>

lemma fenced_store: "fenced s \<Longrightarrow> user_page s a \<Longrightarrow> in_user (paging_get_phys a s)"
  by (auto simp: fenced_def user_page_def)

subsection \<open>Opening the pages of a program\<close>

lemma st_slot_other:
  assumes "page_aligned p" and "i < 1024" and "PAGE_FRAME a \<noteq> p"
  shows "st32 m (slot p i) v a = m a"
proof (rule st32_other, rule ccontr)
  assume "\<not> 4 \<le> a - slot p i"
  then have "PAGE_FRAME (slot p i + (a - slot p i)) = p" by (intro slot_frame [OF assms(1,2)]) simp
  then show False using assms(3) by simp
qed

lemma paging_map_frame:
  assumes ok: "paging_ok s" and present: "odd (pde s (PD_INDEX v))" and a: "\<not> table_addr s a"
  shows "mem (paging_map v p f s) a = mem s a" and "bitmap (paging_map v p f s) = bitmap s"
    and "kernel_page_directory (paging_map v p f s) = kernel_page_directory s"
proof -
  have ix: "PD_INDEX v < 1024" "PT_INDEX v < 1024" by (simp_all add: index_bound)
  have al: "page_aligned (kernel_page_directory s)" "page_aligned (PAGE_FRAME (pde s (PD_INDEX v)))"
    using ok present ix table_page_aligned by (auto simp: paging_ok_def)
  have n: "PAGE_FRAME a \<noteq> kernel_page_directory s" "PAGE_FRAME a \<noteq> PAGE_FRAME (pde s (PD_INDEX v))"
    using a present ix(1) unfolding table_addr_def by blast+
  have u: "pde (set_pde (PD_INDEX v) w s) (PD_INDEX v) = w" for w using pde_set_pde [OF ok ix(1) ix(1)] by simp
  have fr: "PAGE_FRAME (pde s (PD_INDEX v) OR PAGE_USER) = PAGE_FRAME (pde s (PD_INDEX v))"
    unfolding PAGE_FRAME_def frame_mask by (rule bit_word_eqI) (auto simp: bit_simps bit_flags)
  show "mem (paging_map v p f s) a = mem s a" "bitmap (paging_map v p f s) = bitmap s"
    "kernel_page_directory (paging_map v p f s) = kernel_page_directory s"
    using present n st_slot_other [OF al(1) ix(1)] st_slot_other [OF al(2) ix(2)]
    by (simp_all add: paging_map_def paging_table_def present_odd u fr Let_def) (simp_all add: set_pde_def)
qed

lemma user_flag: "odd (e OR PAGE_USER :: u32) = odd e" "PAGE_FRAME (e OR PAGE_USER) = PAGE_FRAME e"
proof -
  show "odd (e OR PAGE_USER) = odd e" by (simp add: bit_0 [symmetric] bit_simps bit_flags del: bit_0)
  show "PAGE_FRAME (e OR PAGE_USER) = PAGE_FRAME e"
    unfolding PAGE_FRAME_def frame_mask by (rule bit_word_eqI) (auto simp: bit_simps bit_flags)
qed

lemma paging_map_tables:
  assumes ok: "paging_ok s" and present: "odd (pde s (PD_INDEX v))"
  shows "table_addr (paging_map v p f s) a = table_addr s a"
proof -
  have ix: "PD_INDEX v < 1024" by (simp add: index_bound)
  define t where "t = (if f AND PAGE_USER \<noteq> 0 then set_pde (PD_INDEX v) (pde s (PD_INDEX v) OR PAGE_USER) s else s)"
  have t: "paging_ok t" "kernel_page_directory t = kernel_page_directory s"
    using set_pde_flags(1) [OF ok ix] user_flag ok by (auto simp: t_def set_pde_def)
  have pde: "odd (pde t i) = odd (pde s i)" "PAGE_FRAME (pde t i) = PAGE_FRAME (pde s i)" if "i < 1024" for i
    using pde_set_pde [OF ok ix that] user_flag by (auto simp: t_def)
  have pr: "odd (pde t (PD_INDEX v))" using pde(1) [OF ix] present by simp
  have m: "paging_map v p f s = t\<lparr>mem := st32 (mem t) (slot (PAGE_FRAME (pde t (PD_INDEX v))) (PT_INDEX v))
      ((p AND 0xFFFFF000) OR (f AND 0xFFF) OR PAGE_PRESENT)\<rparr>"
    using present by (simp add: paging_map_def paging_table_def present_odd t_def Let_def)
  have "odd (pde (paging_map v p f s) i) = odd (pde s i)" "PAGE_FRAME (pde (paging_map v p f s) i) = PAGE_FRAME (pde s i)"
    if "i < 1024" for i
    unfolding m using store_pte(2) [OF t(1) pr that] pde [OF that] by simp_all
  moreover have "kernel_page_directory (paging_map v p f s) = kernel_page_directory s" using t(2) by (simp add: m)
  ultimately show ?thesis unfolding table_addr_def by metis
qed

lemma map_pages_frame:
  assumes "paging_ok s" and "odd (pde s 0)" and "\<And>a. a \<in> set as \<Longrightarrow> PD_INDEX a = 0" and "\<not> table_addr s x"
  shows "mem (fold (\<lambda>a. paging_map a a 7) as s) x = mem s x" and "bitmap (fold (\<lambda>a. paging_map a a 7) as s) = bitmap s"
    and "table_addr (fold (\<lambda>a. paging_map a a 7) as s) y = table_addr s y"
proof -
  have "mem (fold (\<lambda>a. paging_map a a 7) as s) x = mem s x \<and> bitmap (fold (\<lambda>a. paging_map a a 7) as s) = bitmap s
    \<and> (\<forall>y. table_addr (fold (\<lambda>a. paging_map a a 7) as s) y = table_addr s y)"
    using assms
  proof (induction as arbitrary: s)
    case (Cons b as)
    let ?s = "paging_map b b 7 s"
    have b: "odd (pde s (PD_INDEX b))" using Cons.prems(2,3) by simp
    note fr = paging_map_frame [OF Cons.prems(1) b Cons.prems(4)]
    note ta = paging_map_tables [OF Cons.prems(1) b]
    have "paging_ok ?s \<and> odd (pde ?s 0)" using map_pages [OF Cons.prems(1,2), of "[b]"] Cons.prems(3) by simp
    then show ?case using Cons.IH [of ?s] Cons.prems(3,4) fr ta by simp
  qed simp
  then show "mem (fold (\<lambda>a. paging_map a a 7) as s) x = mem s x" "bitmap (fold (\<lambda>a. paging_map a a 7) as s) = bitmap s"
    "table_addr (fold (\<lambda>a. paging_map a a 7) as s) y = table_addr s y" by blast+
qed

lemma map_user_pages_fenced:
  assumes "fenced s"
  shows "fenced (map_user_pages s)" and "user_page (map_user_pages s) w = in_user w" and "table_addr (map_user_pages s) a = table_addr s a"
    and "\<not> table_addr s a \<Longrightarrow> mem (map_user_pages s) a = mem s a" and "bitmap (map_user_pages s) = bitmap s"
    and "kernel_page_directory (map_user_pages s) = kernel_page_directory s"
proof -
  have ok: "paging_ok s" "odd (pde s 0)" using assms by (simp_all add: fenced_def)
  have free: "\<not> table_addr s 0x200000" using assms unfolding fenced_def by (auto simp: in_user_def)
  note m = map_pages [OF ok, of user_addrs, folded map_user_pages_fold, OF user_addrs_index]
  note fr = map_pages_frame [OF ok, of user_addrs, folded map_user_pages_fold, OF user_addrs_index]
  show "bitmap (map_user_pages s) = bitmap s" by (rule fr(2) [OF _ free])
  show t: "table_addr (map_user_pages s) a = table_addr s a" for a by (rule fr(3) [OF _ free])
  show "mem (map_user_pages s) a = mem s a" if "\<not> table_addr s a" by (rule fr(1) [OF _ that])
  have ne: "user_addrs \<noteq> []" by (simp add: user_addrs_def)
  have pte: "pte (map_user_pages s) w = (if in_user w then PAGE_FRAME w OR 7 else pte s w)" for w
    using m by (simp add: user_addrs_pages)
  show "kernel_page_directory (map_user_pages s) = kernel_page_directory s" using m by blast
  have phys: "paging_get_phys w (map_user_pages s) = (if in_user w then w else paging_get_phys w s)" for w
    by (simp add: paging_get_phys_pte pte user_entry frame_and_offset)
  have f: "\<forall>w. odd (pte s w) \<longrightarrow> paging_get_phys w s = w" "\<forall>w. bit (pte s w) 2 \<longrightarrow> in_user w" "\<forall>a. table_addr s a \<longrightarrow> \<not> in_user a"
    using assms by (simp_all add: fenced_def)
  have "paging_ok (map_user_pages s)" "odd (pde (map_user_pages s) 0)" using m by blast+
  then show "fenced (map_user_pages s)"
    unfolding fenced_def using f by (simp add: t pte phys user_entry) blast
  show "user_page (map_user_pages s) w = in_user w"
  proof (cases "in_user w")
    case True
    then have "PD_INDEX w = 0" using user_addrs_index user_addrs_pages [of w] by (auto simp: same_page_def)
    moreover have "bit (pde (map_user_pages s) 0) 2" using m ne by blast
    ultimately show ?thesis using True by (simp add: user_page_def pte user_entry)
  next
    case False
    then show ?thesis using f(2) by (auto simp: user_page_def pte)
  qed
qed

subsection \<open>States that differ only in the program\<close>

text \<open>
  What the kernel keeps of a program that waits for another one, and of itself: everything outside
  the program region, the page directory, the process table and the contexts to return to.
\<close>

definition kside :: "kernel \<Rightarrow> _" where
  "kside s = (bitmap s, kernel_page_directory s, proc_table s, current_proc s, exec_stack s, exec_depth s, segments s)"

definition confined :: "kernel \<Rightarrow> kernel \<Rightarrow> bool" where
  "confined s s' \<longleftrightarrow> kside s' = kside s \<and> (\<forall>a. \<not> in_user a \<longrightarrow> mem s' a = mem s a)"

lemma confined_refl [simp]: "confined s s"
  by (simp add: confined_def)

lemma confined_trans: "confined s s' \<Longrightarrow> confined s' s'' \<Longrightarrow> confined s s''"
  by (simp add: confined_def)

lemma confined_updates [simp]:
  "confined s (s'\<lparr>screen := v\<rparr>) = confined s s'" "confined s (s'\<lparr>keyb := k\<rparr>) = confined s s'"
  "confined s (s'\<lparr>disk := f\<rparr>) = confined s s'" "confined s (s'\<lparr>ints := i\<rparr>) = confined s s'"
  "confined s (s'\<lparr>current_program_args := a\<rparr>) = confined s s'" "confined s (s'\<lparr>current_file := b\<rparr>) = confined s s'"
  "confined s (s'\<lparr>user := r\<rparr>) = confined s s'"
  by (simp_all add: confined_def kside_def)

lemma confined_console [simp]:
  "confined s (fst (kputs E t x)) = confined s (fst x)" "confined s (fst (kputhex E n x)) = confined s (fst x)"
  "confined s (fst (kcolor c x)) = confined s (fst x)"
  by (simp_all add: kputs_def kputhex_def kcolor_def split: prod.split)

text \<open>The file handle: the position never gets past the size, as long as no read wraps around.\<close>

definition handle_ok :: "kernel \<Rightarrow> bool" where
  "handle_ok s \<longleftrightarrow> f_position (fs_file (disk s)) \<le> f_size (fs_file (disk s))"

text \<open>No process waits for the processor.\<close>

definition alone :: "kernel \<Rightarrow> bool" where
  "alone s \<longleftrightarrow> (case current_proc s of None \<Rightarrow> True | Some cur \<Rightarrow> next_ready (proc_table s) cur = None)"

lemma alone_schedule: "alone s \<Longrightarrow> schedule s = s"
  by (auto simp: alone_def schedule_def split: option.splits)

lemma confined_alone: "confined s s' \<Longrightarrow> alone s' = alone s"
  by (simp add: confined_def kside_def alone_def split: option.split)

lemma confined_fenced:
  assumes "confined s s'" and "fenced s"
  shows "fenced s'"
proof (rule fenced_cong(1) [OF assms(2)])
  show "mem s' a = mem s a" if "table_addr s a" for a
    using that assms unfolding fenced_def confined_def by blast
qed (use assms(1) in \<open>simp_all add: confined_def kside_def\<close>)

subsection \<open>Interrupts\<close>

lemma irq_handler_confined:
  assumes "alone (fst x)"
  shows "confined (fst x) (fst (irq_handler E n x))" and "disk (fst (irq_handler E n x)) = disk (fst x)"
proof -
  obtain s d where x: "x = (s, d)" by (meson surj_pair)
  have "alone (s\<lparr>ints := i\<rparr>)" for i using assms by (simp add: x alone_def split: option.splits)
  then have "schedule (s\<lparr>ints := i\<rparr>) = s\<lparr>ints := i\<rparr>" for i by (rule alone_schedule)
  then show "confined (fst x) (fst (irq_handler E n x))" "disk (fst (irq_handler E n x)) = disk (fst x)"
    by (simp_all add: irq_handler_def x Let_def split: prod.split)
qed

text \<open>Waiting, with the interrupts that arrive, changes neither memory nor the file system.\<close>

definition quiet :: "kernel \<Rightarrow> kernel \<Rightarrow> bool" where
  "quiet s s' \<longleftrightarrow> alone s \<and> confined s s' \<and> disk s' = disk s"

lemma quiet_keyb [simp]: "quiet s (s'\<lparr>keyb := k\<rparr>) = quiet s s'"
  by (simp add: quiet_def)

lemma hlt_quiet:
  assumes "hlt E x = Some y" and "quiet s (fst x)"
  shows "quiet s (fst y)"
proof -
  obtain n d where "y = irq_handler E n (fst x, d)" using assms(1) by (auto simp: hlt_def split: prod.splits bind_splits)
  moreover have "alone (fst x)" using assms(2) confined_alone by (auto simp: quiet_def)
  ultimately show ?thesis
    using assms(2) irq_handler_confined [of "(fst x, d)"] confined_trans unfolding quiet_def by (metis fst_conv)
qed

lemma sleep_loop_quiet:
  assumes "sleep_loop E t x = Some y" and "quiet s (fst x)"
  shows "quiet s (fst y)"
proof -
  have "quiet s (fst x) \<longrightarrow> quiet s (fst y)"
    by (rule sleep_loop.raw_induct [where P = "\<lambda>E t x y. quiet s (fst x) \<longrightarrow> quiet s (fst y)" and xa = "((E, t), x)", unfolded prod.case, OF _ assms(1)])
      (fastforce split: if_splits bind_splits dest: hlt_quiet)
  then show ?thesis using assms(2) by blast
qed

lemma getchar_loop_quiet:
  assumes "getchar_loop E x = Some cy" and "quiet s (fst x)"
  shows "quiet s (fst (snd cy))"
proof -
  have "quiet s (fst x) \<longrightarrow> quiet s (fst (snd cy))"
    by (rule getchar_loop.raw_induct [where P = "\<lambda>E x y. quiet s (fst x) \<longrightarrow> quiet s (fst (snd y))" and xa = "(E, x)", unfolded prod.case, OF _ assms(1)])
      (fastforce simp: Let_def split: if_splits bind_splits prod.splits dest: hlt_quiet)
  then show ?thesis using assms(2) by blast
qed

subsection \<open>System calls\<close>

text \<open>A buffer of n bytes that lies in the program region.\<close>

definition user_range :: "u32 \<Rightarrow> nat \<Rightarrow> bool" where
  "user_range a n \<longleftrightarrow> n = 0 \<or> 0x200000 \<le> unat a \<and> unat a + n \<le> 0x301000"

text \<open>
  A call that is neither exec nor exit, and whose buffer, if it has one, is in the program region; a
  read moreover has a size with which the file position does not wrap around.
\<close>

definition polite_call :: "kernel \<Rightarrow> bool" where
  "polite_call s \<longleftrightarrow> (let u = user s in eax u \<noteq> 2 \<and> eax u \<noteq> 9
     \<and> (eax u = 4 \<longrightarrow> user_range (ebx u) (unat (ecx u)) \<and> unat (f_position (fs_file (disk s))) + unat (ecx u) < 2 ^ 32)
     \<and> (eax u = 6 \<longrightarrow> user_range (ebx u) (24 * unat (ecx u)))
     \<and> (eax u = 7 \<longrightarrow> user_range (ecx u) (unat (edx u))))"

lemma in_user_unat: "in_user a \<longleftrightarrow> 0x200000 \<le> unat a \<and> unat a < 0x301000"
  by (simp add: in_user_def word_le_nat_alt word_less_nat_alt)

lemma store_bytes_user:
  assumes "user_range a n" and "length bs \<le> n" and "\<not> in_user x"
  shows "store_bytes m a bs x = m x"
proof (cases "bs = []")
  case False
  then have r: "0x200000 \<le> unat a" "unat a + length bs \<le> 0x301000" using assms(1,2) by (auto simp: user_range_def)
  show ?thesis using assms(3) r by (subst store_bytes_apply) (auto simp: in_user_unat)
qed simp

lemma copy_out_confined:
  assumes "copy_out a bs s = Some s'" and "user_range a n" and "length bs \<le> n"
  shows "confined s s'" and "disk s' = disk s"
proof -
  have s': "s' = s\<lparr>mem := store_bytes (mem s) a bs\<rparr>" using assms(1) by (simp add: copy_out_def split: if_splits)
  show "confined s s'" "disk s' = disk s"
    using store_bytes_user [OF assms(2,3)] by (simp_all add: s' confined_def kside_def)
qed

lemma store_dirinfos_confined:
  assumes "store_dirinfos a is s = Some s'" and "user_range a (24 * n)" and "listing_ok (int n) is"
  shows "confined s s' \<and> disk s' = disk s"
  using assms
proof (induction a "is" s arbitrary: n rule: store_dirinfos.induct)
  case (2 a i "is" s)
  define m where "m = (st32 (store_bytes (mem s) a (di_name i @ [0])) (a + 16) (di_size i))(a + 20 := di_is_directory i)"
  obtain k where n: "n = Suc k" using "2.prems"(3) by (cases n) (auto simp: listing_ok_def)
  have r: "0x200000 \<le> unat a" "unat a + 24 + 24 * k \<le> 0x301000" using "2.prems"(2) by (auto simp: user_range_def n)
  have u: "unat (a + 16) = unat a + 16" "unat (a + 20) = unat a + 20" "unat (a + 24) = unat a + 24" using r by (simp_all add: unat_add_small)
  have m: "m x = mem s x" if x: "\<not> in_user x" for x
  proof -
    have "store_bytes (mem s) a (di_name i @ [0]) x = mem s x"
      using "2.prems"(3) r x by (intro store_bytes_user [of a 24]) (auto simp: user_range_def listing_ok_def)
    moreover have "4 \<le> x - (a + 16)"
    proof (rule ccontr)
      assume "\<not> 4 \<le> x - (a + 16)"
      then have "unat (x - (a + 16)) < 4" by (simp add: word_le_nat_alt)
      then have "unat (a + 16 + (x - (a + 16))) = unat a + 16 + unat (x - (a + 16))" using r u by (subst unat_add_small) simp_all
      then show False using x r \<open>unat (x - (a + 16)) < 4\<close> by (simp add: in_user_unat)
    qed
    moreover have "x \<noteq> a + 20" using x r u by (auto simp: in_user_unat)
    ultimately show ?thesis by (simp add: m_def st32_other)
  qed
  have s: "store_dirinfos (a + 24) is (s\<lparr>mem := m\<rparr>) = Some s'" using "2.prems"(1) by (simp add: m_def Let_def split: if_splits)
  have "user_range (a + 24) (24 * k)" "listing_ok (int k) is" using "2.prems"(3) r u by (auto simp: user_range_def listing_ok_def n)
  then have "confined (s\<lparr>mem := m\<rparr>) s' \<and> disk s' = disk s"
    using "2.IH" [OF _ refl refl refl] s "2.prems"(1) by (auto simp: m_def split: if_splits)
  moreover have "confined s (s\<lparr>mem := m\<rparr>)" using m by (simp add: confined_def kside_def)
  ultimately show ?case using confined_trans by blast
qed simp

text \<open>A call that returns to the program and has changed nothing but its region and the devices.\<close>

definition harmless :: "kernel \<Rightarrow> sys_end \<times> 'd sys \<Rightarrow> bool" where
  "harmless s r \<longleftrightarrow> (\<exists>v. fst r = Returned v) \<and> confined s (fst (snd r)) \<and> (handle_ok s \<longrightarrow> handle_ok (fst (snd r)))"

lemma harmless_quiet: "quiet s (fst y) \<Longrightarrow> harmless s (Returned v, y)"
  by (simp add: harmless_def quiet_def handle_ok_def)

lemma harmless_disk:
  assumes "f_position (fs_file (disk s)) \<le> f_size (fs_file (disk s)) \<Longrightarrow> f_position (fs_file f) \<le> f_size (fs_file f)"
    and "confined s s'" and "disk s' = f"
  shows "harmless s (Returned v, s', d)"
  using assms by (simp add: harmless_def handle_ok_def)

lemma disk_console [simp]:
  "disk (fst (kputs E t x)) = disk (fst x)" "disk (fst (kcolor c x)) = disk (fst x)"
  by (simp_all add: kputs_def kcolor_def split: prod.split)

lemma sys_print_harmless: "sys_print E a x = Some r \<Longrightarrow> harmless (fst x) r"
  by (auto simp: sys_print_def harmless_def handle_ok_def split: if_splits bind_splits dest!: kserial_frame)

lemma sys_file_open_harmless:
  assumes "sys_file_open E a x = Some r"
  shows "harmless (fst x) r"
proof -
  obtain s d where x: "x = (s, d)" by (meson surj_pair)
  define s1 where "s1 = (if current_file s then s\<lparr>disk := fat32_close True (disk s), current_file := False\<rparr> else s)"
  have s1: "confined s s1" "f_position (fs_file (disk s1)) \<le> f_size (fs_file (disk s1)) \<longleftrightarrow> f_position (fs_file (disk s)) \<le> f_size (fs_file (disk s))"
    by (simp_all add: s1_def)
  show ?thesis
  proof (cases "a = 0")
    case True
    then show ?thesis using assms by (auto simp: sys_file_open_def x harmless_def)
  next
    case False
    then obtain nm b f d' where o: "fat32_open (io E) nm (disk s1) d = Some (b, f, d')"
        and r: "r = (Returned (if b then 0 else -1), s1\<lparr>disk := f, current_file := b\<rparr>, d')"
      using assms by (auto simp: sys_file_open_def x s1_def Let_def split: bind_splits)
    show ?thesis unfolding r x fst_conv
      by (rule harmless_disk) (use s1 fat32_open_bounded [OF o] in simp_all)
  qed
qed

lemma sys_file_close_harmless: "harmless (fst x) (sys_file_close x)"
  by (auto simp: sys_file_close_def harmless_def handle_ok_def split: prod.split)

lemma sys_file_read_harmless:
  assumes "sys_file_read E a n x = Some r" and "user_range a (unat n)" and "handle_ok (fst x)"
    and "unat (f_position (fs_file (disk (fst x)))) + unat n < 2 ^ 32"
  shows "harmless (fst x) r"
proof -
  obtain s d where x: "x = (s, d)" by (meson surj_pair)
  show ?thesis
  proof (cases "a = 0 \<or> \<not> current_file s")
    case True
    then show ?thesis using assms(1) by (auto simp: sys_file_read_def x harmless_def)
  next
    case False
    then obtain k bs f d' s' where f: "fat32_read (io E) True n (disk s) d = Some (k, bs, f, d')"
        and c: "copy_out a bs (s\<lparr>disk := f\<rparr>) = Some s'" and r: "r = (Returned (if k < 0 then -1 else of_int k), s', d')"
      using assms(1) by (auto simp: sys_file_read_def x split: bind_splits)
    note b = fat32_read_bounded [OF f] and h = assms(3,4) [unfolded x fst_conv handle_ok_def]
    have s': "confined (s\<lparr>disk := f\<rparr>) s'" "disk s' = f" using copy_out_confined [OF c assms(2) b(1) [OF h]] by simp_all
    have "confined s (s\<lparr>disk := f\<rparr>)" by simp
    then have "confined s s'" using s'(1) by (rule confined_trans)
    then show ?thesis unfolding r x fst_conv using s'(2) b(2) [OF h] by (intro harmless_disk)
  qed
qed

lemma sys_list_dir_harmless:
  assumes "sys_list_dir E a n x = Some r" and "user_range a (24 * unat n)"
  shows "harmless (fst x) r"
proof -
  obtain s d where x: "x = (s, d)" by (meson surj_pair)
  show ?thesis
  proof (cases "a = 0 \<or> n = 0")
    case True
    then show ?thesis using assms(1) by (auto simp: sys_list_dir_def x harmless_def)
  next
    case False
    then obtain k "is" f d' s' where f: "fat32_list_dir (io E) a (sint n) (disk s) d = Some (k, is, f, d')"
        and c: "store_dirinfos a is (s\<lparr>disk := f\<rparr>) = Some s'" and r: "r = (Returned (if k < 0 then -1 else of_int k), s', d')"
      using assms(1) by (auto simp: sys_list_dir_def x split: bind_splits)
    note l = fat32_list_dir_listing [OF f]
    have "max 0 (sint n) \<le> int (unat n)" by (simp add: sint_uint signed_take_bit_int_less_eq_self_iff order_trans [OF _ uint_nonnegative])
    then have "listing_ok (int (unat n)) is" using l(1) unfolding listing_ok_def by (meson order_trans)
    then have s': "confined (s\<lparr>disk := f\<rparr>) s'" "disk s' = f" using store_dirinfos_confined [OF c assms(2)] by simp_all
    have "confined s (s\<lparr>disk := f\<rparr>)" by simp
    then have "confined s s'" using s'(1) by (rule confined_trans)
    then show ?thesis unfolding r x fst_conv using s'(2) l(2) by (intro harmless_disk) simp_all
  qed
qed

lemma sys_get_args_harmless:
  assumes "sys_get_args i a n x = Some r" and "user_range a (unat n)"
  shows "harmless (fst x) r"
proof -
  obtain s d where x: "x = (s, d)" by (meson surj_pair)
  show ?thesis
  proof (cases "sint i = -1 \<or> a = 0 \<or> n = 0 \<or> sint i < 0 \<or> sint i \<ge> int (count (current_program_args s))")
    case True
    then show ?thesis using assms(1) by (auto simp: sys_get_args_def x harmless_def Let_def split: if_splits)
  next
    case False
    define bs where "bs = take (unat (n - 1)) (cstr (args (current_program_args s) ! nat (sint i))) @ [0]"
    obtain s' where c: "copy_out a bs s = Some s'" and r: "r = (Returned 0, s', d)"
      using assms(1) False by (auto simp: sys_get_args_def x bs_def Let_def split: bind_splits)
    have "n \<noteq> 0" using False by blast
    then have "0 < unat n" "unat (n - 1) = unat n - 1" by (simp_all add: unat_gt_0 unat_minus_one)
    then have "length bs \<le> unat n" by (auto simp: bs_def)
    then have "confined s s'" "disk s' = disk s" using copy_out_confined [OF c assms(2)] by simp_all
    then show ?thesis unfolding r x fst_conv by (intro harmless_disk)
  qed
qed

lemma syscall_harmless:
  assumes "syscall_handler E (eax (user (fst x))) (ebx (user (fst x))) (ecx (user (fst x))) (edx (user (fst x))) x = Some r"
    and "polite_call (fst x)" and "alone (fst x)" and "handle_ok (fst x)"
  shows "harmless (fst x) r"
proof -
  let ?u = "user (fst x)"
  have q: "quiet (fst x) (fst x)" using assms(3) by (simp add: quiet_def)
  have clear: "harmless (fst x) (sys_clear E x)"
    by (auto simp: sys_clear_def harmless_def handle_ok_def split: prod.split)
  have getc: "harmless (fst x) (Returned c, y)" if "getchar_loop E x = Some (c, y)" for c y
    using harmless_quiet [OF getchar_loop_quiet [OF that q, unfolded snd_conv]] .
  have slp: "harmless (fst x) (Returned 0, y)" if "sleep_ms E n x = Some y" for n y
    using that unfolding sleep_ms_def Let_def by (intro harmless_quiet sleep_loop_quiet [OF _ q])
  have same: "harmless (fst x) (Returned v, x)" for v using harmless_quiet [OF q] .
  have unknown: "harmless (fst x) (Returned (-1), kputs E t x)" for t by (simp add: harmless_def handle_ok_def)
  have "eax ?u \<noteq> 2" "eax ?u \<noteq> 9" using assms(2) by (simp_all add: polite_call_def Let_def)
  moreover have "harmless (fst x) r" if "sys_file_read E (ebx ?u) (ecx ?u) x = Some r" "eax ?u = 4" for r
    using sys_file_read_harmless [OF that(1)] assms(2,4) that(2) by (simp add: polite_call_def Let_def)
  moreover have "harmless (fst x) r" if "sys_list_dir E (ebx ?u) (ecx ?u) x = Some r" "eax ?u = 6" for r
    using sys_list_dir_harmless [OF that(1)] assms(2) that(2) by (simp add: polite_call_def Let_def)
  moreover have "harmless (fst x) r" if "sys_get_args (ebx ?u) (ecx ?u) (edx ?u) x = Some r" "eax ?u = 7" for r
    using sys_get_args_harmless [OF that(1)] assms(2) that(2) by (simp add: polite_call_def Let_def)
  ultimately show ?thesis using assms(1) unfolding syscall_handler_def
    by (auto split: if_split_asm bind_splits intro: sys_print_harmless sys_file_open_harmless sys_file_close_harmless clear getc slp same unknown)
qed

lemma trap_harmless:
  assumes "trap E x = Some y" and "polite_call (fst x)" and "alone (fst x)" and "handle_ok (fst x)"
  shows "confined (fst x) (fst y)" and "handle_ok (fst y)"
proof -
  obtain r where r: "syscall_handler E (eax (user (fst x))) (ebx (user (fst x))) (ecx (user (fst x))) (edx (user (fst x))) x = Some r"
    using assms(1) by (auto simp: trap_def isr_handler_def Let_def split: bind_splits)
  have h: "harmless (fst x) r" by (rule syscall_harmless [OF r assms(2-4)])
  then obtain v s d where v: "r = (Returned v, s, d)" by (cases r) (auto simp: harmless_def)
  then have "y = (s\<lparr>user := (user s)\<lparr>eax := v\<rparr>\<rparr>, d)" using assms(1) r by (simp add: trap_def isr_handler_def Let_def)
  then show "confined (fst x) (fst y)" "handle_ok (fst y)" using h v assms(4) by (simp_all add: harmless_def handle_ok_def)
qed

subsection \<open>Runs of a program\<close>

text \<open>
  What happens while a program runs and neither starts another one nor ends: interrupts, stores to
  pages that are open to ring 3, computations in registers, and polite calls.
\<close>

inductive program_step :: "'d env \<Rightarrow> 'd sys \<Rightarrow> 'd sys \<Rightarrow> bool" for E where
  p_irq: "next_irq E d = Some (n, d') \<Longrightarrow> 32 \<le> n \<Longrightarrow> n < 48 \<Longrightarrow> program_step E (s, d) (irq_handler E n (s, d'))"
| p_store: "user_page s a \<Longrightarrow> program_step E (s, d) (s\<lparr>mem := (mem s)(paging_get_phys a s := v)\<rparr>, d)"
| p_regs: "program_step E (s, d) (s\<lparr>user := r\<rparr>, d)"
| p_call: "polite_call s \<Longrightarrow> trap E (s, d) = Some x \<Longrightarrow> program_step E (s, d) x"

definition ring3_ok :: "kernel \<Rightarrow> bool" where
  "ring3_ok s \<longleftrightarrow> fenced s \<and> alone s \<and> handle_ok s"

lemma program_step_kstep:
  assumes "program_step E x y" and "0 < exec_depth (fst x)" and "ring3_ok (fst x)"
  shows "kstep E x y"
  using assms(1)
proof cases
  case (p_store s a d v)
  then have "described (paging_get_phys a s) 1"
    using fenced_store [of s a] assms(3) by (simp add: ring3_ok_def described_def in_user_unat)
  then show ?thesis using p_store assms(2) by (auto intro: kstep.intros)
qed (use assms(2) in \<open>auto intro: kstep.intros\<close>)

lemma program_step_confined:
  assumes "program_step E x y" and "ring3_ok (fst x)"
  shows "confined (fst x) (fst y)" and "ring3_ok (fst y)"
proof -
  have "confined (fst x) (fst y) \<and> handle_ok (fst y)"
    using assms(1)
  proof cases
    case (p_irq d n d' s)
    then show ?thesis using irq_handler_confined [of "(s, d')" E n] assms(2) by (simp add: ring3_ok_def handle_ok_def)
  next
    case (p_store s a d v)
    then show ?thesis using assms(2) fenced_store [of s a] by (auto simp: ring3_ok_def confined_def kside_def handle_ok_def)
  next
    case (p_regs s d r)
    then show ?thesis using assms(2) by (simp add: ring3_ok_def handle_ok_def)
  next
    case (p_call s d)
    then show ?thesis using trap_harmless [OF p_call(3)] assms(2) by (simp add: ring3_ok_def)
  qed
  then show "confined (fst x) (fst y)" "ring3_ok (fst y)"
    using assms(2) confined_fenced confined_alone by (auto simp: ring3_ok_def)
qed

lemma program_run_confined:
  assumes "(program_step E)\<^sup>*\<^sup>* x y" and "ring3_ok (fst x)"
  shows "confined (fst x) (fst y) \<and> ring3_ok (fst y)"
  using assms
proof induction
  case (step y z)
  then show ?case using program_step_confined [of E y z] confined_trans by blast
qed simp

subsection \<open>Starting a program\<close>

text \<open>
  Where the buffers of the exec call are: within the first 16 MiB, apart from each other, from the
  program region and from the page tables.
\<close>

definition apart_from :: "u32 \<Rightarrow> nat \<Rightarrow> u32 \<Rightarrow> nat \<Rightarrow> bool" where
  "apart_from a n b k \<longleftrightarrow> unat a + n \<le> unat b \<or> unat b + k \<le> unat a"

definition within :: "u32 \<Rightarrow> nat \<Rightarrow> u32 \<Rightarrow> bool" where
  "within a n x \<longleftrightarrow> unat a \<le> unat x \<and> unat x < unat a + n"

definition exec_layout :: "'d env \<Rightarrow> kernel \<Rightarrow> bool" where
  "exec_layout E s \<longleftrightarrow> unat (saved_program E) + 0x101000 \<le> 0x1000000 \<and> unat (exec_buffer E) + 0x10000 \<le> 0x1000000
     \<and> apart_from (saved_program E) 0x101000 0x200000 0x101000 \<and> apart_from (exec_buffer E) 0x10000 0x200000 0x101000
     \<and> apart_from (exec_buffer E) 0x10000 (saved_program E) 0x101000
     \<and> (\<forall>a. table_addr s a \<longrightarrow> \<not> within (saved_program E) 0x101000 a \<and> \<not> within (exec_buffer E) 0x10000 a)"

text \<open>A file in a buffer that is a loadable program for the program region.\<close>

definition program_ok :: "memory \<Rightarrow> u32 \<Rightarrow> bool" where
  "program_ok m elf \<longleftrightarrow> elf_validate_header (ehdr_of m elf) = 0 \<and> (\<exists>sz \<le> 0x10000. loadable m elf sz)
     \<and> (\<forall>p \<in> set (loads m elf). \<forall>a. covers p a \<longrightarrow> in_user a)"

lemma in_user_within: "in_user a \<longleftrightarrow> within 0x200000 0x101000 a"
  by (simp add: in_user_unat within_def)

lemma store_bytes_within: "unat a + n \<le> 0x1000000 \<Longrightarrow> length bs \<le> n \<Longrightarrow> \<not> within a n x \<Longrightarrow> store_bytes m a bs x = m x"
  by (subst store_bytes_apply) (auto simp: within_def)

lemma exec_fetch_frame:
  assumes "exec_fetch E a x = Some (err, y)" and "handle_ok (fst x)"
  shows "\<exists>as f bs. fst y = (fst x)\<lparr>current_program_args := as, disk := f, mem := store_bytes (mem (fst x)) (exec_buffer E) bs\<rparr>
    \<and> length bs \<le> 0x10000" and "handle_ok (fst y)"
proof -
  obtain s d where x: "x = (s, d)" by (meson surj_pair)
  let ?G = "(\<exists>as f bs. fst y = s\<lparr>current_program_args := as, disk := f, mem := store_bytes (mem s) (exec_buffer E) bs\<rparr> \<and> length bs \<le> 0x10000)
    \<and> handle_ok (fst y)"
  have mk: ?G if "fst y = s\<lparr>current_program_args := as, disk := f, mem := store_bytes (mem s) (exec_buffer E) bs\<rparr>"
    "length bs \<le> 0x10000" "f_position (fs_file f) \<le> f_size (fs_file f)" for as f bs
    using that by (auto simp: handle_ok_def)
  have same: "s = s\<lparr>current_program_args := current_program_args s, disk := disk s, mem := store_bytes (mem s) (exec_buffer E) []\<rparr>" by simp
  have h: "f_position (fs_file (disk s)) \<le> f_size (fs_file (disk s))" using assms(2) by (simp add: x handle_ok_def)
  have ?G
  proof (cases "a = 0")
    case True
    then have "fst y = s" using assms(1) by (auto simp: exec_fetch_def x)
    then show ?thesis using mk [where as = "current_program_args s" and f = "disk s" and bs = "[]"] h same by simp
  next
    case False
    then obtain cmd where cmd: "read_str (mem s) a = Some cmd" using assms(1) by (auto simp: exec_fetch_def x split: bind_splits)
    obtain nm as where p: "parse_command_line cmd (replicate 64 0) (current_program_args s) = (nm, as)" by (meson surj_pair)
    obtain b f d1 where o: "fat32_open (io E) (map to_upper (take 11 (cstr nm))) (disk s) d = Some (b, f, d1)"
      using assms(1) False cmd p by (auto simp: exec_fetch_def x Let_def split: bind_splits)
    note fetch = assms(1) \<open>a \<noteq> 0\<close> cmd p o
    have f: "f_position (fs_file f) \<le> f_size (fs_file f)" by (rule fat32_open_bounded [OF o h])
    show ?thesis
    proof (cases "b \<and> \<not> f_size (fs_file f) > 65536")
      case True
      then obtain n bs f' d2 where r: "fat32_read (io E) True (f_size (fs_file f)) f d1 = Some (n, bs, f', d2)"
        and y: "fst y = s\<lparr>current_program_args := as, disk := fat32_close True f', mem := store_bytes (mem s) (exec_buffer E) bs\<rparr>"
        using fetch by (auto simp: exec_fetch_def x Let_def split: bind_splits if_split_asm)
      have sz: "unat (f_size (fs_file f)) \<le> 65536" using True by (simp add: not_less word_le_nat_alt)
      moreover have "unat (f_position (fs_file f)) \<le> unat (f_size (fs_file f))" using f by (simp add: word_le_nat_alt)
      ultimately have "length bs \<le> unat (f_size (fs_file f))" "f_position (fs_file f') \<le> f_size (fs_file f')"
        using fat32_read_bounded [OF r f] by simp_all
      then show ?thesis using mk [OF y] sz by simp
    next
      case False
      then have "fst y = s\<lparr>current_program_args := as, disk := f\<rparr> \<or> fst y = s\<lparr>current_program_args := as, disk := fat32_close True f\<rparr>"
        using fetch by (auto simp: exec_fetch_def x Let_def split: if_split_asm)
      then show ?thesis using f mk [where as = as and bs = "[]"] by auto
    qed
  qed
  then show "\<exists>as f bs. fst y = (fst x)\<lparr>current_program_args := as, disk := f, mem := store_bytes (mem (fst x)) (exec_buffer E) bs\<rparr>
    \<and> length bs \<le> 0x10000" "handle_ok (fst y)" by (simp_all add: x)
qed

lemma program_described:
  assumes "program_ok m elf"
  shows "list_all (\<lambda>p. seg_len p = 0 \<or> described (p_vaddr p) (seg_len p)) (loads m elf)"
proof -
  have "seg_len p = 0 \<or> described (p_vaddr p) (seg_len p)" if p: "p \<in> set (loads m elf)" for p
  proof (cases "seg_len p = 0")
    case False
    then have "in_user (p_vaddr p)" using assms p by (auto simp: program_ok_def covers_def)
    moreover have "unat (p_vaddr p) + seg_len p \<le> 0x1000000" using assms p by (auto simp: program_ok_def loadable_def list_all_iff)
    ultimately show ?thesis by (simp add: described_def in_user_unat)
  qed simp
  then show ?thesis by (simp add: list_all_iff)
qed

lemma loaded_image:
  assumes ok: "program_ok m0 elf" and eq: "\<And>a. \<not> in_user a \<Longrightarrow> within elf 0x10000 a \<Longrightarrow> m a = m0 a"
    and elf: "unat elf + 0x10000 \<le> 0x1000000" "apart_from elf 0x10000 0x200000 0x101000"
  shows "ehdr_of m elf = ehdr_of m0 elf"
    and "load_segments elf (elf + e_phoff (ehdr_of m0 elf)) 0 m = Some (fold (overlay m0 elf) (phdrs m0 elf) m)"
    and "\<not> in_user a \<Longrightarrow> fold (overlay m0 elf) (phdrs m0 elf) m a = m a"
    and "ehdr_of (fold (overlay m0 elf) (phdrs m0 elf) m) elf = ehdr_of m0 elf"
    and "loads m elf = loads m0 elf"
proof -
  obtain sz where sz: "sz \<le> 0x10000" "loadable m0 elf sz" using ok by (auto simp: program_ok_def)
  have buf: "within elf 0x10000 (elf + of_nat k)" "\<not> in_user (elf + of_nat k)" if "k < 0x10000" for k
  proof -
    have "unat (elf + of_nat k) = unat elf + k" using that elf(1) by (intro unat_add_le [of elf "0x10000"]) simp_all
    then show "within elf 0x10000 (elf + of_nat k)" "\<not> in_user (elf + of_nat k)"
      using that elf(2) by (auto simp: within_def in_user_unat apart_from_def)
  qed
  have ag: "agree m' m0 elf k" if "\<And>a. \<not> in_user a \<Longrightarrow> within elf 0x10000 a \<Longrightarrow> m' a = m0 a" "k \<le> 0x10000" for m' k
    using that buf by (auto simp: agree_def)
  show "ehdr_of m elf = ehdr_of m0 elf" by (rule ehdr_of_cong, rule ag [OF eq]) simp_all
  show "load_segments elf (elf + e_phoff (ehdr_of m0 elf)) 0 m = Some (fold (overlay m0 elf) (phdrs m0 elf) m)"
    using load_segments_overlay [OF ag [OF eq sz(1)] sz(2), of 0] by simp
  have fr: "fold (overlay m0 elf) (phdrs m0 elf) m a = m a" if "\<not> in_user a" for a
  proof -
    have "find (\<lambda>p. covers p a) (rev (loads m0 elf)) = None"
      using ok that by (auto simp: program_ok_def find_None_iff)
    then show ?thesis by (simp add: fold_overlay loads_def)
  qed
  then show "\<not> in_user a \<Longrightarrow> fold (overlay m0 elf) (phdrs m0 elf) m a = m a" .
  show "ehdr_of (fold (overlay m0 elf) (phdrs m0 elf) m) elf = ehdr_of m0 elf"
    by (rule ehdr_of_cong) (rule ag, simp_all add: fr eq)
  let ?h = "ehdr_of m0 elf"
  have h: "ehdr_of m elf = ?h" by (rule ehdr_of_cong, rule ag [OF eq]) simp_all
  have "phdr_of m (elf + e_phoff ?h + 32 * of_nat i) = phdr_of m0 (elf + e_phoff ?h + 32 * of_nat i)" if i: "i < unat (e_phnum ?h)" for i
  proof -
    have b: "unat (e_phoff ?h) + 32 * unat (e_phnum ?h) \<le> sz" using sz(2) by (simp add: loadable_def)
    have w: "unat (32 * of_nat i :: u32) = 32 * i" using i b sz(1) unat_of_nat_u32 [of "32 * i"] by simp
    then have "unat (e_phoff ?h + 32 * of_nat i) = unat (e_phoff ?h) + 32 * i" using i b sz(1) by (subst unat_add_small) simp_all
    then show ?thesis using i b phdr_of_cong [OF agree_sub [OF ag [OF eq sz(1)], of "e_phoff ?h + 32 * of_nat i" 32]] by (simp add: add.assoc)
  qed
  then have "phdrs m elf = phdrs m0 elf" unfolding phdrs_def h by (intro map_cong) simp_all
  then show "loads m elf = loads m0 elf" by (simp add: loads_def)
qed

text \<open>The state in which a program starts that a program with state \<open>s\<close> has asked for, with its file in the memory of \<open>s0\<close>.\<close>

definition started :: "'d env \<Rightarrow> kernel \<Rightarrow> kernel \<Rightarrow> kernel \<Rightarrow> bool" where
  "started E s s0 s1 \<longleftrightarrow>
     user s1 = (user s)\<lparr>eip := e_entry (ehdr_of (mem s0) (exec_buffer E)), esp := 0x301000, interrupts := True\<rparr>
     \<and> exec_depth s1 = exec_depth s + 1
     \<and> exec_stack s1 = (exec_stack s)[exec_depth s :=
          \<lparr>jb_caller = In_Program (user s), jb_esp0 = tss_esp0 (tss (segments s)) - exec_stack_use E\<rparr>]
     \<and> segments s1 = tss_set_kernel_stack (tss_esp0 (tss (segments s)) - exec_stack_use E) (segments s)
     \<and> ring3_ok s1 \<and> (\<forall>a. user_page s1 a \<longleftrightarrow> in_user a) \<and> (\<forall>a. table_addr s1 a \<longleftrightarrow> table_addr s a)
     \<and> (\<forall>k < 0x101000. mem s1 (saved_program E + of_nat k) = mem s (0x200000 + of_nat k))
     \<and> (\<forall>a. in_user a \<longrightarrow> mem s1 a = fold (overlay (mem s0) (exec_buffer E)) (phdrs (mem s0) (exec_buffer E)) (mem s) a)"

lemma saved_copy:
  assumes "exec_layout E s"
  shows "memcpy_loop m (saved_program E) 0x200000 0x101000 a =
      (if within (saved_program E) 0x101000 a then m (0x200000 + of_nat (unat a - unat (saved_program E))) else m a)"
    and "memcpy_loop m 0x200000 (saved_program E) 0x101000 a =
      (if in_user a then m (saved_program E + of_nat (unat a - 0x200000)) else m a)"
proof -
  have b: "unat (saved_program E) + 0x101000 \<le> 2 ^ 32" "unat (0x200000 :: u32) + 0x101000 \<le> 2 ^ 32"
    and ap: "unat (saved_program E) + 0x101000 \<le> unat (0x200000 :: u32) \<or> unat (0x200000 :: u32) + 0x101000 \<le> unat (saved_program E)"
    using assms by (auto simp: exec_layout_def apart_from_def)
  show "memcpy_loop m (saved_program E) 0x200000 0x101000 a =
      (if within (saved_program E) 0x101000 a then m (0x200000 + of_nat (unat a - unat (saved_program E))) else m a)"
    using memcpy_loop_apply [OF b ap] by (simp add: within_def)
  show "memcpy_loop m 0x200000 (saved_program E) 0x101000 a =
      (if in_user a then m (saved_program E + of_nat (unat a - 0x200000)) else m a)"
    using memcpy_loop_apply [OF b(2,1) ap [THEN disj_commute [THEN iffD1]]] by (simp add: in_user_unat)
qed

lemma console_result:
  "\<exists>v d'. kputs E t (s, d) = (s\<lparr>screen := v\<rparr>, d')" "\<exists>v d'. kputhex E n (s, d) = (s\<lparr>screen := v\<rparr>, d')"
  by (simp_all add: kputs_def kputhex_def split: prod.split) blast+

lemma elf_load_and_exec_starts:
  assumes prog: "program_ok m0 elf" and eq: "\<And>a. within elf 0x10000 a \<Longrightarrow> mem s a = m0 a"
    and elf: "unat elf + 0x10000 \<le> 0x1000000" "apart_from elf 0x10000 0x200000 0x101000" and depth: "exec_depth s < 8"
    and fen: "fenced s"
  shows "\<exists>v d'. elf_load_and_exec E (In_Program r) elf (s, d) = Some (True,
     (map_user_pages (s\<lparr>mem := fold (overlay m0 elf) (phdrs m0 elf) (mem s), screen := v\<rparr>))
       \<lparr>exec_depth := exec_depth s + 1,
        exec_stack := (exec_stack s)[exec_depth s := \<lparr>jb_caller = In_Program r, jb_esp0 = tss_esp0 (tss (segments s)) - exec_stack_use E\<rparr>],
        segments := tss_set_kernel_stack (tss_esp0 (tss (segments s)) - exec_stack_use E) (segments s),
        user := (user s)\<lparr>eip := e_entry (ehdr_of m0 elf), esp := 0x301000, interrupts := True\<rparr>\<rparr>, d')"
proof -
  note img = loaded_image [OF prog, of "mem s", OF eq elf]
  have valid: "elf_validate_header (ehdr_of m0 elf) = 0" using prog by (simp add: program_ok_def)
  have guard: "list_all (\<lambda>p. seg_len p = 0 \<or> described (p_vaddr p) (seg_len p)) (loads (mem s) elf)"
    using program_described [OF prog] img(5) by simp
  let ?m = "fold (overlay m0 elf) (phdrs m0 elf) (mem s)"
  obtain v1 d1 where 1: "kputs E (str ''Executing binary at '') (s\<lparr>mem := ?m\<rparr>, d) = (s\<lparr>mem := ?m\<rparr>\<lparr>screen := v1\<rparr>, d1)"
    using console_result(1) [of E "str ''Executing binary at ''" "s\<lparr>mem := ?m\<rparr>" d] by blast
  obtain v2 d2 where 2: "kputhex E (e_entry (ehdr_of m0 elf)) (s\<lparr>mem := ?m, screen := v1\<rparr>, d1) = (s\<lparr>mem := ?m, screen := v1\<rparr>\<lparr>screen := v2\<rparr>, d2)"
    using console_result(2) [of E "e_entry (ehdr_of m0 elf)" "s\<lparr>mem := ?m, screen := v1\<rparr>" d1] by blast
  obtain v d' where 3: "kputs E [10] (s\<lparr>mem := ?m, screen := v2\<rparr>, d2) = (s\<lparr>mem := ?m, screen := v2\<rparr>\<lparr>screen := v\<rparr>, d')"
    using console_result(1) [of E "[10]" "s\<lparr>mem := ?m, screen := v2\<rparr>" d2] by blast
  have c: "kputs E [10] (kputhex E (e_entry (ehdr_of m0 elf)) (kputs E (str ''Executing binary at '') (s\<lparr>mem := ?m\<rparr>, d)))
      = (s\<lparr>mem := ?m, screen := v\<rparr>, d')" using 1 2 3 by simp
  have v: "kview (map_user_pages t) = kview t" for t :: kernel by (rule kview_frame)
  then have "exec_depth (map_user_pages t) = exec_depth t" "exec_stack (map_user_pages t) = exec_stack t"
    "segments (map_user_pages t) = segments t" "user (map_user_pages t) = user t" for t :: kernel
    by (simp_all add: kview_def)
  then show ?thesis using depth img(1,2,4) valid guard c
    by (simp add: elf_load_and_exec_def Let_def) blast
qed

lemma trap_exec_starts:
  assumes "eax (user s) = 9" and "exec_fetch E (ebx (user s)) (s, d) = Some (None, s0, d0)"
    and "elf_load_and_exec E (In_Program (user s0)) (exec_buffer E) (s0\<lparr>mem := memcpy_loop (mem s0) (saved_program E) 0x200000 0x101000\<rparr>, d0) = Some (True, y)"
  shows "trap E (s, d) = Some y"
  using assms by (cases y) (simp add: trap_def isr_handler_def syscall_handler_def sys_exec_def Let_def)

lemma map_user_pages_state:
  fixes s :: kernel
  shows "proc_table (map_user_pages s) = proc_table s" and "current_proc (map_user_pages s) = current_proc s"
    and "disk (map_user_pages s) = disk s"
proof -
  have m: "proc_table (paging_map v p f s) = proc_table s \<and> current_proc (paging_map v p f s) = current_proc s" for v p f and s :: kernel
    by (auto simp: paging_map_def paging_table_def set_pde_def pmm_alloc_def Let_def split: option.split prod.split)
  have "proc_table (fold (\<lambda>a. paging_map a a 7) as s) = proc_table s \<and> current_proc (fold (\<lambda>a. paging_map a a 7) as s) = current_proc s"
    for as and s :: kernel
    by (induction as arbitrary: s) (simp_all add: m)
  then show "proc_table (map_user_pages s) = proc_table s" "current_proc (map_user_pages s) = current_proc s"
    by (simp_all add: map_user_pages_fold)
  show "disk (map_user_pages s) = disk s" using kview_frame(3) [of s] by (simp add: kview_def)
qed

text \<open>The memory when the file has been read, when the caller is saved, and when the program is loaded.\<close>

lemma exec_memory:
  assumes lay: "exec_layout E s" and fs: "fenced s" and prog: "program_ok (mem s0) (exec_buffer E)"
    and s0: "kernel_page_directory s0 = kernel_page_directory s" "bitmap s0 = bitmap s"
    and m0: "\<And>a. \<not> within (exec_buffer E) 0x10000 a \<Longrightarrow> mem s0 a = mem s a"
  defines "m1 \<equiv> memcpy_loop (mem s0) (saved_program E) 0x200000 0x101000"
  defines "m2 \<equiv> fold (overlay (mem s0) (exec_buffer E)) (phdrs (mem s0) (exec_buffer E)) m1"
  shows "within (exec_buffer E) 0x10000 a \<Longrightarrow> m1 a = mem s0 a" and "fenced (s0\<lparr>mem := m1\<rparr>)"
    and "fenced (s0\<lparr>mem := m2, screen := v\<rparr>)" and "table_addr (s0\<lparr>mem := m2, screen := v\<rparr>) a = table_addr s a"
    and "k < 0x101000 \<Longrightarrow> m2 (saved_program E + of_nat k) = mem s (0x200000 + of_nat k) \<and> \<not> table_addr s (saved_program E + of_nat k)"
    and "in_user a \<Longrightarrow> m2 a = fold (overlay (mem s0) (exec_buffer E)) (phdrs (mem s0) (exec_buffer E)) (mem s) a \<and> \<not> table_addr s a"
proof -
  have L: "unat (exec_buffer E) + 0x10000 \<le> 0x1000000" "apart_from (exec_buffer E) 0x10000 0x200000 0x101000"
    "apart_from (exec_buffer E) 0x10000 (saved_program E) 0x101000" "apart_from (saved_program E) 0x101000 0x200000 0x101000"
    "unat (saved_program E) + 0x101000 \<le> 0x1000000"
    and T: "\<And>a. table_addr s a \<Longrightarrow> \<not> within (saved_program E) 0x101000 a \<and> \<not> within (exec_buffer E) 0x10000 a"
    using lay by (simp_all add: exec_layout_def)
  have m1: "m1 a = (if within (saved_program E) 0x101000 a then mem s0 (0x200000 + of_nat (unat a - unat (saved_program E))) else mem s0 a)" for a
    unfolding m1_def by (rule saved_copy(1) [OF lay])
  show eq: "m1 a = mem s0 a" if "within (exec_buffer E) 0x10000 a" for a
    using that L(3) by (auto simp: m1 within_def apart_from_def)
  have img: "m2 a = m1 a" if "\<not> in_user a" for a
    unfolding m2_def by (rule loaded_image(3) [OF prog _ L(1,2) that]) (rule eq)
  have tu: "\<not> in_user a" if "table_addr s a" for a using that fs unfolding fenced_def by blast
  have t1: "m1 a = mem s a" if "table_addr s a" for a using T [OF that] m0 m1 by simp
  have t2: "m2 a = mem s a" if "table_addr s a" for a using t1 [OF that] img [OF tu [OF that]] by simp
  show "fenced (s0\<lparr>mem := m1\<rparr>)" by (rule fenced_cong(1) [OF fs]) (simp_all add: t1 s0)
  show "fenced (s0\<lparr>mem := m2, screen := v\<rparr>)" by (rule fenced_cong(1) [OF fs]) (simp_all add: t2 s0)
  show "table_addr (s0\<lparr>mem := m2, screen := v\<rparr>) a = table_addr s a" by (rule fenced_cong(2) [OF fs]) (simp_all add: t2 s0)
  have u: "\<not> within (exec_buffer E) 0x10000 a" "\<not> within (saved_program E) 0x101000 a" if "in_user a" for a
    using that L by (auto simp: within_def apart_from_def in_user_unat)
  show "m2 (saved_program E + of_nat k) = mem s (0x200000 + of_nat k) \<and> \<not> table_addr s (saved_program E + of_nat k)" if k: "k < 0x101000"
  proof -
    have un: "unat (saved_program E + of_nat k) = unat (saved_program E) + k" "unat (0x200000 + of_nat k :: u32) = 0x200000 + k"
      using k L(5) unat_add_le [of "saved_program E" "0x101000" k] unat_add_le [of "0x200000" "0x101000" k] by simp_all
    then have "in_user (0x200000 + of_nat k)" "within (saved_program E) 0x101000 (saved_program E + of_nat k)"
      using k by (simp_all add: in_user_unat within_def)
    then show ?thesis using m0 [OF u(1)] u(2) img T un(1) m1 by (metis add_diff_cancel_left')
  qed
  show "m2 a = fold (overlay (mem s0) (exec_buffer E)) (phdrs (mem s0) (exec_buffer E)) (mem s) a \<and> \<not> table_addr s a" if "in_user a"
    using u [OF that] tu m0 m1 that by (auto simp: m2_def fold_overlay split: option.split)
qed

lemma exec_starts:
  assumes fetch: "exec_fetch E (ebx (user s)) (s, d) = Some (None, s0, d0)" and num: "eax (user s) = 9"
    and prog: "program_ok (mem s0) (exec_buffer E)" and depth: "exec_depth s < 8" and ok: "ring3_ok s" and lay: "exec_layout E s"
  shows "\<exists>s1 d1. trap E (s, d) = Some (s1, d1) \<and> started E s s0 s1"
proof -
  obtain as f bs where s0: "s0 = s\<lparr>current_program_args := as, disk := f, mem := store_bytes (mem s) (exec_buffer E) bs\<rparr>"
      and len: "length bs \<le> 0x10000" and h0: "handle_ok s0"
    using exec_fetch_frame [OF fetch] ok by (auto simp: ring3_ok_def)
  have L: "unat (exec_buffer E) + 0x10000 \<le> 0x1000000" "apart_from (exec_buffer E) 0x10000 0x200000 0x101000"
    using lay by (simp_all add: exec_layout_def)
  have fs: "fenced s" and al: "alone s" using ok by (simp_all add: ring3_ok_def)
  have m0: "mem s0 a = mem s a" if "\<not> within (exec_buffer E) 0x10000 a" for a
    using store_bytes_within [OF L(1) len that] by (simp add: s0)
  have view: "kernel_page_directory s0 = kernel_page_directory s" "bitmap s0 = bitmap s" by (simp_all add: s0)
  note M = exec_memory [OF lay fs prog view m0]
  define m1 where "m1 = memcpy_loop (mem s0) (saved_program E) 0x200000 0x101000"
  define m2 where "m2 = fold (overlay (mem s0) (exec_buffer E)) (phdrs (mem s0) (exec_buffer E)) m1"
  note M = M [folded m1_def, folded m2_def]
  have "mem (s0\<lparr>mem := m1\<rparr>) a = mem s0 a" if "within (exec_buffer E) 0x10000 a" for a using M(1) that by simp
  from elf_load_and_exec_starts [OF prog this L _ M(2), of E "user s" d0, simplified, folded m2_def] depth
  obtain v d' where el: "elf_load_and_exec E (In_Program (user s)) (exec_buffer E) (s0\<lparr>mem := m1\<rparr>, d0) = Some (True,
     (map_user_pages (s0\<lparr>mem := m2, screen := v\<rparr>))
       \<lparr>exec_depth := exec_depth s + 1,
        exec_stack := (exec_stack s)[exec_depth s := \<lparr>jb_caller = In_Program (user s), jb_esp0 = tss_esp0 (tss (segments s)) - exec_stack_use E\<rparr>],
        segments := tss_set_kernel_stack (tss_esp0 (tss (segments s)) - exec_stack_use E) (segments s),
        user := (user s)\<lparr>eip := e_entry (ehdr_of (mem s0) (exec_buffer E)), esp := 0x301000, interrupts := True\<rparr>\<rparr>, d')" (is "_ = Some (True, ?s1, d')")
    by (auto simp: s0)
  have tr: "trap E (s, d) = Some (?s1, d')"
    by (rule trap_exec_starts [OF num fetch]) (use el in \<open>simp add: m1_def s0\<close>)
  let ?t = "s0\<lparr>mem := m2, screen := v\<rparr>"
  note mu = map_user_pages_fenced [OF M(3) [of v]]
  have mm: "mem ?s1 a = m2 a" if "\<not> table_addr s a" for a using mu(4) [of a] M(4) that by simp
  have "mem ?s1 a = mem (map_user_pages ?t) a" for a by simp
  note c = fenced_cong [OF mu(1), of ?s1, simplified]
  have "ring3_ok ?s1" using c(1) al h0 unfolding ring3_ok_def by (simp add: alone_def handle_ok_def map_user_pages_state s0 split: option.splits)
  then have "started E s s0 ?s1"
    unfolding started_def using mm M(4-6) c(2,3) mu(2,3) by simp
  with tr show ?thesis by blast
qed

subsection \<open>The end of a program\<close>

lemma exit_console:
  "\<exists>v d'. kputs E (str '']'' @ [10]) (kputhex E n (kputs E ([10] @ str ''[Program exited with code: '') (kcolor VGA_COLOR_LIGHT_CYAN (s, d)))) = (s\<lparr>screen := v\<rparr>, d')"
proof -
  obtain v0 where 0: "kcolor VGA_COLOR_LIGHT_CYAN (s, d) = (s\<lparr>screen := v0\<rparr>, d)" by (simp add: kcolor_def)
  obtain v1 d1 where 1: "kputs E ([10] @ str ''[Program exited with code: '') (s\<lparr>screen := v0\<rparr>, d) = (s\<lparr>screen := v0\<rparr>\<lparr>screen := v1\<rparr>, d1)"
    using console_result(1) [of E "[10] @ str ''[Program exited with code: ''" "s\<lparr>screen := v0\<rparr>" d] by blast
  obtain v2 d2 where 2: "kputhex E n (s\<lparr>screen := v1\<rparr>, d1) = (s\<lparr>screen := v1\<rparr>\<lparr>screen := v2\<rparr>, d2)"
    using console_result(2) [of E n "s\<lparr>screen := v1\<rparr>" d1] by blast
  obtain v3 d3 where 3: "kputs E (str '']'' @ [10]) (s\<lparr>screen := v2\<rparr>, d2) = (s\<lparr>screen := v2\<rparr>\<lparr>screen := v3\<rparr>, d3)"
    using console_result(1) [of E "str '']'' @ [10]" "s\<lparr>screen := v2\<rparr>" d2] by blast
  have "kputs E (str '']'' @ [10]) (kputhex E n (kputs E ([10] @ str ''[Program exited with code: '') (kcolor VGA_COLOR_LIGHT_CYAN (s, d)))) = (s\<lparr>screen := v3\<rparr>, d3)"
    using 0 1 2 3 by simp
  then show ?thesis by blast
qed

lemma trap_exit:
  assumes "eax (user s) = 2" and "exec_depth s = Suc n" and "exec_stack s ! n = \<lparr>jb_caller = In_Program r, jb_esp0 = e\<rparr>"
  shows "\<exists>v d'. trap E (s, d) = Some (s\<lparr>mem := memcpy_loop (mem s) 0x200000 (saved_program E) 0x101000, screen := v,
    exec_depth := n, segments := tss_set_kernel_stack e (segments s), user := r\<lparr>eax := 0\<rparr>\<rparr>, d')"
proof -
  obtain v d' where c: "kputs E (str '']'' @ [10]) (kputhex E (ebx (user s)) (kputs E ([10] @ str ''[Program exited with code: '') (kcolor VGA_COLOR_LIGHT_CYAN (s, d))))
      = (s\<lparr>screen := v\<rparr>, d')" using exit_console [of E "ebx (user s)" s d] by blast
  have "sys_exit E (ebx (user s)) (s, d) = (Exited (In_Program r), s\<lparr>screen := v, exec_depth := n, segments := tss_set_kernel_stack e (segments s)\<rparr>, d')"
    using assms(2,3) by (simp add: sys_exit_def Let_def c [simplified] elf_returned_def)
  then have "trap E (s, d) = Some (s\<lparr>screen := v, exec_depth := n, segments := tss_set_kernel_stack e (segments s),
      mem := memcpy_loop (mem s) 0x200000 (saved_program E) 0x101000, user := r\<lparr>eax := 0\<rparr>\<rparr>, d')" (is "_ = Some (?l, d')")
    using assms(1) by (simp add: trap_def isr_handler_def syscall_handler_def sys_exec_resume_def Let_def)
  moreover have "?l = s\<lparr>mem := memcpy_loop (mem s) 0x200000 (saved_program E) 0x101000, screen := v,
    exec_depth := n, segments := tss_set_kernel_stack e (segments s), user := r\<lparr>eax := 0\<rparr>\<rparr>"
    by simp
  ultimately show ?thesis by metis
qed

subsection \<open>The exec call as a whole\<close>

text \<open>
  The caller \<open>(s, d)\<close> asks for a program, which is started, runs, and exits: \<open>x1\<close> is the state in which
  the program starts, \<open>x2\<close> the state in which it makes its exit call, and \<open>x3\<close> the state in which the
  caller goes on.
\<close>

definition can_exec :: "'d env \<Rightarrow> 'd sys \<Rightarrow> bool" where
  "can_exec E x \<longleftrightarrow> eax (user (fst x)) = 9 \<and> exec_depth (fst x) < 8 \<and> length (exec_stack (fst x)) = 8 \<and> ring3_ok (fst x)
     \<and> exec_layout E (fst x) \<and> (\<exists>s0 d0. exec_fetch E (ebx (user (fst x))) x = Some (None, s0, d0) \<and> program_ok (mem s0) (exec_buffer E))"

text \<open>What the exec call has left behind while the program it started runs.\<close>

definition waiting :: "'d env \<Rightarrow> kernel \<Rightarrow> kernel \<Rightarrow> bool" where
  "waiting E s s' \<longleftrightarrow> ring3_ok s' \<and> exec_depth s' = exec_depth s + 1 \<and> length (exec_stack s') = 8
     \<and> (\<forall>i < exec_depth s. exec_stack s' ! i = exec_stack s ! i)
     \<and> exec_stack s' ! exec_depth s = \<lparr>jb_caller = In_Program (user s), jb_esp0 = tss_esp0 (tss (segments s)) - exec_stack_use E\<rparr>
     \<and> (\<forall>k < 0x101000. mem s' (saved_program E + of_nat k) = mem s (0x200000 + of_nat k))
     \<and> exec_layout E s'"

lemma can_exec_waiting:
  assumes "can_exec E (s, d)"
  shows "\<exists>s1 d1. trap E (s, d) = Some (s1, d1) \<and> waiting E s s1"
proof -
  obtain s0 d0 where f: "eax (user s) = 9" "exec_depth s < 8" "length (exec_stack s) = 8" "ring3_ok s" "exec_layout E s"
    "exec_fetch E (ebx (user s)) (s, d) = Some (None, s0, d0)" "program_ok (mem s0) (exec_buffer E)"
    using assms unfolding can_exec_def by auto
  obtain s1 d1 where "trap E (s, d) = Some (s1, d1)" "started E s s0 s1" using exec_starts [OF f(6,1,7,2,4,5)] by blast
  moreover have "waiting E s s1" using \<open>started E s s0 s1\<close> f(2,3,5) by (simp add: started_def waiting_def exec_layout_def)
  ultimately show ?thesis by blast
qed

lemma confined_tables:
  assumes "confined s s'" and "fenced s"
  shows "table_addr s' a = table_addr s a"
proof (rule fenced_cong(2) [OF assms(2)])
  show "mem s' a = mem s a" if "table_addr s a" for a using that assms unfolding fenced_def confined_def by blast
qed (use assms(1) in \<open>simp_all add: confined_def kside_def\<close>)

lemma saved_not_user: "exec_layout E s \<Longrightarrow> k < 0x101000 \<Longrightarrow> \<not> in_user (saved_program E + of_nat k)"
  using unat_add_le [of "saved_program E" "0x101000" k] by (auto simp: exec_layout_def apart_from_def in_user_unat)

lemma waiting_run:
  assumes "waiting E s s1" and "(program_step E)\<^sup>*\<^sup>* (s1, d1) x"
  shows "waiting E s (fst x)"
proof -
  have ok: "ring3_ok s1" "exec_layout E s1" using assms(1) by (simp_all add: waiting_def)
  have c: "confined s1 (fst x)" "ring3_ok (fst x)" using program_run_confined [OF assms(2)] ok by simp_all
  have "table_addr (fst x) a = table_addr s1 a" for a
    using confined_tables [OF c(1)] ok by (simp add: ring3_ok_def)
  then have "exec_layout E (fst x)" using ok(2) by (simp add: exec_layout_def)
  then show ?thesis using assms(1) c saved_not_user [OF ok(2)] unfolding waiting_def confined_def kside_def by simp
qed

text \<open>The state in which the caller goes on.\<close>

definition resumed :: "'d env \<Rightarrow> kernel \<Rightarrow> kernel \<Rightarrow> bool" where
  "resumed E s s3 \<longleftrightarrow> user s3 = (user s)\<lparr>eax := 0\<rparr> \<and> (\<forall>a. in_user a \<longrightarrow> mem s3 a = mem s a)
     \<and> exec_depth s3 = exec_depth s \<and> length (exec_stack s3) = 8 \<and> (\<forall>i < exec_depth s. exec_stack s3 ! i = exec_stack s ! i)
     \<and> tss_esp0 (tss (segments s3)) = tss_esp0 (tss (segments s)) - exec_stack_use E
     \<and> ring3_ok s3 \<and> exec_layout E s3"

lemma waiting_exit:
  assumes w: "waiting E s s2" and num: "eax (user s2) = 2"
  shows "\<exists>s3 d3. trap E (s2, d2) = Some (s3, d3) \<and> resumed E s s3 \<and> (\<forall>a. \<not> in_user a \<longrightarrow> mem s3 a = mem s2 a)"
proof -
  let ?e = "tss_esp0 (tss (segments s)) - exec_stack_use E" and ?m = "memcpy_loop (mem s2) 0x200000 (saved_program E) 0x101000"
  obtain v d3 where tr: "trap E (s2, d2) = Some (s2\<lparr>mem := ?m, screen := v, exec_depth := exec_depth s,
      segments := tss_set_kernel_stack ?e (segments s2), user := (user s)\<lparr>eax := 0\<rparr>\<rparr>, d3)" (is "_ = Some (?s3, d3)")
    using trap_exit [OF num, of "exec_depth s" "user s" ?e E d2] w by (auto simp: waiting_def)
  have lay: "exec_layout E s2" using w by (simp add: waiting_def)
  note m = saved_copy(2) [OF lay, of "mem s2"]
  have in_m: "?m a = mem s a" if "in_user a" for a
  proof -
    have k: "unat a - 0x200000 < 0x101000" "0x200000 + of_nat (unat a - 0x200000) = a"
      using that by (auto simp: in_user_unat u32_eq_unat unat_add_le [of "0x200000" "0x101000", simplified])
    show ?thesis using w k that unfolding m waiting_def by (metis (no_types, lifting))
  qed
  have fs: "fenced s2" and ok: "ring3_ok s2" using w by (simp_all add: waiting_def ring3_ok_def)
  have t: "mem ?s3 a = mem s2 a" if "table_addr s2 a" for a
    using that fs m unfolding fenced_def by simp
  have "fenced ?s3" by (rule fenced_cong(1) [OF fs t]) simp_all
  then have "ring3_ok ?s3" using ok by (simp add: ring3_ok_def alone_def handle_ok_def split: option.splits)
  moreover have "table_addr ?s3 a = table_addr s2 a" for a by (rule fenced_cong(2) [OF fs t]) simp_all
  then have "exec_layout E ?s3" using lay by (simp add: exec_layout_def)
  ultimately have "resumed E s ?s3" unfolding resumed_def using w in_m by (simp add: waiting_def tss_set_kernel_stack_def)
  then show ?thesis using tr m by auto
qed

subsection \<open>One program after another\<close>

text \<open>\<open>n\<close> rounds of a program that works, has another program executed and waits for its end.\<close>

inductive exec_rounds :: "'d env \<Rightarrow> nat \<Rightarrow> 'd sys \<Rightarrow> 'd sys \<Rightarrow> bool" for E where
  e_none: "exec_rounds E 0 x x"
| e_round: "exec_rounds E n x y \<Longrightarrow> (program_step E)\<^sup>*\<^sup>* y (s, d) \<Longrightarrow> can_exec E (s, d) \<Longrightarrow> trap E (s, d) = Some x1 \<Longrightarrow>
    (program_step E)\<^sup>*\<^sup>* x1 (s2, d2) \<Longrightarrow> eax (user s2) = 2 \<Longrightarrow> trap E (s2, d2) = Some z \<Longrightarrow> exec_rounds E (Suc n) x z"

lemma exec_rounds_stack:
  assumes "exec_rounds E n x y" and "ring3_ok (fst x)"
  shows "ring3_ok (fst y) \<and> tss_esp0 (tss (segments (fst y))) = tss_esp0 (tss (segments (fst x))) - of_nat n * exec_stack_use E"
  using assms
proof induction
  case (e_round n x y s d x1 s2 d2 z)
  have "confined (fst y) s" using program_run_confined [OF e_round.hyps(2)] e_round.IH e_round.prems by simp
  then have seg: "segments s = segments (fst y)" by (simp add: confined_def kside_def)
  obtain s1 d1 where s1: "x1 = (s1, d1)" "waiting E s s1" using can_exec_waiting [OF e_round.hyps(3)] e_round.hyps(4) by auto
  have "waiting E s s2" using waiting_run [OF s1(2), of d1 "(s2, d2)"] e_round.hyps(5) s1(1) by simp
  then obtain s3 d3 where "z = (s3, d3)" "resumed E s s3" using waiting_exit [OF _ e_round.hyps(6), of E s d2] e_round.hyps(7) by auto
  then show ?case using e_round.IH e_round.prems seg by (simp add: resumed_def algebra_simps)
qed simp

end
