(* ===== verification/Fat32_Volume.thy ===== *)
theory Fat32_Volume
  imports Fat32
begin

text \<open>
  What the FAT32 driver does on a volume. The volume is the disk image behind the IDE driver; its
  cluster chains, directory and file contents are defined from the image alone, and the operations
  of the driver are shown to compute exactly these, for every image whose chains end. The lemmas
  are proved once for an arbitrary \<open>block_device\<close>.
\<close>

subsection \<open>The volume\<close>

definition disk_bytes :: "(bool \<Rightarrow> nat \<Rightarrow> u16 list) \<Rightarrow> u8 \<Rightarrow> nat \<Rightarrow> u8 list" where
  "disk_bytes sectors drive n = concat (map word_bytes (sectors (bit drive 4) n))"

definition spc :: "fat32 \<Rightarrow> nat" where
  "spc st = unat (sectors_per_cluster (bpb st))"

definition fat_sector :: "fat32 \<Rightarrow> u32 \<Rightarrow> u32" where
  "fat_sector st c = fat_start_sector st + (c * 4) div 512"

definition next_cluster :: "(nat \<Rightarrow> u8 list) \<Rightarrow> fat32 \<Rightarrow> u32 \<Rightarrow> u32" where
  "next_cluster img st c =
    (if c < 2 \<or> c \<ge> 0x0FFFFFF0 then 0x0FFFFFF8
     else let n = le32 (img (unat (fat_sector st c))) (4 * unat ((c * 4) mod 512 div 4)) AND 0x0FFFFFFF
          in if n \<ge> 0x0FFFFFF8 then 0x0FFFFFF8 else n)"

definition cluster_sectors :: "(nat \<Rightarrow> u8 list) \<Rightarrow> fat32 \<Rightarrow> u32 \<Rightarrow> u8 list list" where
  "cluster_sectors img st c = map (\<lambda>i. img (unat (fat32_cluster_to_sector st c + of_nat i))) [0 ..< spc st]"

text \<open>The chain that starts at a cluster, and that the drive can address all sectors it needs.\<close>

fun is_chain :: "(u32 \<Rightarrow> u32) \<Rightarrow> u32 \<Rightarrow> u32 list \<Rightarrow> bool" where
  "is_chain nxt c [] = (c \<ge> 0x0FFFFFF8)"
| "is_chain nxt c (x # xs) = (x = c \<and> c < 0x0FFFFFF8 \<and> is_chain nxt (nxt c) xs)"

definition addressable :: "fat32 \<Rightarrow> u32 \<Rightarrow> bool" where
  "addressable st c \<longleftrightarrow> unat (fat_sector st c) < 2 ^ 28 \<and>
     list_all (\<lambda>i. unat (fat32_cluster_to_sector st c + of_nat i) < 2 ^ 28) [0 ..< spc st]"

definition dir_entries :: "(nat \<Rightarrow> u8 list) \<Rightarrow> fat32 \<Rightarrow> u32 list \<Rightarrow> fat32_direntry list" where
  "dir_entries img st cs = concat (map sector_entries (concat (map (cluster_sectors img st) cs)))"

definition chain_bytes :: "(nat \<Rightarrow> u8 list) \<Rightarrow> fat32 \<Rightarrow> u32 list \<Rightarrow> u8 list" where
  "chain_bytes img st cs = concat (concat (map (cluster_sectors img st) cs))"

text \<open>The entries in use: those in front of the end marker.\<close>

definition live :: "fat32_direntry list \<Rightarrow> fat32_direntry list" where
  "live es = takeWhile (\<lambda>e. hd (de_name e) \<noteq> 0) es"

lemma with_buffer [simp]:
  "spc (st\<lparr>sector_buffer := b\<rparr>) = spc st" "fat_sector (st\<lparr>sector_buffer := b\<rparr>) = fat_sector st"
  "fat32_cluster_to_sector (st\<lparr>sector_buffer := b\<rparr>) = fat32_cluster_to_sector st"
  "next_cluster img (st\<lparr>sector_buffer := b\<rparr>) = next_cluster img st"
  "cluster_sectors img (st\<lparr>sector_buffer := b\<rparr>) = cluster_sectors img st"
  "addressable (st\<lparr>sector_buffer := b\<rparr>) = addressable st"
  by (simp_all add: spc_def fat_sector_def fat32_cluster_to_sector_def next_cluster_def cluster_sectors_def
      addressable_def fun_eq_iff)

lemma buffer_twice: "st\<lparr>sector_buffer := a, sector_buffer := b\<rparr> = st\<lparr>sector_buffer := b\<rparr>"
  by simp

lemma with_buffer_chain [simp]:
  "dir_entries img (st\<lparr>sector_buffer := b\<rparr>) = dir_entries img st"
  "chain_bytes img (st\<lparr>sector_buffer := b\<rparr>) = chain_bytes img st"
  by (simp_all add: dir_entries_def chain_bytes_def fun_eq_iff)

lemma cluster_sectors_drop:
  assumes "i < spc st"
  shows "drop i (cluster_sectors img st c) =
    img (unat (fat32_cluster_to_sector st c + of_nat i)) # drop (Suc i) (cluster_sectors img st c)"
  using Cons_nth_drop_Suc [of i "cluster_sectors img st c", symmetric] assms by (simp add: cluster_sectors_def)

subsection \<open>Directory entries\<close>

definition matches :: "u8 list \<Rightarrow> fat32_direntry \<Rightarrow> bool" where
  "matches nm e \<longleftrightarrow> hd (de_name e) \<noteq> 0xE5 \<and> de_attr e \<noteq> 0x0F \<and> strncmp (de_name e) nm 11 = 0"

definition visible :: "fat32_direntry \<Rightarrow> bool" where
  "visible e \<longleftrightarrow> hd (de_name e) \<noteq> 0xE5 \<and> de_attr e \<noteq> 0x0F \<and> de_attr e AND 0x08 = 0"

lemma live_simps [simp]:
  "live [] = []" "live (e # es) = (if hd (de_name e) = 0 then [] else e # live es)"
  by (simp_all add: live_def)

lemma live_append: "live (xs @ ys) = live xs @ (if live xs = xs then live ys else [])"
  by (induction xs) auto

lemma open_entries_append:
  "open_entries nm (xs @ ys) = (case open_entries nm xs of Some r \<Rightarrow> Some r | None \<Rightarrow> open_entries nm ys)"
  by (induction xs) auto

lemma open_entries_find:
  "find (matches nm) (live es) = (case open_entries nm es of Some r \<Rightarrow> r | None \<Rightarrow> None)"
  by (induction es) (auto simp: matches_def)

lemma list_entries_spec:
  assumes "length acc \<le> mx" and "list_entries (int mx) es acc = (fin, acc')"
  shows "length acc' \<le> mx" and "acc' = acc @ take (mx - length acc) (map dirinfo_of (filter visible (live es)))"
    and "(fin \<longrightarrow> live es \<noteq> es) \<and> (\<not> fin \<longrightarrow> length acc' = mx \<or> live es = es)"
proof -
  have "length acc' \<le> mx \<and> acc' = acc @ take (mx - length acc) (map dirinfo_of (filter visible (live es))) \<and>
      (fin \<longrightarrow> live es \<noteq> es) \<and> (\<not> fin \<longrightarrow> length acc' = mx \<or> live es = es)"
    using assms
  proof (induction es arbitrary: acc)
    case (Cons e es)
    show ?case
    proof (cases "length acc < mx")
      case True
      then have s: "mx - length acc = Suc (mx - length (acc @ [dirinfo_of e]))" by simp
      consider "hd (de_name e) = 0" | "hd (de_name e) \<noteq> 0" "visible e" | "hd (de_name e) \<noteq> 0" "\<not> visible e" by blast
      then show ?thesis
      proof cases
        case 1
        then show ?thesis using Cons.prems True by simp
      next
        case 2
        then have "list_entries (int mx) es (acc @ [dirinfo_of e]) = (fin, acc')"
          using Cons.prems(2) True by (simp add: visible_def)
        then show ?thesis using Cons.IH [of "acc @ [dirinfo_of e]"] 2 True s by auto
      next
        case 3
        then have "list_entries (int mx) es acc = (fin, acc')"
          using Cons.prems(2) True by (auto simp: visible_def split: if_splits)
        then show ?thesis using Cons.IH [of acc] 3 Cons.prems(1) by auto
      qed
    next
      case False
      then show ?thesis using Cons.prems by auto
    qed
  qed auto
  then show "length acc' \<le> mx" "acc' = acc @ take (mx - length acc) (map dirinfo_of (filter visible (live es)))"
    "(fin \<longrightarrow> live es \<noteq> es) \<and> (\<not> fin \<longrightarrow> length acc' = mx \<or> live es = es)" by blast+
qed

lemma list_accumulate:
  assumes "acc1 = acc @ take (mx - length acc) (map dirinfo_of (filter visible (live xs)))"
    and "length acc1 = mx \<or> live xs = xs" and "length acc \<le> mx"
  shows "acc1 @ take (mx - length acc1) (map dirinfo_of (filter visible (live ys))) =
    acc @ take (mx - length acc) (map dirinfo_of (filter visible (live (xs @ ys))))"
proof (cases "live xs = xs")
  case True
  then show ?thesis using assms(1,3) by (simp add: live_append min_def)
next
  case False
  then have "length acc1 = mx" using assms(2) by simp
  then show ?thesis using assms(1) False by (simp add: live_append)
qed

lemma live_append_ne:
  assumes "live xs \<noteq> xs"
  shows "live (xs @ ys) = live xs" and "live (xs @ ys) \<noteq> xs @ ys"
proof -
  show l: "live (xs @ ys) = live xs" using assms by (simp add: live_append)
  have "length (live xs) \<le> length xs" by (simp add: live_def length_takeWhile_le)
  then show "live (xs @ ys) \<noteq> xs @ ys" using assms l by (metis append_eq_conv_conj append_self_conv le_antisym length_append le_add1 take_all)
qed

lemma live_append_iff: "live (xs @ ys) = xs @ ys \<longleftrightarrow> live xs = xs \<and> live ys = ys"
  using live_append_ne [of xs ys] by (auto simp: live_append)

lemma strncmp_eq:
  assumes "length a = n" and "length b = n" and "0 \<notin> set b"
  shows "strncmp a b n = 0 \<longleftrightarrow> a = b"
  using assms
proof (induction n arbitrary: a b)
  case (Suc n)
  then obtain x a' y b' where "a = x # a'" "b = y # b'" by (metis length_Suc_conv)
  moreover have "int (unat x) - int (unat y) = 0 \<longleftrightarrow> x = y"
    by (simp only: eq_iff_diff_eq_0 [symmetric] of_nat_eq_iff word_unat_eq_iff)
  ultimately show ?case using Suc by auto
qed simp

subsection \<open>File contents\<close>

lemma concat_uniform:
  assumes "\<forall>x \<in> set xs. length x = n" and "p div n < length xs" and "0 < n"
  shows "drop p (concat xs) = drop (p mod n) (xs ! (p div n)) @ concat (drop (Suc (p div n)) xs)"
  using assms(1,2)
proof (induction xs arbitrary: p)
  case (Cons x xs)
  show ?case
  proof (cases "p < n")
    case True
    then show ?thesis using Cons.prems by simp
  next
    case False
    then have "p div n = Suc ((p - n) div n)" "p mod n = (p - n) mod n"
      using assms(3) by (simp_all add: le_div_geq le_mod_geq)
    then show ?thesis using Cons.IH [of "p - n"] Cons.prems False by simp
  qed
qed simp

lemma concat_uniform_nth:
  assumes "\<forall>x \<in> set xs. length x = n" and "k < length xs" and "i < n"
  shows "concat xs ! (k * n + i) = xs ! k ! i"
  using assms(1,2)
proof (induction xs arbitrary: k)
  case (Cons x xs)
  then show ?case using assms(3) by (cases k) (auto simp: nth_append)
qed simp

lemma length_concat_uniform: "\<forall>x \<in> set xs. length x = n \<Longrightarrow> length (concat xs) = n * length xs"
  by (induction xs) auto

lemma length_cluster_sectors [simp]: "length (cluster_sectors img st c) = spc st"
  by (simp add: cluster_sectors_def)

lemma chain_bytes_at:
  assumes "\<And>n. length (img n) = 512" and "p div (512 * spc st) < length cs" and "0 < spc st" and "m \<le> 512 - p mod 512"
    and "i = p mod (512 * spc st) div 512"
  shows "take m (drop p (chain_bytes img st cs)) =
    take m (drop (p mod 512) (img (unat (fat32_cluster_to_sector st (cs ! (p div (512 * spc st))) + of_nat i))))"
    and "i < spc st"
proof -
  let ?S = "concat (map (cluster_sectors img st) cs)"
  have u: "\<forall>x \<in> set ?S. length x = 512" using assms(1) by (auto simp: cluster_sectors_def)
  have lS: "length ?S = spc st * length cs" using length_concat_uniform [of "map (cluster_sectors img st) cs" "spc st"] by simp
  show i: "i < spc st" using assms(3,5) by (simp add: div_less_iff_less_mult mult.commute)
  have p: "p div 512 = p div (512 * spc st) * spc st + i"
    using assms(5) by (simp add: div_mult2_eq mod_mult2_eq)
  have "p div 512 < spc st * length cs"
    using assms(2,3) by (simp add: div_mult2_eq div_less_iff_less_mult mult.commute)
  then have d: "drop p (concat ?S) = drop (p mod 512) (?S ! (p div 512)) @ concat (drop (Suc (p div 512)) ?S)"
    using concat_uniform [OF u, of p] lS by simp
  have "?S ! (p div 512) = cluster_sectors img st (cs ! (p div (512 * spc st))) ! i"
    unfolding p using concat_uniform_nth [of "map (cluster_sectors img st) cs" "spc st" "p div (512 * spc st)" i] assms(2) i by simp
  also have "\<dots> = img (unat (fat32_cluster_to_sector st (cs ! (p div (512 * spc st))) + of_nat i))"
    using i by (simp add: cluster_sectors_def)
  finally have "?S ! (p div 512) = img (unat (fat32_cluster_to_sector st (cs ! (p div (512 * spc st))) + of_nat i))" .
  then show "take m (drop p (chain_bytes img st cs)) =
      take m (drop (p mod 512) (img (unat (fat32_cluster_to_sector st (cs ! (p div (512 * spc st))) + of_nat i))))"
    unfolding chain_bytes_def d using assms(1,4) by simp
qed

lemma length_chain_bytes:
  assumes "\<And>n. length (img n) = 512"
  shows "length (chain_bytes img st cs) = 512 * spc st * length cs"
proof -
  let ?S = "concat (map (cluster_sectors img st) cs)"
  have "\<forall>x \<in> set ?S. length x = 512" using assms by (auto simp: cluster_sectors_def)
  moreover have "length ?S = spc st * length cs" using length_concat_uniform [of "map (cluster_sectors img st) cs" "spc st"] by simp
  ultimately show ?thesis using length_concat_uniform [of ?S 512] by (simp add: chain_bytes_def)
qed

text \<open>The numbers of one round of the loop of \<open>fat32_read\<close>, as natural numbers.\<close>

lemma read_round:
  fixes P N S :: u32 and s :: nat
  assumes "S = of_nat (512 * s)" and "0 < s" and "s \<le> 255"
  shows "unat S = 512 * s" and "unat (P mod S) = unat P mod (512 * s)"
    and "P mod S div 512 = of_nat (unat P mod (512 * s) div 512)"
    and "unat (P mod S mod 512) = unat P mod 512"
    and "unat (if 512 - P mod S mod 512 > (if S - P mod S > N then N else S - P mod S)
        then (if S - P mod S > N then N else S - P mod S) else 512 - P mod S mod 512) =
      min (512 - unat P mod 512) (unat N)"
    and "512 - unat P mod 512 \<le> 512 * s - unat P mod (512 * s)"
proof -
  show S: "unat S = 512 * s" unfolding assms(1) unat_of_nat using assms(3) by simp
  show o: "unat (P mod S) = unat P mod (512 * s)" by (simp add: unat_mod S)
  show "P mod S div 512 = of_nat (unat P mod (512 * s) div 512)"
  proof -
    have "unat (P mod S div 512) = unat P mod (512 * s) div 512" by (simp add: unat_div o)
    then have "(of_nat (unat (P mod S div 512)) :: u32) = of_nat (unat P mod (512 * s) div 512)" by (simp only:)
    then show ?thesis by simp
  qed
  show o2: "unat (P mod S mod 512) = unat P mod 512" by (simp add: unat_mod S mod_mod_cancel)
  have lt: "unat P mod (512 * s) < 512 * s" using assms(2) by simp
  have bc: "unat (S - P mod S) = 512 * s - unat P mod (512 * s)"
    using lt by (subst unat_sub) (simp_all add: word_le_nat_alt o S)
  have bs: "unat (512 - P mod S mod 512) = 512 - unat P mod 512"
    by (subst unat_sub) (simp_all add: word_le_nat_alt o2)
  show le: "512 - unat P mod 512 \<le> 512 * s - unat P mod (512 * s)"
  proof -
    have "unat P mod (512 * s) = 512 * (unat P div 512 mod s) + unat P mod 512" by (simp add: mod_mult2_eq)
    moreover have "unat P div 512 mod s + 1 \<le> s" using assms(2) by (simp add: Suc_leI)
    then have "512 * (unat P div 512 mod s) + 512 \<le> 512 * s" by (metis add_mult_distrib2 mult.right_neutral mult_le_mono2)
    ultimately show ?thesis by simp
  qed
  show "unat (if 512 - P mod S mod 512 > (if S - P mod S > N then N else S - P mod S)
        then (if S - P mod S > N then N else S - P mod S) else 512 - P mod S mod 512) =
      min (512 - unat P mod 512) (unat N)"
    using le by (auto simp: word_less_nat_alt bc bs min_def)
qed

text \<open>
  The handle is at byte p of the chain cs: its position is p and its current cluster is the one that
  holds byte p, or the end marker behind the last one.
\<close>

definition handle_at :: "(nat \<Rightarrow> u8 list) \<Rightarrow> fat32 \<Rightarrow> u32 list \<Rightarrow> nat \<Rightarrow> bool" where
  "handle_at img st cs p \<longleftrightarrow>
    unat (f_position (fs_file st)) = p \<and> p \<le> 512 * spc st * length cs \<and> 512 * spc st * length cs < 2 ^ 32 \<and>
    is_chain (next_cluster img st) (f_current_cluster (fs_file st)) (drop (p div (512 * spc st)) cs) \<and>
    list_all (addressable st) cs \<and> 0 < spc st"

definition seek :: "nat \<Rightarrow> u32 \<Rightarrow> fat32 \<Rightarrow> fat32" where
  "seek p c st = st\<lparr>fs_file := (fs_file st)\<lparr>f_position := of_nat p, f_current_cluster := c\<rparr>\<rparr>"

lemma with_seek [simp]:
  "spc (seek p c st) = spc st" "fat_sector (seek p c st) = fat_sector st"
  "fat32_cluster_to_sector (seek p c st) = fat32_cluster_to_sector st"
  "next_cluster img (seek p c st) = next_cluster img st"
  "cluster_sectors img (seek p c st) = cluster_sectors img st"
  "addressable (seek p c st) = addressable st"
  "fs_drive (seek p c st) = fs_drive st" "bpb (seek p c st) = bpb st" "initialized (seek p c st) = initialized st"
  "sector_buffer (seek p c st) = sector_buffer st" "seek q e (seek p c st) = seek q e st"
  "seek p c (st\<lparr>sector_buffer := b\<rparr>) = (seek p c st)\<lparr>sector_buffer := b\<rparr>"
  by (simp_all add: seek_def spc_def fat_sector_def fat32_cluster_to_sector_def next_cluster_def cluster_sectors_def
      addressable_def fun_eq_iff)

lemma with_seek_chain [simp]: "chain_bytes img (seek p c st) = chain_bytes img st"
  by (simp add: chain_bytes_def fun_eq_iff)

lemma handle_at_buffer [simp]: "handle_at img (st\<lparr>sector_buffer := b\<rparr>) cs p = handle_at img st cs p"
  by (simp add: handle_at_def)

subsection \<open>Reading sectors\<close>

context block_device
begin

abbreviation (input) img :: "u8 \<Rightarrow> nat \<Rightarrow> u8 list" where
  "img \<equiv> disk_bytes sectors"

lemma length_img [simp]: "length (img drive n) = 512"
proof -
  have "length (concat (map word_bytes ws)) = 2 * length ws" for ws by (induction ws) auto
  then show ?thesis by (simp add: disk_bytes_def length_sectors)
qed

lemma read_sector_good:
  assumes "good d" and "unat n < 2 ^ 28" and "length (sector_buffer st) = 512"
  shows "\<exists>d'. read_sector bus n st d = (0, st\<lparr>sector_buffer := img (fs_drive st) (unat n)\<rparr>, d') \<and> good d'"
  using read_sector [OF assms(1,2), of "fs_drive st"] assms(3) length_img [of "fs_drive st" "unat n"]
  unfolding read_sector_def disk_bytes_def by fastforce

lemma next_cluster_good:
  assumes "good d" and "addressable st c" and "length (sector_buffer st) = 512"
  shows "\<exists>b d'. fat32_get_next_cluster bus c st d =
      (next_cluster (img (fs_drive st)) st c, st\<lparr>sector_buffer := b\<rparr>, d') \<and> length b = 512 \<and> good d'"
proof (cases "c < 2 \<or> c \<ge> 0x0FFFFFF0")
  case True
  then show ?thesis using assms(1,3)
    by (auto simp: fat32_get_next_cluster_def next_cluster_def intro!: exI [of _ "sector_buffer st"])
next
  case False
  have "unat (fat_sector st c) < 2 ^ 28" using assms(2) by (simp add: addressable_def)
  then obtain d' where "read_sector bus (fat_sector st c) st d = (0, st\<lparr>sector_buffer := img (fs_drive st) (unat (fat_sector st c))\<rparr>, d')" "good d'"
    using read_sector_good [OF assms(1) _ assms(3)] by blast
  then show ?thesis using False
    by (auto simp: fat32_get_next_cluster_def next_cluster_def fat_sector_def Let_def
        intro!: exI [of _ "img (fs_drive st) (unat (fat_sector st c))"])
qed


lemma addressable_sector:
  assumes "addressable st c" and "i < spc st"
  shows "unat (fat32_cluster_to_sector st c + of_nat i) < 2 ^ 28"
  using assms by (simp add: addressable_def list_all_iff)

lemma open_sectors_good:
  assumes "good d" and "addressable st c" and "length (sector_buffer st) = 512" and "i + n = spc st"
  shows "\<exists>b d'. open_sectors bus nm (fat32_cluster_to_sector st c) i n st d =
      (open_entries nm (concat (map sector_entries (drop i (cluster_sectors (img (fs_drive st)) st c)))),
       st\<lparr>sector_buffer := b\<rparr>, d') \<and> length b = 512 \<and> good d'"
  using assms
proof (induction n arbitrary: i st d)
  case 0
  then show ?case by (auto simp: cluster_sectors_def intro!: exI [of _ "sector_buffer st"])
next
  case (Suc n)
  let ?b = "img (fs_drive st) (unat (fat32_cluster_to_sector st c + of_nat i))"
  have "i < spc st" using Suc.prems(4) by simp
  then obtain d1 where d1: "read_sector bus (fat32_cluster_to_sector st c + of_nat i) st d = (0, st\<lparr>sector_buffer := ?b\<rparr>, d1)" "good d1"
    using read_sector_good [OF Suc.prems(1) addressable_sector [OF Suc.prems(2)] Suc.prems(3)] by blast
  have s: "drop i (cluster_sectors (img (fs_drive st)) st c) = ?b # drop (Suc i) (cluster_sectors (img (fs_drive st)) st c)"
    using \<open>i < spc st\<close> by (rule cluster_sectors_drop)
  show ?case
  proof (cases "open_entries nm (sector_entries ?b)")
    case None
    have "\<exists>b d'. open_sectors bus nm (fat32_cluster_to_sector (st\<lparr>sector_buffer := ?b\<rparr>) c) (Suc i) n (st\<lparr>sector_buffer := ?b\<rparr>) d1 =
      (open_entries nm (concat (map sector_entries (drop (Suc i) (cluster_sectors (img (fs_drive (st\<lparr>sector_buffer := ?b\<rparr>))) (st\<lparr>sector_buffer := ?b\<rparr>) c)))),
       st\<lparr>sector_buffer := ?b, sector_buffer := b\<rparr>, d') \<and> length b = 512 \<and> good d'"
      by (rule Suc.IH) (use Suc.prems d1 in simp_all)
    then show ?thesis using d1 None s by (simp add: open_entries_append)
  next
    case (Some r)
    then show ?thesis using d1 s by (auto simp: open_entries_append intro!: exI [of _ ?b])
  qed
qed

lemma open_chain_good:
  assumes "good d" and "is_chain (next_cluster (img (fs_drive st)) st) c cs" and "list_all (addressable st) cs"
    and "length (sector_buffer st) = 512"
  shows "\<exists>b d'. open_chain bus nm c st d =
      Some (find (matches nm) (live (dir_entries (img (fs_drive st)) st cs)), st\<lparr>sector_buffer := b\<rparr>, d')
      \<and> length b = 512 \<and> good d'"
  using assms
proof (induction cs arbitrary: c st d)
  case Nil
  then show ?case by (subst open_chain.simps) (auto simp: dir_entries_def intro!: exI [of _ "sector_buffer st"])
next
  case (Cons x cs)
  let ?es = "concat (map sector_entries (cluster_sectors (img (fs_drive st)) st c))"
  obtain b d1 where o1: "open_sectors bus nm (fat32_cluster_to_sector st c) 0 (spc st) st d =
      (open_entries nm ?es, st\<lparr>sector_buffer := b\<rparr>, d1)" "length b = 512" "good d1"
    using open_sectors_good [of d st c 0 "spc st" nm] Cons.prems by auto
  have es: "dir_entries (img (fs_drive st)) st (c # cs) = ?es @ dir_entries (img (fs_drive st)) st cs"
    by (simp add: dir_entries_def)
  show ?case
  proof (cases "open_entries nm ?es")
    case (Some r)
    then show ?thesis using o1 Cons.prems(2) unfolding spc_def
      by (subst open_chain.simps) (auto simp: es open_entries_find open_entries_append)
  next
    case None
    obtain b2 d2 where n: "fat32_get_next_cluster bus c (st\<lparr>sector_buffer := b\<rparr>) d1 =
        (next_cluster (img (fs_drive st)) st c, st\<lparr>sector_buffer := b2\<rparr>, d2)" "length b2 = 512" "good d2"
      using next_cluster_good [of d1 "st\<lparr>sector_buffer := b\<rparr>" c] o1 Cons.prems by auto
    have "\<exists>b d'. open_chain bus nm (next_cluster (img (fs_drive st)) st c) (st\<lparr>sector_buffer := b2\<rparr>) d2 =
        Some (find (matches nm) (live (dir_entries (img (fs_drive (st\<lparr>sector_buffer := b2\<rparr>))) (st\<lparr>sector_buffer := b2\<rparr>) cs)),
          st\<lparr>sector_buffer := b2, sector_buffer := b\<rparr>, d') \<and> length b = 512 \<and> good d'"
      by (rule Cons.IH) (use Cons.prems n in simp_all)
    then show ?thesis using o1 n None Cons.prems(2) unfolding spc_def
      by (subst open_chain.simps) (auto simp: es open_entries_find open_entries_append)
  qed
qed

lemma open_chain_cycle:
  assumes "good d" and "length (sector_buffer st) = 512" and "c \<in> set cs"
    and cs: "\<And>c. c \<in> set cs \<Longrightarrow> c < 0x0FFFFFF8 \<and> addressable st c \<and> next_cluster (img (fs_drive st)) st c \<in> set cs
        \<and> open_entries nm (dir_entries (img (fs_drive st)) st [c]) = None"
  shows "open_chain bus nm c st d = None"
proof (rule ccontr)
  let ?I = "\<lambda>c' st' d'. c' \<in> set cs \<and> good d' \<and> (\<exists>b. length b = 512 \<and> st' = st\<lparr>sector_buffer := b\<rparr>)"
  have "\<not> (bus = bus \<and> nm = nm \<and> ?I c' st' d')" if "open_chain bus nm c' st' d' = Some y" for c' st' d' y
  proof (rule open_chain.raw_induct [where P = "\<lambda>bus' nm' c st d y. \<not> (bus' = bus \<and> nm' = nm \<and> ?I c st d)", OF _ that])
    fix oc and bus' :: "'d bus" and nm' c2 st2 d2 y2
    assume IH: "\<And>b n c s d y. oc b n c s d = Some y \<Longrightarrow> \<not> (b = bus \<and> n = nm \<and> ?I c s d)"
      and res: "(if c2 < FAT32_CLUSTER_EOC then
        case open_sectors bus' nm' (fat32_cluster_to_sector st2 c2) 0 (unat (sectors_per_cluster (bpb st2))) st2 d2 of
          (None, st, d) \<Rightarrow> let (cluster, st, d) = fat32_get_next_cluster bus' c2 st d in oc bus' nm' cluster st d
        | (Some res, st, d) \<Rightarrow> Some (res, st, d)
        else Some (None, st2, d2)) = Some y2"
    show "\<not> (bus' = bus \<and> nm' = nm \<and> ?I c2 st2 d2)"
    proof
      assume "bus' = bus \<and> nm' = nm \<and> ?I c2 st2 d2"
      then have eq: "bus' = bus \<and> nm' = nm" and I: "?I c2 st2 d2" by blast+
      then obtain b where b: "length b = 512" "st2 = st\<lparr>sector_buffer := b\<rparr>" by blast
      obtain b1 d1 where o1: "open_sectors bus nm (fat32_cluster_to_sector st2 c2) 0 (spc st) st2 d2 = (None, st\<lparr>sector_buffer := b1\<rparr>, d1)"
        "length b1 = 512" "good d1"
        using open_sectors_good [of d2 st2 c2 0 "spc st" nm] I b cs [of c2] by (auto simp: dir_entries_def)
      obtain b2 d3 where n: "fat32_get_next_cluster bus c2 (st\<lparr>sector_buffer := b1\<rparr>) d1 =
          (next_cluster (img (fs_drive st)) st c2, st\<lparr>sector_buffer := b2\<rparr>, d3)" "length b2 = 512" "good d3"
        using next_cluster_good [of d1 "st\<lparr>sector_buffer := b1\<rparr>" c2] o1 I cs [of c2] by auto
      have "oc bus nm (next_cluster (img (fs_drive st)) st c2) (st\<lparr>sector_buffer := b2\<rparr>) d3 = Some y2"
        using res eq o1(1) n(1) I cs [of c2] b(2) by (simp add: spc_def)
      then show False using IH [of bus nm] n(2,3) I cs [of c2] by blast
    qed
  qed
  moreover assume "open_chain bus nm c st d \<noteq> None"
  moreover have "?I c st d" using assms(1-3) by (auto intro!: exI [of _ "sector_buffer st"])
  ultimately show False by blast
qed

lemma list_sectors_good:
  assumes "good d" and "addressable st c" and "length (sector_buffer st) = 512" and "i + n = spc st" and "length acc \<le> mx"
    and "es = concat (map sector_entries (drop i (cluster_sectors (img (fs_drive st)) st c)))"
  shows "\<exists>fin acc' b d'. list_sectors bus (int mx) (fat32_cluster_to_sector st c) i n acc st d =
      (Inr fin, acc', st\<lparr>sector_buffer := b\<rparr>, d') \<and> length b = 512 \<and> good d' \<and> length acc' \<le> mx
      \<and> acc' = acc @ take (mx - length acc) (map dirinfo_of (filter visible (live es)))
      \<and> (fin \<longrightarrow> live es \<noteq> es) \<and> (\<not> fin \<longrightarrow> length acc' = mx \<or> live es = es)"
  using assms
proof (induction n arbitrary: i st d acc es)
  case 0
  then have "es = []" by (simp add: cluster_sectors_def)
  then show ?case using 0(1-5)
    by (intro exI [of _ False] exI [of _ acc] exI [of _ "sector_buffer st"] exI [of _ d]) simp
next
  case (Suc n)
  let ?b = "img (fs_drive st) (unat (fat32_cluster_to_sector st c + of_nat i))"
  let ?es = "concat (map sector_entries (drop (Suc i) (cluster_sectors (img (fs_drive st)) st c)))"
  have "i < spc st" using Suc.prems(4) by simp
  then obtain d1 where d1: "read_sector bus (fat32_cluster_to_sector st c + of_nat i) st d = (0, st\<lparr>sector_buffer := ?b\<rparr>, d1)" "good d1"
    using read_sector_good [OF Suc.prems(1) addressable_sector [OF Suc.prems(2)] Suc.prems(3)] by blast
  have es: "es = sector_entries ?b @ ?es"
    using cluster_sectors_drop [OF \<open>i < spc st\<close>, of "img (fs_drive st)" c] Suc.prems(6) by simp
  obtain fin acc1 where e: "list_entries (int mx) (sector_entries ?b) acc = (fin, acc1)" by force
  note e1 = list_entries_spec [OF Suc.prems(5) e]
  show ?case
  proof (cases fin)
    case True
    then have "live (sector_entries ?b) \<noteq> sector_entries ?b" using e1(3) by simp
    then have "live es = live (sector_entries ?b)" "live es \<noteq> es" unfolding es by (rule live_append_ne)+
    then show ?thesis using True d1 e e1
      by (intro exI [of _ True] exI [of _ acc1] exI [of _ ?b] exI [of _ d1]) simp
  next
    case False
    have "\<exists>fin acc' b d'. list_sectors bus (int mx) (fat32_cluster_to_sector (st\<lparr>sector_buffer := ?b\<rparr>) c) (Suc i) n acc1 (st\<lparr>sector_buffer := ?b\<rparr>) d1 =
      (Inr fin, acc', st\<lparr>sector_buffer := ?b, sector_buffer := b\<rparr>, d') \<and> length b = 512 \<and> good d' \<and> length acc' \<le> mx
      \<and> acc' = acc1 @ take (mx - length acc1) (map dirinfo_of (filter visible (live ?es)))
      \<and> (fin \<longrightarrow> live ?es \<noteq> ?es) \<and> (\<not> fin \<longrightarrow> length acc' = mx \<or> live ?es = ?es)"
      by (rule Suc.IH) (use Suc.prems d1 e1(1) in simp_all)
    then obtain fin2 acc2 b2 d2 where r: "list_sectors bus (int mx) (fat32_cluster_to_sector st c) (Suc i) n acc1 (st\<lparr>sector_buffer := ?b\<rparr>) d1 =
      (Inr fin2, acc2, st\<lparr>sector_buffer := b2\<rparr>, d2)" "length b2 = 512" "good d2" "length acc2 \<le> mx"
      "acc2 = acc1 @ take (mx - length acc1) (map dirinfo_of (filter visible (live ?es)))"
      "fin2 \<longrightarrow> live ?es \<noteq> ?es" "\<not> fin2 \<longrightarrow> length acc2 = mx \<or> live ?es = ?es"
      unfolding buffer_twice with_buffer by blast
    have "acc2 = acc @ take (mx - length acc) (map dirinfo_of (filter visible (live es)))"
      unfolding r(5) es by (rule list_accumulate [OF e1(2) _ Suc.prems(5)]) (use e1(3) False in blast)
    moreover have "fin2 \<longrightarrow> live es \<noteq> es" using r(6) by (simp add: es live_append_iff)
    moreover have "\<not> fin2 \<longrightarrow> length acc2 = mx \<or> live es = es"
    proof (cases "length acc1 = mx")
      case True
      then show ?thesis using r(5) by simp
    next
      case False
      then show ?thesis using r(7) e1(3) \<open>\<not> fin\<close> by (simp add: es live_append_iff)
    qed
    moreover have "list_sectors bus (int mx) (fat32_cluster_to_sector st c) i (Suc n) acc st d = (Inr fin2, acc2, st\<lparr>sector_buffer := b2\<rparr>, d2)"
      using d1(1) e False r(1) by simp
    ultimately show ?thesis using r(2-4) by blast
  qed
qed


lemma list_chain_good:
  assumes "good d" and "is_chain (next_cluster (img (fs_drive st)) st) c cs" and "list_all (addressable st) cs"
    and "length (sector_buffer st) = 512" and "length acc \<le> mx" and "es = dir_entries (img (fs_drive st)) st cs"
  shows "\<exists>b d' acc'. list_chain bus (int mx) c acc st d = Some (int (length acc'), acc', st\<lparr>sector_buffer := b\<rparr>, d')
      \<and> acc' = acc @ take (mx - length acc) (map dirinfo_of (filter visible (live es))) \<and> length b = 512 \<and> good d'"
  using assms
proof (induction cs arbitrary: c st d acc es)
  case Nil
  then have "es = []" "\<not> c < 0x0FFFFFF8" by (simp_all add: dir_entries_def not_less)
  then show ?case using Nil(1,4,5)
    by (subst list_chain.simps) (intro exI [of _ "sector_buffer st"] exI [of _ d] exI [of _ acc], simp)
next
  case (Cons x cs)
  let ?es = "concat (map sector_entries (cluster_sectors (img (fs_drive st)) st c))"
  let ?ds = "dir_entries (img (fs_drive st)) st cs"
  have es: "es = ?es @ ?ds" using Cons.prems(2,6) by (simp add: dir_entries_def)
  have c: "c < 0x0FFFFFF8" using Cons.prems(2) by simp
  show ?case
  proof (cases "length acc < mx")
    case False
    then show ?thesis using Cons.prems(1,4,5)
      by (subst list_chain.simps) (intro exI [of _ "sector_buffer st"] exI [of _ d] exI [of _ acc], simp)
  next
    case True
    have "\<exists>fin acc' b d'. list_sectors bus (int mx) (fat32_cluster_to_sector st c) 0 (spc st) acc st d =
        (Inr fin, acc', st\<lparr>sector_buffer := b\<rparr>, d') \<and> length b = 512 \<and> good d' \<and> length acc' \<le> mx
        \<and> acc' = acc @ take (mx - length acc) (map dirinfo_of (filter visible (live ?es)))
        \<and> (fin \<longrightarrow> live ?es \<noteq> ?es) \<and> (\<not> fin \<longrightarrow> length acc' = mx \<or> live ?es = ?es)"
      by (rule list_sectors_good) (use Cons.prems in simp_all)
    then obtain fin acc1 b d1 where l: "list_sectors bus (int mx) (fat32_cluster_to_sector st c) 0 (spc st) acc st d =
        (Inr fin, acc1, st\<lparr>sector_buffer := b\<rparr>, d1)" "length b = 512" "good d1" "length acc1 \<le> mx"
      "acc1 = acc @ take (mx - length acc) (map dirinfo_of (filter visible (live ?es)))"
      "fin \<longrightarrow> live ?es \<noteq> ?es" "\<not> fin \<longrightarrow> length acc1 = mx \<or> live ?es = ?es" by blast
    show ?thesis
    proof (cases fin)
      case True
      then have "live es = live ?es" using l(6) live_append_ne(1) by (simp add: es)
      then show ?thesis using l True c \<open>length acc < mx\<close> unfolding spc_def
        by (subst list_chain.simps) (intro exI [of _ b] exI [of _ d1] exI [of _ acc1], simp)
    next
      case False
      obtain b2 d2 where n: "fat32_get_next_cluster bus c (st\<lparr>sector_buffer := b\<rparr>) d1 =
          (next_cluster (img (fs_drive st)) st c, st\<lparr>sector_buffer := b2\<rparr>, d2)" "length b2 = 512" "good d2"
        using next_cluster_good [of d1 "st\<lparr>sector_buffer := b\<rparr>" c] l Cons.prems by auto
      have "\<exists>b d' acc'. list_chain bus (int mx) (next_cluster (img (fs_drive st)) st c) acc1 (st\<lparr>sector_buffer := b2\<rparr>) d2 =
          Some (int (length acc'), acc', st\<lparr>sector_buffer := b2, sector_buffer := b\<rparr>, d')
        \<and> acc' = acc1 @ take (mx - length acc1) (map dirinfo_of (filter visible (live ?ds))) \<and> length b = 512 \<and> good d'"
        by (rule Cons.IH) (use Cons.prems n l(4) in simp_all)
      then obtain b3 d3 acc3 where r: "list_chain bus (int mx) (next_cluster (img (fs_drive st)) st c) acc1 (st\<lparr>sector_buffer := b2\<rparr>) d2 =
          Some (int (length acc3), acc3, st\<lparr>sector_buffer := b3\<rparr>, d3)" "length b3 = 512" "good d3"
        "acc3 = acc1 @ take (mx - length acc1) (map dirinfo_of (filter visible (live ?ds)))"
        unfolding buffer_twice by blast
      have "acc3 = acc @ take (mx - length acc) (map dirinfo_of (filter visible (live es)))"
        unfolding r(4) es by (rule list_accumulate [OF l(5) _ Cons.prems(5)]) (use l(7) False in blast)
      moreover have "list_chain bus (int mx) c acc st d = Some (int (length acc3), acc3, st\<lparr>sector_buffer := b3\<rparr>, d3)"
        using l(1) n(1) r(1) False c \<open>length acc < mx\<close> unfolding spc_def by (subst list_chain.simps) simp
      ultimately show ?thesis using r(2,3) by blast
    qed
  qed
qed


lemma handle_at_cluster:
  assumes "handle_at (img (fs_drive st)) st cs p"
  shows "f_current_cluster (fs_file st) < 0x0FFFFFF8 \<longleftrightarrow> p < 512 * spc st * length cs"
    and "p < 512 * spc st * length cs \<Longrightarrow> p div (512 * spc st) < length cs \<and>
      f_current_cluster (fs_file st) = cs ! (p div (512 * spc st)) \<and> addressable st (f_current_cluster (fs_file st)) \<and>
      is_chain (next_cluster (img (fs_drive st)) st) (next_cluster (img (fs_drive st)) st (f_current_cluster (fs_file st)))
        (drop (Suc (p div (512 * spc st))) cs)"
proof -
  let ?k = "p div (512 * spc st)"
  have pos: "0 < 512 * spc st" using assms by (simp add: handle_at_def)
  have lt: "p < 512 * spc st * length cs \<longleftrightarrow> ?k < length cs"
    using pos by (simp add: div_less_iff_less_mult mult.commute)
  have ch: "is_chain (next_cluster (img (fs_drive st)) st) (f_current_cluster (fs_file st)) (drop ?k cs)"
    using assms by (simp add: handle_at_def)
  show "p < 512 * spc st * length cs \<Longrightarrow> ?k < length cs \<and>
      f_current_cluster (fs_file st) = cs ! ?k \<and> addressable st (f_current_cluster (fs_file st)) \<and>
      is_chain (next_cluster (img (fs_drive st)) st) (next_cluster (img (fs_drive st)) st (f_current_cluster (fs_file st)))
        (drop (Suc ?k) cs)"
    using ch assms unfolding lt
    by (auto simp: Cons_nth_drop_Suc [symmetric] handle_at_def list_all_length)
  show "f_current_cluster (fs_file st) < 0x0FFFFFF8 \<longleftrightarrow> p < 512 * spc st * length cs"
  proof (cases "?k < length cs")
    case True
    then show ?thesis using ch lt by (simp add: Cons_nth_drop_Suc [symmetric])
  next
    case False
    then show ?thesis using ch lt by (simp add: not_less)
  qed
qed

lemma read_loop_round:
  assumes "P = f_position (fs_file st)" and "C = f_current_cluster (fs_file st)"
    and "S = ucast (sectors_per_cluster (bpb st)) * 512" and "0 < n" and "C < 0x0FFFFFF8" and "S \<noteq> 0"
    and "read_sector bus (fat32_cluster_to_sector st C + P mod S div 512) st d = (0, st\<lparr>sector_buffer := b\<rparr>, d1)"
    and "W = (if 512 - P mod S mod 512 > (if S - P mod S > n then n else S - P mod S)
        then (if S - P mod S > n then n else S - P mod S) else 512 - P mod S mod 512)"
    and "st2 = st\<lparr>sector_buffer := b, fs_file := (fs_file st)\<lparr>f_position := P + W\<rparr>\<rparr>"
  shows "read_loop bus n acc st d =
    (let (st3, d3) = (if (P + W) mod S = 0 then
        let (c, st', d') = fat32_get_next_cluster bus C st2 d1
        in (st'\<lparr>fs_file := (fs_file st')\<lparr>f_current_cluster := c\<rparr>\<rparr>, d') else (st2, d1))
     in read_loop bus (n - W) (acc @ bytes b (unat (P mod S mod 512)) (unat W)) st3 d3)"
  by (subst read_loop.simps) (use assms in \<open>simp add: Let_def\<close>)

lemma read_step:
  assumes "good d" and "length (sector_buffer st) = 512" and "handle_at (img (fs_drive st)) st cs p"
    and "p < 512 * spc st * length cs" and "0 < n" and "m = min (512 - p mod 512) (unat n)"
  shows "\<exists>b c d'. read_loop bus n acc st d =
      read_loop bus (n - of_nat m) (acc @ take m (drop p (chain_bytes (img (fs_drive st)) st cs))) (seek (p + m) c (st\<lparr>sector_buffer := b\<rparr>)) d'
    \<and> length b = 512 \<and> good d' \<and> handle_at (img (fs_drive st)) (seek (p + m) c st) cs (p + m)"
proof -
  define s where "s = spc st"
  define P where "P = f_position (fs_file st)"
  define C where "C = f_current_cluster (fs_file st)"
  define S where "S = (ucast (sectors_per_cluster (bpb st)) * 512 :: u32)"
  have s: "0 < s" "s \<le> 255" using assms(3) unat_u8_less [of "sectors_per_cluster (bpb st)"]
    by (auto simp: handle_at_def s_def spc_def simp del: unat_u8_less)
  have S: "S = of_nat (512 * s)" by (simp add: S_def s_def spc_def)
  have P: "unat P = p" using assms(3) by (simp add: handle_at_def P_def)
  note w = read_round(1) [OF S s] read_round(2-4,6) [OF S s, of P, unfolded P]
    read_round(5) [OF S s, where P = P and N = n, unfolded P]
  note cl = handle_at_cluster(1) [OF assms(3), THEN iffD2, OF assms(4)] handle_at_cluster(2) [OF assms(3,4)]
  have C: "C < 0x0FFFFFF8" "p div (512 * s) < length cs" "C = cs ! (p div (512 * s))" "addressable st C"
    "is_chain (next_cluster (img (fs_drive st)) st) (next_cluster (img (fs_drive st)) st C) (drop (Suc (p div (512 * s))) cs)"
    using cl unfolding C_def s_def by blast+
  define i where "i = p mod (512 * s) div 512"
  define b where "b = img (fs_drive st) (unat (fat32_cluster_to_sector st C + of_nat i))"
  have m: "m \<le> 512 - p mod 512" "0 < m" "m \<le> unat n" using assms(5,6) by (simp_all add: word_gt_0 unat_gt_0)
  have bytes: "take m (drop p (chain_bytes (img (fs_drive st)) st cs)) = take m (drop (p mod 512) b)" and i: "i < s"
    using chain_bytes_at(1) [of "img (fs_drive st)" p st cs m i] chain_bytes_at(2) [of "img (fs_drive st)" p st cs m i]
      C(2,3) s(1) m(1) by (simp_all add: b_def i_def s_def)
  obtain d1 where d1: "read_sector bus (fat32_cluster_to_sector st C + of_nat i) st d = (0, st\<lparr>sector_buffer := b\<rparr>, d1)" "good d1"
    using read_sector_good [OF assms(1) addressable_sector [OF C(4)] assms(2)] i by (auto simp: b_def s_def)
  define W where "W = (if 512 - P mod S mod 512 > (if S - P mod S > n then n else S - P mod S)
        then (if S - P mod S > n then n else S - P mod S) else 512 - P mod S mod 512)"
  have W: "unat W = m" using w(6) unfolding W_def assms(6) .
  have end_le: "p + m \<le> 512 * s * length cs"
  proof -
    have "p div 512 < s * length cs" using assms(4) by (simp add: s_def div_less_iff_less_mult mult.commute mult.left_commute)
    then have "512 * (p div 512) + 512 \<le> 512 * (s * length cs)" by (metis Suc_leI mult_Suc_right mult_le_mono2 add.commute)
    moreover have "512 * (p div 512) + p mod 512 = p" "p mod 512 < 512" by simp_all
    ultimately show ?thesis using m(1) unfolding mult.assoc by linarith
  qed
  have big: "512 * s * length cs < 2 ^ 32" using assms(3) by (simp add: handle_at_def s_def)
  have PW: "unat (P + W) = p + m" using end_le big by (subst unat_add_small) (simp_all add: P W)
  then have PWn: "P + W = of_nat (p + m)" by (metis of_nat_unat ucast_id)
  have mod0: "(P + W) mod S = 0 \<longleftrightarrow> (p + m) mod (512 * s) = 0"
    by (simp add: unat_eq_0 [symmetric] unat_mod PW w(1) del: unat_eq_0)
  have nW: "n - W = n - of_nat m" by (metis W of_nat_unat ucast_id)
  let ?st2 = "seek (p + m) C (st\<lparr>sector_buffer := b\<rparr>)"
  have st2: "st\<lparr>sector_buffer := b, fs_file := (fs_file st)\<lparr>f_position := P + W\<rparr>\<rparr> = ?st2"
    by (simp add: seek_def PWn C_def)
  have lb: "length b = 512" by (simp add: b_def)
  have round: "read_loop bus n acc st d =
    (let (st3, d3) = (if (P + W) mod S = 0 then
        let (c, st', d') = fat32_get_next_cluster bus C ?st2 d1
        in (st'\<lparr>fs_file := (fs_file st')\<lparr>f_current_cluster := c\<rparr>\<rparr>, d') else (?st2, d1))
     in read_loop bus (n - W) (acc @ bytes b (unat (P mod S mod 512)) (unat W)) st3 d3)"
    unfolding st2 [symmetric]
    by (rule read_loop_round [OF P_def C_def S_def assms(5) C(1) _ _ W_def refl])
      (use w(1,3) s(1) d1(1) in \<open>auto simp: i_def\<close>)
  have data: "bytes b (unat (P mod S mod 512)) (unat W) = take m (drop p (chain_bytes (img (fs_drive st)) st cs))"
    by (simp add: bytes_def w(4) W bytes)
  have k: "p + m \<le> 512 * s * Suc (p div (512 * s))" "512 * s * (p div (512 * s)) < p + m"
  proof -
    have "512 * s * (p div (512 * s)) + p mod (512 * s) = p" "p mod (512 * s) < 512 * s" using s(1) by simp_all
    then show "p + m \<le> 512 * s * Suc (p div (512 * s))" "512 * s * (p div (512 * s)) < p + m"
      unfolding mult_Suc_right using m(1,2) w(5) by linarith+
  qed
  have at: "handle_at (img (fs_drive st)) (seek (p + m) c st) cs (p + m)"
    if "is_chain (next_cluster (img (fs_drive st)) st) c (drop ((p + m) div (512 * s)) cs)" for c
    using that assms(3) end_le big PW [unfolded PWn] by (simp add: handle_at_def s_def) (simp add: seek_def)
  show ?thesis
  proof (cases "(p + m) mod (512 * s) = 0")
    case True
    have "(p + m) div (512 * s) = Suc (p div (512 * s))"
    proof -
      have q: "p + m = 512 * s * ((p + m) div (512 * s))" 
        using mult_div_mod_eq [of "512 * s" "p + m"] unfolding True by simp
      have "p div (512 * s) < (p + m) div (512 * s)" using k(2) q by (metis mult_less_cancel1)
      moreover have "(p + m) div (512 * s) \<le> Suc (p div (512 * s))" using k(1) q s(1) by (metis mult_le_cancel1 mult_pos_pos zero_less_numeral)
      ultimately show ?thesis by linarith
    qed
    then have at': "handle_at (img (fs_drive st)) (seek (p + m) (next_cluster (img (fs_drive st)) st C) st) cs (p + m)"
      using at C(5) by simp
    obtain b2 d2 where n2: "fat32_get_next_cluster bus C ?st2 d1 =
        (next_cluster (img (fs_drive st)) st C, ?st2\<lparr>sector_buffer := b2\<rparr>, d2)" "length b2 = 512" "good d2"
      using next_cluster_good [of d1 ?st2 C] d1(2) C(4) lb by auto
    have "(?st2\<lparr>sector_buffer := b2\<rparr>)\<lparr>fs_file := (fs_file (?st2\<lparr>sector_buffer := b2\<rparr>))\<lparr>f_current_cluster := next_cluster (img (fs_drive st)) st C\<rparr>\<rparr> =
        seek (p + m) (next_cluster (img (fs_drive st)) st C) (st\<lparr>sector_buffer := b2\<rparr>)"
      by (simp add: seek_def)
    then have "read_loop bus n acc st d = read_loop bus (n - of_nat m) (acc @ take m (drop p (chain_bytes (img (fs_drive st)) st cs)))
        (seek (p + m) (next_cluster (img (fs_drive st)) st C) (st\<lparr>sector_buffer := b2\<rparr>)) d2"
      using round data nW n2(1) mod0 True by (simp add: Let_def)
    then show ?thesis using n2(2,3) at' by blast
  next
    case False
    have "p + m \<noteq> 512 * s * Suc (p div (512 * s))" using False by (metis mod_mult_self1_is_0)
    then have "(p + m) div (512 * s) = p div (512 * s)"
      using k by (intro div_nat_eqI) (simp_all add: mult.commute)
    moreover have "is_chain (next_cluster (img (fs_drive st)) st) C (drop (p div (512 * s)) cs)"
      using assms(3) by (simp add: handle_at_def s_def C_def)
    ultimately have "handle_at (img (fs_drive st)) (seek (p + m) C st) cs (p + m)" by (intro at) simp
    moreover have "read_loop bus n acc st d = read_loop bus (n - of_nat m)
        (acc @ take m (drop p (chain_bytes (img (fs_drive st)) st cs))) ?st2 d1"
      using round data nW mod0 False by (simp add: Let_def)
    ultimately show ?thesis using lb d1(2) by blast
  qed
qed

lemma read_loop_good:
  assumes "good d" and "length (sector_buffer st) = 512" and "handle_at (img (fs_drive st)) st cs p"
    and "q = min (p + unat n) (512 * spc st * length cs)"
  shows "\<exists>b c d'. read_loop bus n acc st d =
      Some (acc @ take (unat n) (drop p (chain_bytes (img (fs_drive st)) st cs)), seek q c (st\<lparr>sector_buffer := b\<rparr>), d')
    \<and> length b = 512 \<and> good d' \<and> handle_at (img (fs_drive st)) (seek q c st) cs q"
  using assms
proof (induction "unat n" arbitrary: n acc st d p rule: less_induct)
  case less
  have len: "length (chain_bytes (img (fs_drive st)) st cs) = 512 * spc st * length cs"
    by (rule length_chain_bytes) simp
  have cur: "f_current_cluster (fs_file st) < 0x0FFFFFF8 \<longleftrightarrow> p < 512 * spc st * length cs"
    by (rule handle_at_cluster(1) [OF less.prems(3)])
  show ?case
  proof (cases "0 < n \<and> p < 512 * spc st * length cs")
    case False
    have p: "p \<le> 512 * spc st * length cs" "unat (f_position (fs_file st)) = p" using less.prems(3) by (simp_all add: handle_at_def)
    then have "q = p" "take (unat n) (drop p (chain_bytes (img (fs_drive st)) st cs)) = []"
      using False less.prems(4) len by (auto simp: word_gt_0 unat_gt_0 unat_eq_0)
    moreover have "st = seek p (f_current_cluster (fs_file st)) (st\<lparr>sector_buffer := sector_buffer st\<rparr>)"
      using p(2) by (auto simp: seek_def)
    moreover have "read_loop bus n acc st d = Some (acc, st, d)"
      using False cur by (subst read_loop.simps) auto
    ultimately show ?thesis using less.prems(1-3)
      by (intro exI [of _ "sector_buffer st"] exI [of _ "f_current_cluster (fs_file st)"] exI [of _ d]) simp
  next
    case True
    define m where "m = min (512 - p mod 512) (unat n)"
    obtain b c d1 where r: "read_loop bus n acc st d = read_loop bus (n - of_nat m)
        (acc @ take m (drop p (chain_bytes (img (fs_drive st)) st cs))) (seek (p + m) c (st\<lparr>sector_buffer := b\<rparr>)) d1"
      "length b = 512" "good d1" "handle_at (img (fs_drive st)) (seek (p + m) c st) cs (p + m)"
      using read_step [OF less.prems(1-3) _ _ m_def, of acc] True by blast
    have m: "0 < m" "m \<le> unat n" using True by (simp_all add: m_def word_gt_0 unat_gt_0)
    have "m < 2 ^ 32" using le_less_trans [OF m(2) unsigned_less [of n]] by simp
    then have nm: "unat (n - of_nat m) = unat n - m"
      using m by (subst unat_sub) (simp_all add: word_le_nat_alt unat_of_nat less_imp_le)
    let ?st = "seek (p + m) c (st\<lparr>sector_buffer := b\<rparr>)"
    have "\<exists>b c d'. read_loop bus (n - of_nat m) (acc @ take m (drop p (chain_bytes (img (fs_drive st)) st cs))) ?st d1 =
      Some ((acc @ take m (drop p (chain_bytes (img (fs_drive st)) st cs))) @ take (unat (n - of_nat m)) (drop (p + m) (chain_bytes (img (fs_drive ?st)) ?st cs)),
        seek q c (?st\<lparr>sector_buffer := b\<rparr>), d')
      \<and> length b = 512 \<and> good d' \<and> handle_at (img (fs_drive ?st)) (seek q c ?st) cs q"
      by (rule less.hyps) (use m nm r(2-4) less.prems(4) in simp_all)
    moreover have "take m (drop p B) @ take (unat n - m) (drop (p + m) B) = take (unat n) (drop p B)" for B :: "u8 list"
      using m(2) by (metis add.commute drop_drop le_add_diff_inverse take_add)
    ultimately show ?thesis using r(1) by (simp add: nm)
  qed
qed

end

subsection \<open>Mounted volumes\<close>

text \<open>
  A mounted volume: a drive with the documented behaviour that is ready, and a driver that was
  initialised. The image is the content of the selected disk.
\<close>

definition mounted :: "'d bus \<Rightarrow> ('d \<Rightarrow> ata) \<Rightarrow> fat32 \<Rightarrow> 'd \<Rightarrow> bool" where
  "mounted bus view st d \<longleftrightarrow> ata_ok bus view \<and> ata_ready (view d) \<and> length (sector_buffer st) = 512 \<and> initialized st \<noteq> 0"

definition disk_image :: "('d \<Rightarrow> ata) \<Rightarrow> fat32 \<Rightarrow> 'd \<Rightarrow> nat \<Rightarrow> u8 list" where
  "disk_image view st d = disk_bytes (disks (view d)) (fs_drive st)"

lemma mounted_block_device:
  assumes "mounted bus view st d"
  shows "block_device bus (\<lambda>d'. ata_ready (view d') \<and> disks (view d') = disks (view d)) (disks (view d))"
  using assms by (intro ata_block_device) (simp_all add: mounted_def ata_ready_def)

lemma mounted_good:
  assumes "mounted bus view st d"
  shows "ata_ready (view d) \<and> disks (view d) = disks (view d)" and "length (sector_buffer st) = 512" and "initialized st \<noteq> 0"
  using assms by (simp_all add: mounted_def)

lemma length_string_to_name: "length (fat32_string_to_name s) = 11"
proof -
  have l: "length (put_at i xs b) = length b" if "i + length xs \<le> length b" for i xs and b :: "u8 list"
    using that by (simp add: put_at_def)
  have k: "length (takeWhile P (take k t)) \<le> k" for P k and t :: "u8 list"
    using length_takeWhile_le [of P "take k t"] by simp
  have "length (takeWhile P (take 8 s)) \<le> 11" for P using k [of P 8 s] by linarith
  moreover have "8 + length (takeWhile P (take 3 t)) \<le> 11" for P and t :: "u8 list" using k [of P 3 t] by linarith
  ultimately show ?thesis unfolding fat32_string_to_name_def Let_def by (simp add: l)
qed

lemma string_to_name_no_nul: "0 \<notin> set (fat32_string_to_name s)"
proof -
  have p: "0 \<notin> set (put_at i xs b)" if "0 \<notin> set xs" "0 \<notin> set b" for i xs and b :: "u8 list"
    using that by (auto simp: put_at_def dest: in_set_takeD in_set_dropD)
  have w: "0 \<notin> set (takeWhile (\<lambda>c. c \<noteq> 0 \<and> Q c) (t :: u8 list))" "0 \<notin> set (takeWhile (\<lambda>c. c \<noteq> 0) (t :: u8 list))" for Q t
    by (auto dest: set_takeWhileD)
  have "0 \<notin> set (replicate 11 (ord_c CHR '' ''))" by (simp add: ord_c_def of_char_def)
  then show ?thesis unfolding fat32_string_to_name_def Let_def by (simp del: set_replicate add: p w)
qed

lemma dir_entries_names:
  assumes "\<And>n. length (img n) = 512" and "e \<in> set (dir_entries img st cs)"
  shows "length (de_name e) = 11"
proof -
  obtain c i where "e \<in> set (sector_entries (img i))"
    using assms(2) by (auto simp: dir_entries_def cluster_sectors_def)
  then show ?thesis using assms(1) [of i] by (auto simp: sector_entries_def direntry_of_def bytes_def)
qed

lemma find_matches:
  assumes "\<And>n. length (img n) = 512"
  shows "find (matches (fat32_string_to_name s)) (live (dir_entries img st cs)) =
    find (\<lambda>e. hd (de_name e) \<noteq> 0xE5 \<and> de_attr e \<noteq> 0x0F \<and> de_name e = fat32_string_to_name s) (live (dir_entries img st cs))"
proof (rule find_cong [OF refl])
  fix e assume "e \<in> set (live (dir_entries img st cs))"
  then have "e \<in> set (dir_entries img st cs)" by (auto simp: live_def dest: set_takeWhileD)
  then have "length (de_name e) = 11" by (rule dir_entries_names [OF assms])
  then show "matches (fat32_string_to_name s) e =
      (hd (de_name e) \<noteq> 0xE5 \<and> de_attr e \<noteq> 0x0F \<and> de_name e = fat32_string_to_name s)"
    using strncmp_eq [OF _ length_string_to_name string_to_name_no_nul] by (simp add: matches_def)
qed

lemma fat32_open_spec:
  assumes "mounted bus view st d" and "is_chain (next_cluster (disk_image view st d) st) (root_dir_cluster st) cs"
    and "list_all (addressable st) cs"
  shows "\<exists>b d'. ata_ready (view d') \<and> disks (view d') = disks (view d) \<and> length b = 512 \<and> fat32_open bus filename st d =
    Some (case find (\<lambda>e. hd (de_name e) \<noteq> 0xE5 \<and> de_attr e \<noteq> 0x0F \<and> de_name e = fat32_string_to_name filename)
                (live (dir_entries (disk_image view st d) st cs)) of
        None \<Rightarrow> (False, st\<lparr>sector_buffer := b\<rparr>, d')
      | Some e \<Rightarrow> (True, st\<lparr>sector_buffer := b, fs_file := file_of e\<rparr>, d'))"
proof -
  note bd = mounted_block_device [OF assms(1)]
  have len: "length (disk_image view st d n) = 512" for n by (simp add: disk_image_def block_device.length_img [OF bd])
  obtain b d' where o: "open_chain bus (fat32_string_to_name filename) (root_dir_cluster st) st d =
      Some (find (matches (fat32_string_to_name filename)) (live (dir_entries (disk_image view st d) st cs)), st\<lparr>sector_buffer := b\<rparr>, d')"
    "length b = 512" "ata_ready (view d') \<and> disks (view d') = disks (view d)"
    using block_device.open_chain_good [OF bd mounted_good(1) [OF assms(1)] assms(2) [unfolded disk_image_def] assms(3) mounted_good(2) [OF assms(1)]]
    unfolding disk_image_def by blast
  then show ?thesis using mounted_good(3) [OF assms(1)]
    by (intro exI [of _ b] exI [of _ d']) (simp add: fat32_open_def find_matches [OF len] split: option.split)
qed

text \<open>
  C11: \<open>fat32_open\<close> returns, for every root directory whose cluster chain ends, and finds exactly the
  first entry in front of the end marker that is neither deleted nor part of a long name and whose
  8.3 name is that of the file name; the handle is then at the start of that file. It reports
  that there is no file exactly when there is no such entry.
\<close>

theorem fat32_open_finds:
  assumes "mounted bus view st d" and "is_chain (next_cluster (disk_image view st d) st) (root_dir_cluster st) cs"
    and "list_all (addressable st) cs"
  shows "\<exists>b d'. ata_ready (view d') \<and> disks (view d') = disks (view d) \<and> length b = 512 \<and> fat32_open bus filename st d =
    Some (case find (\<lambda>e. hd (de_name e) \<noteq> 0xE5 \<and> de_attr e \<noteq> 0x0F \<and> de_name e = fat32_string_to_name filename)
                (live (dir_entries (disk_image view st d) st cs)) of
        None \<Rightarrow> (False, st\<lparr>sector_buffer := b\<rparr>, d')
      | Some e \<Rightarrow> (True, st\<lparr>sector_buffer := b, fs_file := file_of e\<rparr>, d'))"
  using assms by (rule fat32_open_spec)

lemma fat32_list_dir_spec:
  assumes "mounted bus view st d" and "is_chain (next_cluster (disk_image view st d) st) (root_dir_cluster st) cs"
    and "list_all (addressable st) cs" and "entries \<noteq> 0" and "0 < mx"
  shows "\<exists>b d'. ata_ready (view d') \<and> disks (view d') = disks (view d) \<and> length b = 512 \<and> fat32_list_dir bus entries (int mx) st d =
    (let infos = take mx (map dirinfo_of (filter (\<lambda>e. hd (de_name e) \<noteq> 0xE5 \<and> de_attr e \<noteq> 0x0F \<and> de_attr e AND 0x08 = 0)
        (live (dir_entries (disk_image view st d) st cs))))
     in Some (int (length infos), infos, st\<lparr>sector_buffer := b\<rparr>, d'))"
proof -
  note bd = mounted_block_device [OF assms(1)]
  have v: "(\<lambda>e. hd (de_name e) \<noteq> 0xE5 \<and> de_attr e \<noteq> 0x0F \<and> de_attr e AND 0x08 = 0) = visible"
    by (simp add: visible_def fun_eq_iff)
  obtain b d' acc where l: "list_chain bus (int mx) (root_dir_cluster st) [] st d = Some (int (length acc), acc, st\<lparr>sector_buffer := b\<rparr>, d')"
    "acc = take mx (map dirinfo_of (filter visible (live (dir_entries (disk_image view st d) st cs))))"
    "length b = 512" "ata_ready (view d') \<and> disks (view d') = disks (view d)"
    using block_device.list_chain_good [OF bd mounted_good(1) [OF assms(1)] assms(2) [unfolded disk_image_def] assms(3) mounted_good(2) [OF assms(1)] _ refl, of "[]" mx]
    unfolding disk_image_def by auto
  then show ?thesis using mounted_good(3) [OF assms(1)] assms(4,5)
    by (intro exI [of _ b] exI [of _ d']) (simp add: fat32_list_dir_def v del: take_map)
qed

text \<open>
  C24: \<open>fat32_list_dir\<close> returns, for every root directory whose cluster chain ends, and lists exactly
  the entries in front of the end marker that are not deleted, not part of a long name and not a
  volume label, in directory order and at most as many as asked for; the result is their number.
\<close>

theorem fat32_list_dir_exact:
  assumes "mounted bus view st d" and "is_chain (next_cluster (disk_image view st d) st) (root_dir_cluster st) cs"
    and "list_all (addressable st) cs" and "entries \<noteq> 0" and "0 < mx"
  shows "\<exists>b d'. ata_ready (view d') \<and> disks (view d') = disks (view d) \<and> length b = 512 \<and> fat32_list_dir bus entries (int mx) st d =
    (let infos = take mx (map dirinfo_of (filter (\<lambda>e. hd (de_name e) \<noteq> 0xE5 \<and> de_attr e \<noteq> 0x0F \<and> de_attr e AND 0x08 = 0)
        (live (dir_entries (disk_image view st d) st cs))))
     in Some (int (length infos), infos, st\<lparr>sector_buffer := b\<rparr>, d'))"
  using assms by (rule fat32_list_dir_spec)

subsection \<open>Reading files\<close>

lemma seek_fields [simp]:
  "f_valid (fs_file (seek p c st)) = f_valid (fs_file st)" "f_size (fs_file (seek p c st)) = f_size (fs_file st)"
  "initialized (seek p c st) = initialized st" "sector_buffer (seek p c st) = sector_buffer st"
  "fs_drive (seek p c st) = fs_drive st"
  by (simp_all add: seek_def)

lemma fat32_read_loop:
  assumes "mounted bus view st d" and "handle_at (disk_image view st d) st cs p" and "f_valid (fs_file st) \<noteq> 0"
    and "k = (if f_position (fs_file st) + n > f_size (fs_file st) then f_size (fs_file st) - f_position (fs_file st) else n)"
    and "data = take (unat k) (drop p (chain_bytes (disk_image view st d) st cs))"
    and "q = min (p + unat k) (512 * spc st * length cs)"
  shows "\<exists>b c d'. fat32_read bus True n st d = Some (sint (of_nat (length data) :: u32), data, seek q c (st\<lparr>sector_buffer := b\<rparr>), d')
    \<and> length b = 512 \<and> (ata_ready (view d') \<and> disks (view d') = disks (view d)) \<and> handle_at (disk_image view st d) (seek q c st) cs q"
proof -
  note bd = mounted_block_device [OF assms(1)]
  obtain b c d' where r: "read_loop bus k [] st d = Some ([] @ data, seek q c (st\<lparr>sector_buffer := b\<rparr>), d')" "length b = 512"
    "ata_ready (view d') \<and> disks (view d') = disks (view d)" "handle_at (disk_image view st d) (seek q c st) cs q"
    using block_device.read_loop_good [OF bd mounted_good(1,2) [OF assms(1)] assms(2) [unfolded disk_image_def] assms(6), of "[]"]
    unfolding disk_image_def assms(5) by blast
  have "fat32_read bus True n st d = Some (sint (of_nat (length data) :: u32), data, seek q c (st\<lparr>sector_buffer := b\<rparr>), d')"
    using r(1) mounted_good(3) [OF assms(1)] assms(3) unfolding fat32_read_def Let_def assms(4) [symmetric] by simp
  then show ?thesis using r(2-4) by blast
qed

lemma fat32_read_exact:
  assumes "mounted bus view st d" and "handle_at (disk_image view st d) st cs p" and "f_valid (fs_file st) \<noteq> 0"
    and "p \<le> unat (f_size (fs_file st))" and "unat (f_size (fs_file st)) \<le> 512 * spc st * length cs"
    and "unat (f_size (fs_file st)) + unat n < 2 ^ 32"
    and "data = take (unat n) (drop p (take (unat (f_size (fs_file st))) (chain_bytes (disk_image view st d) st cs)))"
    and "q = p + length data"
  shows "\<exists>b c d'. fat32_read bus True n st d = Some (sint (of_nat (length data) :: u32), data, seek q c (st\<lparr>sector_buffer := b\<rparr>), d')
    \<and> length b = 512 \<and> (ata_ready (view d') \<and> disks (view d') = disks (view d)) \<and> handle_at (disk_image view st d) (seek q c st) cs q"
proof -
  define k where "k = (if f_position (fs_file st) + n > f_size (fs_file st) then f_size (fs_file st) - f_position (fs_file st) else n)"
  have p: "unat (f_position (fs_file st)) = p" using assms(2) by (simp add: handle_at_def)
  have "unat (f_position (fs_file st) + n) = p + unat n" using p assms(4,6) by (subst unat_add_lem [THEN iffD1]) simp_all
  moreover have "unat (f_size (fs_file st) - f_position (fs_file st)) = unat (f_size (fs_file st)) - p"
    using p assms(4) by (simp add: unat_sub word_le_nat_alt)
  ultimately have k: "unat k = min (unat n) (unat (f_size (fs_file st)) - p)"
    using assms(4) by (auto simp: k_def word_less_nat_alt)
  have "length (disk_image view st d i) = 512" for i
    by (simp add: disk_image_def block_device.length_img [OF mounted_block_device [OF assms(1)]])
  then have "length (chain_bytes (disk_image view st d) st cs) = 512 * spc st * length cs" by (rule length_chain_bytes)
  then have "data = take (unat k) (drop p (chain_bytes (disk_image view st d) st cs))" "q = min (p + unat k) (512 * spc st * length cs)"
    using assms(4,5,7,8) by (simp_all add: k drop_take min.commute)
  then show ?thesis by (rule fat32_read_loop [OF assms(1-3) k_def])
qed

text \<open>A program that reads a file in pieces of the given sizes, and collects the bytes.\<close>

fun fat32_reads :: "'d bus \<Rightarrow> u32 list \<Rightarrow> fat32 \<Rightarrow> 'd \<Rightarrow> (u8 list \<times> fat32 \<times> 'd) option" where
  "fat32_reads bus [] st d = Some ([], st, d)"
| "fat32_reads bus (n # ns) st d = do {
     (_, data, st, d) \<leftarrow> fat32_read bus True n st d;
     (rest, st, d) \<leftarrow> fat32_reads bus ns st d;
     Some (data @ rest, st, d) }"

lemma take_drop_glue: "take n (drop p xs) @ take m (drop (p + length (take n (drop p xs))) xs) = take (n + m) (drop p xs)"
proof (cases "n \<le> length (drop p xs)")
  case True
  then show ?thesis by (simp only: length_take min_absorb2 take_add drop_drop add.commute [of p n])
qed simp

lemma fat32_reads_from:
  assumes "mounted bus view st d" and "handle_at (disk_image view st d) st cs p" and "f_valid (fs_file st) \<noteq> 0"
    and "p \<le> unat (f_size (fs_file st))" and "unat (f_size (fs_file st)) \<le> 512 * spc st * length cs"
    and "list_all (\<lambda>n. unat (f_size (fs_file st)) + unat n < 2 ^ 32) ns"
  shows "\<exists>st' d'. fat32_reads bus ns st d = Some (take (sum_list (map unat ns))
      (drop p (take (unat (f_size (fs_file st))) (chain_bytes (disk_image view st d) st cs))), st', d')"
  using assms
proof (induction ns arbitrary: st d p)
  case (Cons n ns)
  let ?F = "take (unat (f_size (fs_file st))) (chain_bytes (disk_image view st d) st cs)"
  define data where "data = take (unat n) (drop p ?F)"
  obtain b c d' where r: "fat32_read bus True n st d =
      Some (sint (of_nat (length data) :: u32), data, seek (p + length data) c (st\<lparr>sector_buffer := b\<rparr>), d')" "length b = 512"
    "ata_ready (view d') \<and> disks (view d') = disks (view d)" "handle_at (disk_image view st d) (seek (p + length data) c st) cs (p + length data)"
    using fat32_read_exact [OF Cons.prems(1-5) _ data_def refl] Cons.prems(6) by auto
  let ?st = "seek (p + length data) c (st\<lparr>sector_buffer := b\<rparr>)"
  have img: "disk_image view ?st d' = disk_image view st d" using r(3) by (simp add: disk_image_def)
  have "length data \<le> unat (f_size (fs_file st)) - p" by (simp add: data_def)
  then have "p + length data \<le> unat (f_size (fs_file ?st))" using Cons.prems(4) by simp
  moreover have "mounted bus view ?st d'" using Cons.prems(1) r(2,3) by (simp add: mounted_def)
  moreover have "handle_at (disk_image view ?st d') ?st cs (p + length data)" using r(4) unfolding img by simp
  ultimately obtain st' d2 where "fat32_reads bus ns ?st d' = Some (take (sum_list (map unat ns))
      (drop (p + length data) (take (unat (f_size (fs_file ?st))) (chain_bytes (disk_image view ?st d') ?st cs))), st', d2)"
    using Cons.IH [of ?st d' "p + length data"] Cons.prems(3,5,6) by auto
  moreover have "data @ take m (drop (p + length data) ?F) = take (unat n + m) (drop p ?F)" for m
    unfolding data_def by (rule take_drop_glue)
  ultimately show ?case using r(1) unfolding img by simp
qed simp

text \<open>
  C8: reading a file in pieces is reading it at once. After an open, for any sequence of sizes that
  do not wrap around when they are added to the size of the file in 32 bits, every \<open>fat32_read\<close>
  returns and the pieces are together exactly that many bytes of the file, from its start: the bytes
  of its cluster chain cut at the size in its directory entry, no byte lost or repeated at a sector
  or cluster boundary and none behind the end of the file.
\<close>

theorem fat32_read_pieces:
  assumes "mounted bus view st d" and "fs_file st = file_of e"
    and "is_chain (next_cluster (disk_image view st d) st) (f_first_cluster (file_of e)) cs" and "list_all (addressable st) cs"
    and "0 < spc st" and "unat (file_size e) \<le> 512 * spc st * length cs" and "512 * spc st * length cs < 2 ^ 32"
    and "list_all (\<lambda>n. unat (file_size e) + unat n < 2 ^ 32) ns"
  shows "\<exists>st' d'. fat32_reads bus ns st d = Some (take (sum_list (map unat ns))
    (take (unat (file_size e)) (chain_bytes (disk_image view st d) st cs)), st', d')"
  using fat32_reads_from [OF assms(1), of cs 0 ns] assms(2-) by (simp add: handle_at_def file_of_def Let_def)

text \<open>
  C32: the size check of \<open>fat32_read\<close> adds the position and the size in 32 bits. When the sum wraps
  to a number within the file, the check passes and the read runs to the end of the last cluster:
  the bytes behind the end of the file are handed out.
\<close>

theorem fat32_read_wraps_past_end:
  assumes "mounted bus view st d" and "handle_at (disk_image view st d) st cs p" and "f_valid (fs_file st) \<noteq> 0"
    and "f_position (fs_file st) + n \<le> f_size (fs_file st)" and "512 * spc st * length cs \<le> p + unat n"
  shows "\<exists>st' d'. fat32_read bus True n st d = Some (sint (of_nat (512 * spc st * length cs - p) :: u32),
    drop p (chain_bytes (disk_image view st d) st cs), st', d')"
proof -
  have "length (disk_image view st d i) = 512" for i
    by (simp add: disk_image_def block_device.length_img [OF mounted_block_device [OF assms(1)]])
  then have "length (chain_bytes (disk_image view st d) st cs) = 512 * spc st * length cs" by (rule length_chain_bytes)
  moreover from this have "take (unat n) (drop p (chain_bytes (disk_image view st d) st cs)) = drop p (chain_bytes (disk_image view st d) st cs)"
    using assms(5) by simp
  ultimately show ?thesis
    using fat32_read_loop [OF assms(1-3) refl refl refl, of n] assms(4) by (auto simp: not_less [symmetric])
qed

subsection \<open>Names and damaged chains\<close>

text \<open>The 11 bytes of an 8.3 name: both parts filled up with spaces.\<close>

definition name83 :: "u8 list \<Rightarrow> u8 list \<Rightarrow> u8 list" where
  "name83 pre ext = pre @ replicate (8 - length pre) 32 @ ext @ replicate (3 - length ext) 32"

definition plain :: "u8 list \<Rightarrow> bool" where
  "plain s \<longleftrightarrow> list_all (\<lambda>c. c \<noteq> 0 \<and> c \<noteq> 32 \<and> c \<noteq> ord_c CHR ''.'') s"

lemma plain_parts:
  assumes "plain s" and "length s \<le> n"
  shows "takeWhile (\<lambda>c. c \<noteq> 32) (s @ replicate k 32) = s"
    and "takeWhile (\<lambda>c. c \<noteq> 0 \<and> c \<noteq> ord_c CHR ''.'') (take n (s @ ord_c CHR ''.'' # r)) = s"
    and "takeWhile (\<lambda>c. c \<noteq> 0 \<and> c \<noteq> ord_c CHR ''.'') (take n s) = s" and "takeWhile (\<lambda>c. c \<noteq> 0) (take n s) = s"
    and "dropWhile (\<lambda>c. c \<noteq> 0 \<and> c \<noteq> ord_c CHR ''.'') (s @ r) = dropWhile (\<lambda>c. c \<noteq> 0 \<and> c \<noteq> ord_c CHR ''.'') r"
    and "s \<noteq> [] \<Longrightarrow> hd s \<noteq> 32"
proof -
  have P: "c \<noteq> 0 \<and> c \<noteq> 32 \<and> c \<noteq> ord_c CHR ''.''" if "c \<in> set s" for c
    using assms(1) that by (simp add: plain_def list_all_iff)
  then show "takeWhile (\<lambda>c. c \<noteq> 32) (s @ replicate k 32) = s" by (subst takeWhile_append2) (auto simp: takeWhile_eq_Nil_iff)
  show "takeWhile (\<lambda>c. c \<noteq> 0 \<and> c \<noteq> ord_c CHR ''.'') (take n (s @ ord_c CHR ''.'' # r)) = s"
    using P assms(2) by (cases "n - length s") (simp_all add: takeWhile_eq_all_conv)
  show "takeWhile (\<lambda>c. c \<noteq> 0 \<and> c \<noteq> ord_c CHR ''.'') (take n s) = s" "takeWhile (\<lambda>c. c \<noteq> 0) (take n s) = s"
    using P assms(2) by (auto simp: takeWhile_eq_all_conv)
  show "dropWhile (\<lambda>c. c \<noteq> 0 \<and> c \<noteq> ord_c CHR ''.'') (s @ r) = dropWhile (\<lambda>c. c \<noteq> 0 \<and> c \<noteq> ord_c CHR ''.'') r"
    using P by (simp add: dropWhile_append2)
  show "hd s \<noteq> 32" if "s \<noteq> []" using P that by simp
qed

lemma name_to_string_name83:
  assumes "plain pre" and "plain ext" and "length pre \<le> 8" and "length ext \<le> 3"
  shows "fat32_name_to_string (name83 pre ext) = pre @ (if ext = [] then [] else ord_c CHR ''.'' # ext)"
proof -
  have "take 8 (name83 pre ext) = pre @ replicate (8 - length pre) 32" "drop 8 (name83 pre ext) = ext @ replicate (3 - length ext) 32"
    "name83 pre ext ! 8 = (if ext = [] then 32 else hd ext)"
    using assms(3) by (simp_all add: name83_def nth_append hd_conv_nth)
  then show ?thesis using assms plain_parts(1) [OF assms(1,3)] plain_parts(1,6) [OF assms(2,4)]
    by (simp add: fat32_name_to_string_def)
qed

lemma string_to_name_name83:
  assumes "plain pre" and "plain ext" and "length pre \<le> 8" and "length ext \<le> 3"
  shows "fat32_string_to_name (pre @ (if ext = [] then [] else ord_c CHR ''.'' # ext)) = name83 pre ext"
proof -
  have e: "replicate 11 x = replicate (length pre) x @ replicate (8 - length pre) x @ replicate (length ext) x @ replicate (3 - length ext) x" for x :: u8
    using assms(3,4) by (simp flip: replicate_add)
  have d: "deref [] \<noteq> ord_c CHR ''.''" "ord_c CHR '' '' = 32" by (simp_all add: ord_c_def of_char_def)
  note s = plain_parts(2,3,5) [OF assms(1,3)] plain_parts(4) [OF assms(2,4)]
  show ?thesis
  proof (cases "ext = []")
    case True
    have "dropWhile (\<lambda>c. c \<noteq> 0 \<and> c \<noteq> ord_c CHR ''.'') pre = []" using s(3) [of "[]"] by (simp del: dropWhile_eq_Nil_conv)
    then have "fat32_string_to_name pre = put_at 0 pre (replicate 11 32)"
      using d s(2) unfolding fat32_string_to_name_def Let_def by (simp del: dropWhile_eq_Nil_conv)
    moreover have "replicate (11 - length pre) x = replicate (8 - length pre) x @ replicate 3 x" for x :: u8
      using assms(3) by (simp flip: replicate_add)
    ultimately show ?thesis using True by (simp add: put_at_def name83_def)
  next
    case False
    have "fat32_string_to_name (pre @ ord_c CHR ''.'' # ext) = put_at 8 ext (put_at 0 pre (replicate 11 32))"
      using d(2) s(1,4) s(3) [of "ord_c CHR ''.'' # ext"] by (simp add: fat32_string_to_name_def Let_def)
    then show ?thesis using False assms(3,4) by (simp add: e put_at_def name83_def)
  qed
qed

text \<open>
  C31: an 8.3 name survives the conversion to the printed form and back, and the other way round, so
  that a file can be opened by the name it is listed with.
\<close>

theorem fat32_name_roundtrip:
  assumes "plain pre" and "plain ext" and "length pre \<le> 8" and "length ext \<le> 3"
  shows "fat32_string_to_name (fat32_name_to_string (name83 pre ext)) = name83 pre ext \<and>
    fat32_name_to_string (fat32_string_to_name (pre @ (if ext = [] then [] else ord_c CHR ''.'' # ext))) =
      pre @ (if ext = [] then [] else ord_c CHR ''.'' # ext)"
  using name_to_string_name83 [OF assms] string_to_name_name83 [OF assms] by simp

text \<open>
  C33: nothing bounds the walk along a damaged allocation table. When the chain of the root directory
  runs into a cycle whose clusters hold neither the name nor an end marker, \<open>fat32_open\<close> never
  returns.
\<close>

theorem fat32_open_cycle_hangs:
  assumes "mounted bus view st d" and "root_dir_cluster st \<in> set cs"
    and "list_all (\<lambda>c. c < 0x0FFFFFF8 \<and> addressable st c \<and> next_cluster (disk_image view st d) st c \<in> set cs \<and>
      list_all (\<lambda>e. hd (de_name e) \<noteq> 0 \<and> de_name e \<noteq> fat32_string_to_name filename) (dir_entries (disk_image view st d) st [c])) cs"
  shows "fat32_open bus filename st d = None"
proof -
  note bd = mounted_block_device [OF assms(1)]
  have len: "length (disk_image view st d n) = 512" for n by (simp add: disk_image_def block_device.length_img [OF bd])
  have "open_entries (fat32_string_to_name filename) es = None"
    if "list_all (\<lambda>e. hd (de_name e) \<noteq> 0 \<and> de_name e \<noteq> fat32_string_to_name filename \<and> length (de_name e) = 11) es" for es
    using that by (induction es) (auto simp: strncmp_eq [OF _ length_string_to_name string_to_name_no_nul])
  then have "open_chain bus (fat32_string_to_name filename) (root_dir_cluster st) st d = None"
    using assms(2,3) dir_entries_names [OF len] unfolding disk_image_def
    by (intro block_device.open_chain_cycle [OF bd mounted_good(1,2) [OF assms(1)]]) (auto simp: list_all_iff)
  then show ?thesis using mounted_good(3) [OF assms(1)] by (simp add: fat32_open_def)
qed

subsection \<open>A small volume\<close>

text \<open>
  One sector per cluster, the allocation table in sector 1, cluster 2 in sector 2. The root
  directory is cluster 2 and holds a volume label, a deleted entry and the file \<open>A.TXT\<close> with the
  clusters 3 and 4 and 600 bytes; cluster 5 is its own successor and full of used entries.
\<close>

fun bytes_words :: "u8 list \<Rightarrow> u16 list" where
  "bytes_words (lo # hi # r) = bytes_word lo hi # bytes_words r"
| "bytes_words _ = []"

lemma bytes_words_bytes:
  assumes "even (length b)"
  shows "concat (map word_bytes (bytes_words b)) = b" and "length (bytes_words b) = length b div 2"
  using assms by (induction b rule: bytes_words.induct) simp_all

definition demo_entry :: "u8 list \<Rightarrow> u8 \<Rightarrow> u8 \<Rightarrow> u8 list" where
  "demo_entry nm at cl = nm @ [at, 0, 0, 0, 0, 0, 0, 0, 0, 0, 0, 0, 0, 0, 0, cl, 0, 0x58, 2, 0, 0]"

definition demo_sector :: "nat \<Rightarrow> u8 list" where
  "demo_sector n =
    (if n = 1 then [0xF8, 0xFF, 0xFF, 0x0F, 0xFF, 0xFF, 0xFF, 0x0F, 0xFF, 0xFF, 0xFF, 0x0F, 4, 0, 0, 0, 0xF8, 0xFF, 0xFF, 0x0F, 5, 0, 0, 0] @ replicate 488 0
     else if n = 2 then demo_entry (name83 (str ''DISK'') []) 8 0 @ demo_entry (0xE5 # replicate 10 65) 0x20 3 @
       demo_entry (name83 (str ''A'') (str ''TXT'')) 0x20 3 @ replicate 416 0
     else if n = 5 then replicate 512 65
     else replicate 512 (of_nat n))"

definition demo_disk :: "bool \<Rightarrow> nat \<Rightarrow> u16 list" where
  "demo_disk b n = bytes_words (demo_sector n)"

definition demo_drive :: ata where
  "demo_drive = demo_ata\<lparr>disks := demo_disk\<rparr>"

definition demo_fs :: fat32 where
  "demo_fs = \<lparr>fs_drive = 0, bpb = bpb_of (replicate 512 1), fat_start_sector = 1, data_start_sector = 2,
     root_dir_cluster = 2, initialized = 1, sector_buffer = replicate 512 0,
     fs_file = \<lparr>f_first_cluster = 0, f_current_cluster = 0, f_size = 0, f_position = 0, f_attr = 0, f_valid = 0\<rparr>\<rparr>"

lemma length_demo_sector: "length (demo_sector n) = 512"
  by (simp add: demo_sector_def demo_entry_def name83_def str_def)

lemma disk_bytes_demo: "disk_bytes demo_disk drv n = demo_sector n"
  by (simp add: disk_bytes_def demo_disk_def bytes_words_bytes length_demo_sector)

interpretation demo_vol: block_device ata_bus "\<lambda>d. ata_ready (id d) \<and> disks (id d) = demo_disk" demo_disk
  by (rule ata_block_device [OF ata_bus_ok]) (simp add: demo_disk_def bytes_words_bytes length_demo_sector)

lemma demo_mounted:
  assumes "length (sector_buffer st) = 512" and "initialized st \<noteq> 0"
  shows "mounted ata_bus id st demo_drive" and "disk_image id st demo_drive = demo_sector"
  using assms by (simp_all add: mounted_def ata_bus_ok ata_ready_def demo_drive_def demo_ata_def demo_disk_def
      bytes_words_bytes length_demo_sector disk_image_def disk_bytes_demo fun_eq_iff)

lemma with_file:
  "spc (st\<lparr>fs_file := f\<rparr>) = spc st" "next_cluster img (st\<lparr>fs_file := f\<rparr>) = next_cluster img st"
  "addressable (st\<lparr>fs_file := f\<rparr>) = addressable st"
  "cluster_sectors img (st\<lparr>fs_file := f\<rparr>) = cluster_sectors img st"
  "spc (st\<lparr>root_dir_cluster := r\<rparr>) = spc st" "next_cluster img (st\<lparr>root_dir_cluster := r\<rparr>) = next_cluster img st"
  "addressable (st\<lparr>root_dir_cluster := r\<rparr>) = addressable st"
  by (simp_all add: spc_def next_cluster_def fat_sector_def addressable_def fat32_cluster_to_sector_def fun_eq_iff cluster_sectors_def)

lemma spc_demo: "spc demo_fs = 1"
  by (simp add: spc_def demo_fs_def bpb_of_def)

lemma demo_next: "next_cluster demo_sector demo_fs 2 = 0x0FFFFFF8" "next_cluster demo_sector demo_fs 3 = 4"
  "next_cluster demo_sector demo_fs 4 = 0x0FFFFFF8" "next_cluster demo_sector demo_fs 5 = 5"
  by (simp_all add: next_cluster_def fat_sector_def demo_fs_def demo_sector_def le32_def le16_def bytes_word_def Let_def)

lemma addressable_demo: "addressable demo_fs 2" "addressable demo_fs 3" "addressable demo_fs 4" "addressable demo_fs 5"
  by (simp_all add: addressable_def fat_sector_def fat32_cluster_to_sector_def demo_fs_def spc_def bpb_of_def)

lemma dir_entries_single: "spc st = 1 \<Longrightarrow> dir_entries img st [c] = sector_entries (img (unat (fat32_cluster_to_sector st c)))"
  by (simp add: dir_entries_def cluster_sectors_def)

lemma demo_root: "live (dir_entries demo_sector demo_fs [2]) =
  [direntry_of (demo_entry (name83 (str ''DISK'') []) 8 0), direntry_of (demo_entry (0xE5 # replicate 10 65) 0x20 3),
   direntry_of (demo_entry (name83 (str ''A'') (str ''TXT'')) 0x20 3)]"
proof -
  let ?a = "demo_entry (name83 (str ''DISK'') []) 8 0" and ?b = "demo_entry (0xE5 # replicate 10 65) 0x20 3"
    and ?c = "demo_entry (name83 (str ''A'') (str ''TXT'')) 0x20 3"
  have s: "demo_sector 2 = ?a @ ?b @ ?c @ replicate 416 0" by (simp add: demo_sector_def)
  have l: "length ?a = 32" "length ?b = 32" "length ?c = 32" by (simp_all add: demo_entry_def name83_def str_def)
  have u: "[0 ..< 16] = 0 # 1 # 2 # 3 # [4 ..< 16 :: nat]" by (simp add: upt_rec_numeral upt_rec)
  have "sector_entries (demo_sector 2) = direntry_of ?a # direntry_of ?b # direntry_of ?c # direntry_of (replicate 32 0) #
      map (\<lambda>j. direntry_of (bytes (demo_sector 2) (32 * j) 32)) [4 ..< 16]"
    unfolding sector_entries_def u by (simp add: s bytes_def l)
  then show ?thesis unfolding dir_entries_single [OF spc_demo]
    by (simp add: fat32_cluster_to_sector_def demo_fs_def live_def direntry_of_def bytes_def demo_entry_def name83_def str_def ord_c_def of_char_def)
qed

lemma demo_volume: "mounted ata_bus id demo_fs demo_drive" "disk_image id demo_fs demo_drive = demo_sector"
  by (rule demo_mounted; simp add: demo_fs_def)+

lemma demo_root_dir: "root_dir_cluster demo_fs = 2"
  by (simp add: demo_fs_def)

lemma demo_sectors: "fat32_cluster_to_sector demo_fs 3 = 3" "fat32_cluster_to_sector demo_fs 4 = 4"
  "fat32_cluster_to_sector (demo_fs\<lparr>root_dir_cluster := 5\<rparr>) 5 = 5"
  by (simp_all add: fat32_cluster_to_sector_def demo_fs_def bpb_of_def)

lemma demo_contents: "chain_bytes demo_sector (demo_fs\<lparr>fs_file := f\<rparr>) [3, 4] = replicate 512 3 @ replicate 512 4"
  by (simp add: chain_bytes_def with_file, simp add: cluster_sectors_def spc_demo demo_sectors demo_sector_def)

lemma demo_chains: "is_chain (next_cluster demo_sector demo_fs) (root_dir_cluster demo_fs) [2]"
  "is_chain (next_cluster demo_sector demo_fs) 3 [3, 4]"
  using demo_root_dir by (simp_all add: demo_next)

definition demo_file :: fat32_direntry where
  "demo_file = direntry_of (demo_entry (name83 (str ''A'') (str ''TXT'')) 0x20 3)"

lemma demo_file: "f_first_cluster (file_of demo_file) = 3" "file_size demo_file = 600"
  by (simp_all add: demo_file_def file_of_def direntry_of_def demo_entry_def name83_def str_def le16_def le32_def bytes_word_def Let_def nth_append)

theorem fat32_open_finds_witness:
  "\<exists>b d'. fat32_open ata_bus (str ''A.TXT'') demo_fs demo_drive = Some (True, demo_fs\<lparr>sector_buffer := b, fs_file := file_of demo_file\<rparr>, d')"
proof -
  have n: "fat32_string_to_name (str ''A.TXT'') = name83 (str ''A'') (str ''TXT'')"
    using string_to_name_name83 [of "str ''A''" "str ''TXT''"] by (simp add: plain_def str_def ord_c_def of_char_def)
  have "find (\<lambda>e. hd (de_name e) \<noteq> 0xE5 \<and> de_attr e \<noteq> 0x0F \<and> de_name e = fat32_string_to_name (str ''A.TXT''))
      (live (dir_entries demo_sector demo_fs [2])) = Some demo_file"
    unfolding demo_root n demo_file_def
    by (simp add: direntry_of_def bytes_def demo_entry_def name83_def str_def ord_c_def of_char_def nth_append)
  then show ?thesis
    using fat32_open_finds [OF demo_volume(1), of "[2]" "str ''A.TXT''", unfolded demo_volume(2), OF demo_chains(1)] addressable_demo(1)
    by auto
qed

theorem fat32_list_dir_exact_witness:
  "\<exists>b d'. fat32_list_dir ata_bus 0x1000 20 demo_fs demo_drive =
    Some (1, [\<lparr>di_name = str ''A.TXT'', di_size = 600, di_is_directory = 0\<rparr>], demo_fs\<lparr>sector_buffer := b\<rparr>, d')"
proof -
  have "map dirinfo_of (filter (\<lambda>e. hd (de_name e) \<noteq> 0xE5 \<and> de_attr e \<noteq> 0x0F \<and> de_attr e AND 0x08 = 0)
      (live (dir_entries demo_sector demo_fs [2]))) = [\<lparr>di_name = str ''A.TXT'', di_size = 600, di_is_directory = 0\<rparr>]"
    unfolding demo_root
    by (simp add: direntry_of_def bytes_def demo_entry_def name83_def str_def ord_c_def of_char_def dirinfo_of_def
        fat32_name_to_string_def le16_def le32_def bytes_word_def nth_append)
  then show ?thesis
    using fat32_list_dir_exact [OF demo_volume(1), of "[2]" "0x1000" 20, unfolded demo_volume(2), OF demo_chains(1)] addressable_demo(1)
    by (auto simp: take_map [symmetric])
qed

theorem fat32_read_pieces_witness:
  "\<exists>st' d'. fat32_reads ata_bus [100, 412, 0x10000] (demo_fs\<lparr>fs_file := file_of demo_file\<rparr>) demo_drive =
    Some (replicate 512 3 @ replicate 88 4, st', d')"
proof -
  let ?st = "demo_fs\<lparr>fs_file := file_of demo_file\<rparr>"
  have m: "mounted ata_bus id ?st demo_drive" "disk_image id ?st demo_drive = demo_sector"
    by (rule demo_mounted; simp add: demo_fs_def)+
  show ?thesis
    using demo_contents fat32_read_pieces [OF m(1), of demo_file "[3, 4]" "[100, 412, 0x10000]"] demo_chains(2) addressable_demo(2,3)
    by (simp add: m(2) with_file spc_demo demo_file demo_next)
qed

theorem fat32_read_wraps_past_end_witness:
  "\<exists>st' d'. fat32_read ata_bus True 0xFFFFFFFF (demo_fs\<lparr>fs_file := (file_of demo_file)\<lparr>f_position := 2\<rparr>\<rparr>) demo_drive =
    Some (1022, replicate 510 3 @ replicate 512 4, st', d')"
proof -
  let ?st = "demo_fs\<lparr>fs_file := (file_of demo_file)\<lparr>f_position := 2\<rparr>\<rparr>"
  have m: "mounted ata_bus id ?st demo_drive" "disk_image id ?st demo_drive = demo_sector"
    by (rule demo_mounted; simp add: demo_fs_def)+
  have f: "f_current_cluster (file_of demo_file) = 3" "f_valid (file_of demo_file) = 1" "f_size (file_of demo_file) = 600"
    using demo_file by (simp_all add: file_of_def Let_def)
  show ?thesis
    using demo_contents fat32_read_wraps_past_end [OF m(1), of "[3, 4]" 2 "0xFFFFFFFF"] demo_chains(2) addressable_demo(2,3)
    by (simp add: m(2) with_file spc_demo f handle_at_def demo_next)
qed

theorem fat32_name_roundtrip_witness:
  "fat32_string_to_name (fat32_name_to_string (name83 (str ''SHELL'') (str ''ELF''))) = name83 (str ''SHELL'') (str ''ELF'')"
  using fat32_name_roundtrip [of "str ''SHELL''" "str ''ELF''"] by (simp add: plain_def str_def ord_c_def of_char_def)

theorem fat32_open_cycle_hangs_witness:
  "fat32_open ata_bus (str ''A.TXT'') (demo_fs\<lparr>root_dir_cluster := 5\<rparr>) demo_drive = None"
proof -
  let ?st = "demo_fs\<lparr>root_dir_cluster := 5\<rparr>"
  have m: "mounted ata_bus id ?st demo_drive" "disk_image id ?st demo_drive = demo_sector"
    by (rule demo_mounted; simp add: demo_fs_def)+
  have n: "fat32_string_to_name (str ''A.TXT'') = name83 (str ''A'') (str ''TXT'')"
    using string_to_name_name83 [of "str ''A''" "str ''TXT''"] by (simp add: plain_def str_def ord_c_def of_char_def)
  have "direntry_of (bytes (demo_sector 5) (32 * j) 32) = direntry_of (replicate 32 65)" if "j < 16" for j
    using that by (simp add: demo_sector_def bytes_def min_def)
  then have "\<forall>e \<in> set (dir_entries demo_sector ?st [5]). e = direntry_of (replicate 32 65)"
    by (auto simp: dir_entries_single with_file spc_demo sector_entries_def demo_sectors)
  moreover have "de_name (direntry_of (replicate 32 65)) = replicate 11 65" by (simp add: direntry_of_def bytes_def)
  moreover have "hd (replicate 11 65) \<noteq> (0 :: u8)" "replicate 11 65 \<noteq> name83 (str ''A'') (str ''TXT'')"
    by simp (auto dest!: arg_cong [where f = "\<lambda>l. l ! 1"] simp: name83_def str_def nth_append)
  ultimately have "list_all (\<lambda>e. hd (de_name e) \<noteq> 0 \<and> de_name e \<noteq> fat32_string_to_name (str ''A.TXT'')) (dir_entries demo_sector ?st [5])"
    unfolding n by (auto simp: list_all_iff)
  then show ?thesis
    using fat32_open_cycle_hangs [OF m(1), of "[5]" "str ''A.TXT''"] by (simp add: m(2) with_file demo_next addressable_demo)
qed

end
