(* ===== verification/Files.thy ===== *)
theory Files
  imports Fat32_Volume
begin

text \<open>
  Files of a mounted volume: that a file with a name and contents is on it, that it is open at a
  position, and what opening and reading do in these terms. This is what the clients of the file
  system rely on.
\<close>

subsection \<open>Files on a volume\<close>

definition named :: "u8 list \<Rightarrow> fat32_direntry \<Rightarrow> bool" where
  "named nm e \<longleftrightarrow> hd (de_name e) \<noteq> 0xE5 \<and> de_attr e \<noteq> 0x0F \<and> de_name e = nm"

text \<open>The first live entry with the name is \<open>e\<close>, and its clusters are \<open>cs\<close>.\<close>

definition stored :: "(nat \<Rightarrow> u8 list) \<Rightarrow> fat32 \<Rightarrow> u8 list \<Rightarrow> fat32_direntry \<Rightarrow> u32 list \<Rightarrow> bool" where
  "stored img st nm e cs \<longleftrightarrow>
     (\<exists>dcs. is_chain (next_cluster img st) (root_dir_cluster st) dcs \<and> list_all (addressable st) dcs
        \<and> find (named nm) (live (dir_entries img st dcs)) = Some e)
     \<and> is_chain (next_cluster img st) (f_first_cluster (file_of e)) cs \<and> list_all (addressable st) cs \<and> 0 < spc st
     \<and> unat (file_size e) \<le> 512 * spc st * length cs \<and> 512 * spc st * length cs < 2 ^ 32"

definition file_on :: "(nat \<Rightarrow> u8 list) \<Rightarrow> fat32 \<Rightarrow> u8 list \<Rightarrow> u8 list \<Rightarrow> bool" where
  "file_on img st nm data \<longleftrightarrow> (\<exists>e cs. stored img st nm e cs \<and> data = take (unat (file_size e)) (chain_bytes img st cs))"

text \<open>The static handle is open on a file with these contents, at this position.\<close>

definition reading :: "(nat \<Rightarrow> u8 list) \<Rightarrow> fat32 \<Rightarrow> u8 list \<Rightarrow> nat \<Rightarrow> bool" where
  "reading img st data p \<longleftrightarrow> f_valid (fs_file st) \<noteq> 0 \<and> (\<exists>cs. handle_at img st cs p \<and> p \<le> unat (f_size (fs_file st))
     \<and> unat (f_size (fs_file st)) \<le> 512 * spc st * length cs \<and> data = take (unat (f_size (fs_file st))) (chain_bytes img st cs))"

text \<open>Two states of the file system that know the same volume.\<close>

definition same_volume :: "fat32 \<Rightarrow> fat32 \<Rightarrow> bool" where
  "same_volume st st' \<longleftrightarrow> (\<exists>b f. st' = st\<lparr>sector_buffer := b, fs_file := f\<rparr>)"

lemma same_volume_trans: "same_volume a b \<Longrightarrow> same_volume b c \<Longrightarrow> same_volume a c"
proof -
  assume "same_volume a b" and "same_volume b c"
  then obtain u f v g where "b = a\<lparr>sector_buffer := u, fs_file := f\<rparr>" "c = b\<lparr>sector_buffer := v, fs_file := g\<rparr>"
    by (auto simp: same_volume_def)
  then have "c = a\<lparr>sector_buffer := v, fs_file := g\<rparr>" by simp
  then show ?thesis unfolding same_volume_def by blast
qed

lemma file_on_same:
  assumes "same_volume st st'"
  shows "file_on img st' nm data = file_on img st nm data"
proof -
  obtain b f where "st' = st\<lparr>sector_buffer := b, fs_file := f\<rparr>" using assms by (auto simp: same_volume_def)
  then show ?thesis by (simp add: file_on_def stored_def dir_entries_def chain_bytes_def with_file)
qed

lemma length_reading: "reading img st data p \<Longrightarrow> (\<And>n. length (img n) = 512) \<Longrightarrow> length data = unat (f_size (fs_file st))"
  by (auto simp: reading_def length_chain_bytes)

lemma fat32_update_swap: "(st :: fat32)\<lparr>sector_buffer := b, fs_file := f\<rparr> = st\<lparr>fs_file := f, sector_buffer := b\<rparr>"
  by simp

lemma sint_of_nat_u32: "n < 2 ^ 31 \<Longrightarrow> sint (of_nat n :: u32) = int n"
  by (simp add: sint_uint unsigned_of_nat take_bit_nat_eq_self signed_take_bit_eq_if_positive signed_take_bit_int_eq_self)

subsection \<open>Opening and reading\<close>

text \<open>A drive that is ready and has this image, with a mounted file system.\<close>

definition volume :: "'d bus \<Rightarrow> ('d \<Rightarrow> ata) \<Rightarrow> (nat \<Rightarrow> u8 list) \<Rightarrow> fat32 \<Rightarrow> 'd \<Rightarrow> bool" where
  "volume bus view img st d \<longleftrightarrow> mounted bus view st d \<and> disk_image view st d = img"

lemma volume_same:
  assumes "volume bus view img st d" and "ata_ready (view d')" and "disks (view d') = disks (view d)"
    and "length b = 512"
  shows "volume bus view img (st\<lparr>sector_buffer := b, fs_file := f\<rparr>) d'"
  using assms by (simp add: volume_def mounted_def disk_image_def)

lemma volume_length: "volume bus view img st d \<Longrightarrow> length (img n) = 512"
  using block_device.length_img [OF mounted_block_device] by (fastforce simp: volume_def disk_image_def)

lemma open_file:
  assumes v: "volume bus view img st d" and f: "file_on img st (fat32_string_to_name nm) data"
  shows "\<exists>st' d'. fat32_open bus nm st d = Some (True, st', d') \<and> volume bus view img st' d' \<and> same_volume st st'
    \<and> reading img st' data 0"
proof -
  obtain e cs dcs where dir: "is_chain (next_cluster img st) (root_dir_cluster st) dcs" "list_all (addressable st) dcs"
      "find (named (fat32_string_to_name nm)) (live (dir_entries img st dcs)) = Some e"
    and chain: "is_chain (next_cluster img st) (f_first_cluster (file_of e)) cs" "list_all (addressable st) cs" "0 < spc st"
      "unat (file_size e) \<le> 512 * spc st * length cs" "512 * spc st * length cs < 2 ^ 32"
      "data = take (unat (file_size e)) (chain_bytes img st cs)"
    using f by (auto simp: file_on_def stored_def)
  have m: "mounted bus view st d" "disk_image view st d = img" using v by (simp_all add: volume_def)
  obtain b d' where o: "ata_ready (view d')" "disks (view d') = disks (view d)" "length b = 512"
      "fat32_open bus nm st d = Some (True, st\<lparr>sector_buffer := b, fs_file := file_of e\<rparr>, d')"
    using fat32_open_spec [OF m(1), unfolded m(2), OF dir(1,2), of nm] dir(3) by (auto simp: named_def [abs_def])
  have "reading img (st\<lparr>sector_buffer := b, fs_file := file_of e\<rparr>) data 0"
    unfolding reading_def using chain
    by (auto simp: handle_at_def file_of_def Let_def with_file chain_bytes_def intro!: exI [of _ cs])
  then show ?thesis using o volume_same [OF v o(1-3)] by (auto simp: same_volume_def)
qed

lemma open_missing:
  assumes v: "volume bus view img st d" and "is_chain (next_cluster img st) (root_dir_cluster st) dcs" and "list_all (addressable st) dcs"
    and "find (named (fat32_string_to_name nm)) (live (dir_entries img st dcs)) = None"
  shows "\<exists>st' d'. fat32_open bus nm st d = Some (False, st', d') \<and> volume bus view img st' d' \<and> same_volume st st'"
proof -
  have m: "mounted bus view st d" "disk_image view st d = img" using v by (simp_all add: volume_def)
  obtain b d' where o: "ata_ready (view d')" "disks (view d') = disks (view d)" "length b = 512"
      "fat32_open bus nm st d = Some (False, st\<lparr>sector_buffer := b\<rparr>, d')"
    using fat32_open_spec [OF m(1), unfolded m(2), OF assms(2,3), of nm] assms(4) by (auto simp: named_def [abs_def])
  moreover have "st\<lparr>sector_buffer := b\<rparr> = st\<lparr>sector_buffer := b, fs_file := fs_file st\<rparr>" by simp
  ultimately show ?thesis using volume_same [OF v o(1-3), of "fs_file st"] unfolding same_volume_def by metis
qed

lemma read_file:
  assumes v: "volume bus view img st d" and r: "reading img st data p" and n: "length data + unat n < 2 ^ 31"
  shows "\<exists>st' d'. fat32_read bus True n st d = Some (int (length (take (unat n) (drop p data))), take (unat n) (drop p data), st', d')
    \<and> volume bus view img st' d' \<and> same_volume st st' \<and> reading img st' data (p + length (take (unat n) (drop p data)))"
proof -
  let ?c = "take (unat n) (drop p data)"
  have m: "mounted bus view st d" "disk_image view st d = img" using v by (simp_all add: volume_def)
  obtain cs where h: "handle_at img st cs p" "p \<le> unat (f_size (fs_file st))" "unat (f_size (fs_file st)) \<le> 512 * spc st * length cs"
    "data = take (unat (f_size (fs_file st))) (chain_bytes img st cs)" "f_valid (fs_file st) \<noteq> 0"
    using r by (auto simp: reading_def)
  have len: "length data = unat (f_size (fs_file st))" by (rule length_reading [OF r volume_length [OF v]])
  obtain b c d' where o: "fat32_read bus True n st d = Some (sint (of_nat (length ?c) :: u32), ?c, seek (p + length ?c) c (st\<lparr>sector_buffer := b\<rparr>), d')"
      "length b = 512" "ata_ready (view d')" "disks (view d') = disks (view d)" "handle_at img (seek (p + length ?c) c st) cs (p + length ?c)"
    using fat32_read_exact [OF m(1), unfolded m(2), OF h(1,5,2,3) _ _ refl, of n ?c] h(4) n len by auto
  have "sint (of_nat (length ?c) :: u32) = int (length ?c)" using n by (subst sint_of_nat_u32) simp_all
  moreover have le: "p + length ?c \<le> unat (f_size (fs_file st))" using h(2) len by simp
  define f where "f = (fs_file st)\<lparr>f_position := of_nat (p + length ?c), f_current_cluster := c\<rparr>"
  have st: "seek (p + length ?c) c (st\<lparr>sector_buffer := b\<rparr>) = st\<lparr>sector_buffer := b, fs_file := f\<rparr>"
    and st': "seek (p + length ?c) c st = st\<lparr>fs_file := f\<rparr>" and f: "f_size f = f_size (fs_file st)" "f_valid f = f_valid (fs_file st)"
    by (simp_all add: seek_def f_def)
  have "handle_at img (st\<lparr>sector_buffer := b, fs_file := f\<rparr>) cs (p + length ?c)"
    using o(5) unfolding st' by (subst fat32_update_swap) simp
  then have "reading img (st\<lparr>sector_buffer := b, fs_file := f\<rparr>) data (p + length ?c)"
    unfolding reading_def using h(3-5) le f by (intro conjI exI [of _ cs]) (simp_all add: chain_bytes_def with_file)
  ultimately show ?thesis using o(1) volume_same [OF v o(3,4,2), of f] unfolding st same_volume_def by metis
qed

subsection \<open>The directory\<close>

definition dir_on :: "(nat \<Rightarrow> u8 list) \<Rightarrow> fat32 \<Rightarrow> fat32_dirinfo list \<Rightarrow> bool" where
  "dir_on img st infos \<longleftrightarrow> (\<exists>dcs. is_chain (next_cluster img st) (root_dir_cluster st) dcs \<and> list_all (addressable st) dcs
     \<and> infos = map dirinfo_of (filter (\<lambda>e. hd (de_name e) \<noteq> 0xE5 \<and> de_attr e \<noteq> 0x0F \<and> de_attr e AND 0x08 = 0) (live (dir_entries img st dcs))))"

lemma dir_on_same:
  assumes "same_volume st st'"
  shows "dir_on img st' infos = dir_on img st infos"
proof -
  obtain b f where "st' = st\<lparr>sector_buffer := b, fs_file := f\<rparr>" using assms by (auto simp: same_volume_def)
  then show ?thesis by (simp add: dir_on_def dir_entries_def with_file)
qed

lemma list_files:
  assumes v: "volume bus view img st d" and dir: "dir_on img st infos" and "p \<noteq> 0" and "0 < mx"
  shows "\<exists>st' d'. fat32_list_dir bus p (int mx) st d = Some (int (length (take mx infos)), take mx infos, st', d')
    \<and> volume bus view img st' d' \<and> same_volume st st'"
proof -
  obtain dcs where dcs: "is_chain (next_cluster img st) (root_dir_cluster st) dcs" "list_all (addressable st) dcs"
      "infos = map dirinfo_of (filter (\<lambda>e. hd (de_name e) \<noteq> 0xE5 \<and> de_attr e \<noteq> 0x0F \<and> de_attr e AND 0x08 = 0) (live (dir_entries img st dcs)))"
    using dir by (auto simp: dir_on_def)
  have m: "mounted bus view st d" "disk_image view st d = img" using v by (simp_all add: volume_def)
  obtain b d' where o: "ata_ready (view d')" "disks (view d') = disks (view d)" "length b = 512"
      "fat32_list_dir bus p (int mx) st d = Some (int (length (take mx infos)), take mx infos, st\<lparr>sector_buffer := b\<rparr>, d')"
    using fat32_list_dir_spec [OF m(1), unfolded m(2), OF dcs(1,2) assms(3,4)] unfolding dcs(3) [symmetric] Let_def by blast
  moreover have "st\<lparr>sector_buffer := b\<rparr> = st\<lparr>sector_buffer := b, fs_file := fs_file st\<rparr>" by simp
  ultimately show ?thesis using volume_same [OF v o(1-3), of "fs_file st"] unfolding same_volume_def by metis
qed

end
