(* ===== verification/Pc.thy ===== *)
theory Pc
  imports Exec Files
begin

text \<open>
  A concrete machine: a disk controller and a serial port on one bus, and a volume with a program and
  a text file. It shows that the hypotheses of the results about the whole system can hold together.
\<close>

subsection \<open>The bus\<close>

definition pc_bus :: "(ata \<times> u8 list) bus" where
  "pc_bus = \<lparr>bus_in = (\<lambda>p d. if p = 0x1F7 then (let (v, a) = ata_in p (fst d) in (v, a, snd d)) else (0xFF, d)),
     bus_out = (\<lambda>p v d. if 0x1F2 \<le> p \<and> p \<le> 0x1F7 then (ata_out p v (fst d), snd d)
                       else if p = SERIAL_COM1 then (fst d, snd d @ [v]) else d),
     bus_inw = (\<lambda>p d. let (w, a) = ata_inw p (fst d) in (w, a, snd d)),
     bus_outw = (\<lambda>p w d. (ata_outw p w (fst d), snd d))\<rparr>"

lemma pc_bus_ata: "ata_ok pc_bus fst"
proof -
  have a: "ata_ok ata_bus id" by (rule ata_bus_ok)
  have i: "fst (inb pc_bus 0x1F7 d) = fst (inb ata_bus 0x1F7 (fst d))" "fst (snd (inb pc_bus 0x1F7 d)) = snd (inb ata_bus 0x1F7 (fst d))"
    "fst (snd (inb pc_bus 0x3F6 d)) = fst d" "fst (bus_inw pc_bus p d) = fst (bus_inw ata_bus p (fst d))"
    "fst (snd (bus_inw pc_bus p d)) = snd (bus_inw ata_bus p (fst d))" for d p
    by (simp_all add: pc_bus_def ata_bus_def inb_def split: prod.split)
  have o: "0x1F2 \<le> p \<Longrightarrow> p \<le> 0x1F7 \<Longrightarrow> fst (outb pc_bus p v d) = outb ata_bus p v (fst d)"
    "fst (bus_outw pc_bus q w d) = bus_outw ata_bus q w (fst d)" for p v d q w
    by (simp_all add: pc_bus_def ata_bus_def outb_def)
  have n: "outb ata_bus p v d = id (outb ata_bus p v d)" for p v d by simp
  show ?thesis unfolding ata_ok_def using a [unfolded ata_ok_def id_apply] by (simp add: i o)
qed

lemma pc_bus_uart: "uart_tx pc_bus SERIAL_COM1 (\<lambda>d. 0) snd"
  by (simp add: uart_tx_def pc_bus_def inb_def outb_def)

subsection \<open>The volume\<close>

definition pc_entry :: "u8 list \<Rightarrow> u8 \<Rightarrow> u8 \<Rightarrow> u8 list" where
  "pc_entry nm cl sz = nm @ [0x20, 0, 0, 0, 0, 0, 0, 0, 0, 0, 0, 0, 0, 0, 0, cl, 0, sz, 0, 0, 0]"

definition pc_sector :: "nat \<Rightarrow> u8 list" where
  "pc_sector n =
    (if n = 1 then [0xF8, 0xFF, 0xFF, 0x0F, 0xFF, 0xFF, 0xFF, 0x0F, 0xF8, 0xFF, 0xFF, 0x0F, 0xF8, 0xFF, 0xFF, 0x0F, 0xF8, 0xFF, 0xFF, 0x0F] @ replicate 492 0
     else if n = 2 then pc_entry (name83 (str ''PROG'') (str ''ELF'')) 3 88 @ pc_entry (name83 (str ''A'') (str ''TXT'')) 4 14 @
       pc_entry (name83 (str ''LONGNAME'') (str ''ELF'')) 3 88 @ replicate 416 0
     else if n = 3 then demo_elf @ replicate 424 0
     else if n = 4 then str ''Hello, magnos!'' @ replicate 498 0
     else replicate 512 0)"

definition pc_drive :: "ata \<times> u8 list" where
  "pc_drive = (demo_ata\<lparr>disks := (\<lambda>b n. bytes_words (pc_sector n))\<rparr>, [])"

lemma length_pc_sector: "length (pc_sector n) = 512"
  by (simp add: pc_sector_def pc_entry_def name83_def str_def demo_elf_def numeral_eq_Suc)

lemma pc_volume: "volume pc_bus fst pc_sector demo_fs pc_drive"
proof -
  have "length (sector_buffer demo_fs) = 512" "initialized demo_fs \<noteq> 0" by (simp_all add: demo_fs_def)
  then show ?thesis
    by (simp add: volume_def mounted_def pc_bus_ata ata_ready_def pc_drive_def demo_ata_def bytes_words_bytes length_pc_sector
        disk_image_def disk_bytes_def fun_eq_iff)
qed

lemma pc_chains: "next_cluster pc_sector demo_fs c = 0x0FFFFFF8" if "c \<in> {2, 3, 4}"
  using that by (auto simp: next_cluster_def fat_sector_def demo_fs_def pc_sector_def le32_def le16_def bytes_word_def Let_def)

lemma pc_root: "live (dir_entries pc_sector demo_fs [2]) =
  [direntry_of (pc_entry (name83 (str ''PROG'') (str ''ELF'')) 3 88), direntry_of (pc_entry (name83 (str ''A'') (str ''TXT'')) 4 14),
   direntry_of (pc_entry (name83 (str ''LONGNAME'') (str ''ELF'')) 3 88)]"
proof -
  let ?a = "pc_entry (name83 (str ''PROG'') (str ''ELF'')) 3 88" and ?b = "pc_entry (name83 (str ''A'') (str ''TXT'')) 4 14"
    and ?c = "pc_entry (name83 (str ''LONGNAME'') (str ''ELF'')) 3 88"
  have s: "pc_sector 2 = ?a @ ?b @ ?c @ replicate 416 0" by (simp add: pc_sector_def)
  have l: "length ?a = 32" "length ?b = 32" "length ?c = 32" by (simp_all add: pc_entry_def name83_def str_def)
  have u: "[0 ..< 16] = 0 # 1 # 2 # 3 # [4 ..< 16 :: nat]" by (simp add: upt_rec_numeral upt_rec)
  have "sector_entries (pc_sector 2) = direntry_of ?a # direntry_of ?b # direntry_of ?c # direntry_of (replicate 32 0) #
      map (\<lambda>j. direntry_of (bytes (pc_sector 2) (32 * j) 32)) [4 ..< 16]"
    unfolding sector_entries_def u by (simp add: s bytes_def l)
  then show ?thesis unfolding dir_entries_single [OF spc_demo]
    by (simp add: fat32_cluster_to_sector_def demo_fs_def live_def direntry_of_def bytes_def pc_entry_def name83_def str_def ord_c_def of_char_def)
qed

lemma pc_files:
  "file_on pc_sector demo_fs (name83 (str ''PROG'') (str ''ELF'')) demo_elf"
  "file_on pc_sector demo_fs (name83 (str ''A'') (str ''TXT'')) (str ''Hello, magnos!'')"
  "file_on pc_sector demo_fs (name83 (str ''LONGNAME'') (str ''ELF'')) demo_elf"
proof -
  have d: "is_chain (next_cluster pc_sector demo_fs) (root_dir_cluster demo_fs) [2] \<and> list_all (addressable demo_fs) [2]"
    using addressable_demo by (simp add: pc_chains demo_root_dir)
  have *: "file_on pc_sector demo_fs nm (take (unat sz) (pc_sector (unat c)))"
    if f: "find (named nm) (live (dir_entries pc_sector demo_fs [2])) = Some e" and c: "f_first_cluster (file_of e) = c" "file_size e = sz"
      "c \<in> {3, 4}" "sz < 512" for nm e sz c
  proof -
    have "is_chain (next_cluster pc_sector demo_fs) c [c]" "list_all (addressable demo_fs) [c]" "unat sz \<le> 512"
      using c addressable_demo by (auto simp: pc_chains word_less_nat_alt)
    then have "stored pc_sector demo_fs nm e [c]" unfolding stored_def c(1,2) spc_demo
      using d f by (intro conjI exI [of _ "[2]"]) (simp_all add: pc_chains)
    moreover have "chain_bytes pc_sector demo_fs [c] = pc_sector (unat c)"
      using c(3) demo_sectors by (auto simp: chain_bytes_def cluster_sectors_def spc_demo)
    ultimately show ?thesis using c(2) unfolding file_on_def by metis
  qed
  note simps = pc_root named_def direntry_of_def bytes_def pc_entry_def name83_def str_def ord_c_def of_char_def nth_append
    file_of_def le16_def le32_def bytes_word_def Let_def
  have p: "pc_sector 3 = demo_elf @ replicate 424 0" "pc_sector 4 = str ''Hello, magnos!'' @ replicate 498 0"
    by (simp_all add: pc_sector_def)
  show "file_on pc_sector demo_fs (name83 (str ''PROG'') (str ''ELF'')) demo_elf"
    using * [of "name83 (str ''PROG'') (str ''ELF'')" "direntry_of (pc_entry (name83 (str ''PROG'') (str ''ELF'')) 3 88)" 3 88]
    by (simp add: p demo_elf_def) (simp add: simps)
  show "file_on pc_sector demo_fs (name83 (str ''A'') (str ''TXT'')) (str ''Hello, magnos!'')"
    using * [of "name83 (str ''A'') (str ''TXT'')" "direntry_of (pc_entry (name83 (str ''A'') (str ''TXT'')) 4 14)" 4 14]
    by (simp add: p str_def) (simp add: simps)
  show "file_on pc_sector demo_fs (name83 (str ''LONGNAME'') (str ''ELF'')) demo_elf"
    using * [of "name83 (str ''LONGNAME'') (str ''ELF'')" "direntry_of (pc_entry (name83 (str ''LONGNAME'') (str ''ELF'')) 3 88)" 3 88]
    by (simp add: p demo_elf_def) (simp add: simps)
qed

end
