(* ===== verification/Exec_File.thy ===== *)
theory Exec_File
  imports Pc
begin

text \<open>
  The exec system call from the file on the disk to the running program and back to its caller: the
  results about programs, and a concrete machine on which they apply.
\<close>

subsection \<open>The page tables after booting\<close>

lemma boot_entries:
  assumes "paging_upto 0 s" and "pmm_free_pages s = {0x128 ..< 0x1F0} \<union> {0x300 ..< 0x1000}" and "k \<le> 4"
  shows "paging_upto k (fold paging_init_entry [0 ..< k] s)
    \<and> pmm_free_pages (fold paging_init_entry [0 ..< k] s) = {0x128 + k ..< 0x1F0} \<union> {0x300 ..< 0x1000}
    \<and> kernel_page_directory (fold paging_init_entry [0 ..< k] s) = kernel_page_directory s
    \<and> (\<forall>i < 1024. pde (fold paging_init_entry [0 ..< k] s) i =
        (if unat i < k then page_addr (0x128 + unat i) OR PAGE_PRESENT OR PAGE_WRITABLE else 0))"
  using assms(3)
proof (induction k)
  case (Suc k)
  let ?t = "fold paging_init_entry [0 ..< k] s"
  have t: "paging_upto k ?t" "pmm_free_pages ?t = {0x128 + k ..< 0x1F0} \<union> {0x300 ..< 0x1000}" "kernel_page_directory ?t = kernel_page_directory s"
    "\<forall>i < 1024. pde ?t i = (if unat i < k then page_addr (0x128 + unat i) OR PAGE_PRESENT OR PAGE_WRITABLE else 0)"
    using Suc by simp_all
  have k: "k < 4" using Suc.prems by simp
  have ne: "pmm_free_pages ?t \<noteq> {}" and m: "Min (pmm_free_pages ?t) = 0x128 + k"
    using k unfolding t(2) by (auto intro!: Min_eqI)
  have i: "i = of_nat k \<longleftrightarrow> unat i = k" for i :: u32 using k by (simp add: u32_eq_unat unat_of_nat_u32)
  have e: "fold paging_init_entry [0 ..< Suc k] s = paging_init_entry k ?t" by simp
  note step = paging_init_entry_step [OF t(1) k ne]
  show ?case unfolding e using step(1) step(2) step(3) step(4) t(2-4) m i k by (auto simp: less_Suc_eq)
next
  case 0
  then show ?case using assms(1,2) by (simp add: paging_upto_def)
qed

lemma boot_tables:
  assumes "table_addr boot_paging a"
  shows "0x127000 \<le> unat a \<and> unat a < 0x12C000"
proof -
  have fp: "pmm_free_pages boot_paging0 = {0x127 ..< 0x1F0} \<union> {0x300 ..< 0x1000}"
    using boot_pmm_free_pages by (simp add: pmm_free_pages_def boot_paging0_def)
  have m: "Min (pmm_free_pages boot_paging0) = 0x127" unfolding fp by (rule Min_eqI) auto
  have ne: "pmm_free_pages boot_paging0 \<noteq> {}" using fp by auto
  obtain pd s1 where al: "pmm_alloc boot_paging0 = (pd, s1)" by force
  define s0 where "s0 = s1\<lparr>kernel_page_directory := pd, mem := zero_page pd (mem s1)\<rparr>"
  have pd: "pd = page_addr 0x127" using al pmm_alloc_least [OF boot_paging0_ok(1) ne] m by simp
  have up: "paging_upto 0 s0" unfolding s0_def by (rule paging_start(1) [OF boot_paging0_ok(1) ne al])
  have "pmm_free_pages s1 = pmm_free_pages boot_paging0 - {0x127}"
    using pmm_alloc_free_pages [OF boot_paging0_ok(1) ne] al m by simp
  moreover have "{0x127 ..< 0x1F0} \<union> {0x300 ..< 0x1000} - {0x127} = {0x128 ..< 0x1F0} \<union> {0x300 ..< 0x1000 :: nat}"
    by (rule set_eqI, simp only: Un_iff Diff_iff atLeastLessThan_iff singleton_iff, arith)
  ultimately have "pmm_free_pages s0 = {0x128 ..< 0x1F0} \<union> {0x300 ..< 0x1000}" unfolding fp s0_def by simp
  note f = boot_entries [OF up this, of 4]
  define t where "t = fold paging_init_entry [0 ..< 4] s0"
  have b: "boot_paging = t\<lparr>cr3 := kernel_page_directory t, cr0 := cr0 t OR 0x80000000\<rparr>"
    by (simp add: boot_paging_def paging_init_def al s0_def t_def Let_def)
  have t: "kernel_page_directory t = kernel_page_directory s0" "\<forall>i < 1024. pde t i =
      (if unat i < 4 then page_addr (0x128 + unat i) OR PAGE_PRESENT OR PAGE_WRITABLE else 0)"
    using f unfolding t_def by simp_all
  have init: "kernel_page_directory boot_paging = pd" "\<forall>i < 1024. pde boot_paging i =
      (if unat i < 4 then page_addr (0x128 + unat i) OR PAGE_PRESENT OR PAGE_WRITABLE else 0)"
    unfolding b using t by (simp_all add: s0_def)
  obtain p where p: "PAGE_FRAME a = page_addr p" "0x127 \<le> p" "p < 0x12C"
  proof (cases "PAGE_FRAME a = kernel_page_directory boot_paging")
    case True
    then show ?thesis using that [of "0x127"] init(1) pd by simp
  next
    case False
    then obtain i where i: "i < 1024" "odd (pde boot_paging i)" "PAGE_FRAME a = PAGE_FRAME (pde boot_paging i)"
      using assms by (auto simp: table_addr_def)
    have "unat i < 4" using i(1,2) init(2) by (auto split: if_splits)
    then show ?thesis using that [of "0x128 + unat i"] i init(2) entry_frame(2) [of "page_addr (0x128 + unat i)"]
      by (simp add: PAGE_FRAME_aligned)
  qed
  have "unat (PAGE_FRAME a) = 4096 * p" using p by (simp add: unat_page_addr)
  then have "unat a div 4096 = p" by (simp add: unat_PAGE_FRAME)
  then show ?thesis using p(2,3) by auto
qed

lemma boot_fenced: "fenced boot_paging"
proof -
  have pte: "pte boot_paging w = (if unat w < 2 ^ 24 then ident w else 0)" for w
    unfolding boot_paging_def by (rule paging_init_ok(2) [OF boot_paging0_ok])
  have i: "odd (ident w)" "PAGE_FRAME (ident w) = PAGE_FRAME w" for w
    using entry_frame(2) [of "PAGE_FRAME w"] entry_present(2) [of "PAGE_FRAME w"] by (simp_all add: ident_def PAGE_FRAME_aligned)
  have "paging_get_phys w boot_paging = w" if "odd (pte boot_paging w)" for w
    using that i by (auto simp: paging_get_phys_pte pte frame_and_offset split: if_splits)
  moreover have "odd (pte boot_paging w)" if "in_user w" for w using that i by (simp add: pte in_user_unat)
  moreover have "\<not> in_user a" if "table_addr boot_paging a" for a using boot_tables [OF that] by (simp add: in_user_unat)
  ultimately show ?thesis unfolding fenced_def using boot_paging_ok boot_paging_identity(1,2) by blast
qed

subsection \<open>The file of a command\<close>

text \<open>
  The caller \<open>(s, d)\<close> passes a command whose first word has at most 11 characters and names, in upper
  case, a file of at most 64 KiB on the volume that is a program for the program region.
\<close>

definition runnable :: "'d env \<Rightarrow> ('d \<Rightarrow> ata) \<Rightarrow> (nat \<Rightarrow> u8 list) \<Rightarrow> u8 list \<Rightarrow> 'd sys \<Rightarrow> bool" where
  "runnable E view img data x \<longleftrightarrow> (case x of (s, d) \<Rightarrow>
     volume (io E) view img (disk s) d \<and> ebx (user s) \<noteq> 0
     \<and> (\<exists>cmd w ws. read_str (mem s) (ebx (user s)) = Some cmd \<and> pieces cmd = w # ws \<and> length w \<le> 11
          \<and> file_on img (disk s) (fat32_string_to_name (map to_upper w)) data)
     \<and> data \<noteq> [] \<and> length data \<le> 0x10000 \<and> program_ok (store_bytes (mem s) (exec_buffer E) data) (exec_buffer E))"

lemma exec_name:
  assumes "read_str m a = Some cmd" and "pieces cmd = w # ws"
  shows "cstr (fst (parse_command_line cmd (replicate 64 0) pa)) = w"
  using parse_command_line_program [OF read_str_cstring [OF assms(1)], of "replicate 64 0" pa] assms(2) by simp

text \<open>Reading back a string from memory.\<close>

lemma read_str_spec:
  assumes "is_cstring t" and "described a (length t + 1)" and "\<And>k. k \<le> length t \<Longrightarrow> m (a + of_nat k) = (t @ [0]) ! k"
  shows "read_str m a = Some t" and "length t \<le> n \<Longrightarrow> read_strn n m a = Some t"
proof -
  have step: "unat (a + 1) = unat a + 1" "described (a + 1) (length t' + 1)" "described a 1"
    if "described a (Suc (length t' + 1))" for t' :: cstring and a
  proof -
    show u: "unat (a + 1) = unat a + 1" using that by (subst unat_add_small) (simp_all add: described_def)
    show "described (a + 1) (length t' + 1)" "described a 1" using that u by (simp_all add: described_def)
  qed
  show "read_str m a = Some t"
    using assms
  proof (induction t arbitrary: a)
    case Nil
    then show ?case using Nil(3) [of 0] by (subst read_str.simps) simp
  next
    case (Cons c t)
    note u = step [of a t] Cons.prems(2)
    have "read_str m (a + 1) = Some t"
      using Cons.prems(3) [of "Suc _"] Cons.prems(1) u by (intro Cons.IH) (simp_all add: add.assoc)
    then show ?case using Cons.prems(1) u Cons.prems(3) [of 0] by (subst read_str.simps) simp
  qed
  show "length t \<le> n \<Longrightarrow> read_strn n m a = Some t"
    using assms
  proof (induction t arbitrary: a n)
    case Nil
    then show ?case using Nil(4) [of 0] by (cases n) simp_all
  next
    case (Cons c t)
    then obtain k where n: "n = Suc k" by (cases n) auto
    note u = step [of a t] Cons.prems(3)
    have "read_strn k m (a + 1) = Some t"
      using Cons.prems(4) [of "Suc _"] Cons.prems(1,2) u n by (intro Cons.IH) (simp_all add: add.assoc)
    then show ?case using Cons.prems(2) u Cons.prems(4) [of 0] by (simp add: n)
  qed
qed

lemma reading_size:
  assumes "volume bus view img st d" and "reading img st data p"
  shows "unat (f_size (fs_file st)) = length data"
  using length_reading [OF assms(2) volume_length [OF assms(1)]] by simp

lemma close_volume: "volume bus view img (fat32_close True st) d = volume bus view img st d" "same_volume st (fat32_close True st)"
proof -
  have c: "fat32_close True st = st\<lparr>fs_file := (fs_file st)\<lparr>f_valid := 0\<rparr>\<rparr>" by (simp add: fat32_close_def)
  show "volume bus view img (fat32_close True st) d = volume bus view img st d" by (simp add: c volume_def mounted_def disk_image_def)
  have "st\<lparr>fs_file := g\<rparr> = st\<lparr>sector_buffer := sector_buffer st, fs_file := g\<rparr>" for g by simp
  then show "same_volume st (fat32_close True st)" unfolding c same_volume_def by blast
qed

lemma program_magic:
  assumes "program_ok m elf"
  shows "m elf = 0x7F" "m (elf + 1) = ord_c CHR ''E''" "m (elf + 2) = ord_c CHR ''L''" "m (elf + 3) = ord_c CHR ''F''"
proof -
  have "e_ident (ehdr_of m elf) ! i = m (elf + of_nat i)" if "i < 16" for i using that by (simp add: ehdr_of_def)
  from this [of 0] this [of 1] this [of 2] this [of 3] assms
  show "m elf = 0x7F" "m (elf + 1) = ord_c CHR ''E''" "m (elf + 2) = ord_c CHR ''L''" "m (elf + 3) = ord_c CHR ''F''"
    by (simp_all add: program_ok_def elf_validate_header_def split: if_splits)
qed

lemma fetch_file:
  assumes r: "runnable E view img data (s, d)"
  shows "\<exists>as f d'. exec_fetch E (ebx (user s)) (s, d) =
      Some (None, s\<lparr>current_program_args := as, disk := f, mem := store_bytes (mem s) (exec_buffer E) data\<rparr>, d')
    \<and> volume (io E) view img f d' \<and> same_volume (disk s) f"
proof -
  obtain cmd w ws where v: "volume (io E) view img (disk s) d" "ebx (user s) \<noteq> 0" and cmd: "read_str (mem s) (ebx (user s)) = Some cmd"
    "file_on img (disk s) (fat32_string_to_name (map to_upper w)) data" and w: "pieces cmd = w # ws" "length w \<le> 11" and len: "data \<noteq> []" "length data \<le> 0x10000"
    and prog: "program_ok (store_bytes (mem s) (exec_buffer E) data) (exec_buffer E)"
    using r by (auto simp: runnable_def)
  obtain pn as where p: "parse_command_line cmd (replicate 64 0) (current_program_args s) = (pn, as)" by force
  have pn: "take 11 (cstr pn) = w" using exec_name [OF cmd(1) w(1), of "current_program_args s"] p w(2) by simp
  obtain f1 d1 where o: "fat32_open (io E) (map to_upper w) (disk s) d = Some (True, f1, d1)" "volume (io E) view img f1 d1"
      "same_volume (disk s) f1" "reading img f1 data 0"
    using open_file [OF v(1) cmd(2)] by blast
  have sz: "unat (f_size (fs_file f1)) = length data" by (rule reading_size [OF o(2,4)])
  then have sz': "\<not> f_size (fs_file f1) > 65536" using len by (simp add: word_less_nat_alt)
  obtain f2 d2 where rd: "fat32_read (io E) True (f_size (fs_file f1)) f1 d1 = Some (int (length data), data, f2, d2)"
      "volume (io E) view img f2 d2" "same_volume f1 f2"
    using read_file [OF o(2,4), of "f_size (fs_file f1)"] sz len by auto
  have "exec_fetch E (ebx (user s)) (s, d) =
      Some (None, s\<lparr>current_program_args := as, disk := fat32_close True f2, mem := store_bytes (mem s) (exec_buffer E) data\<rparr>, d2)"
    using v(2) cmd(1) p o(1) sz' rd(1) len(1) program_magic [OF prog]
    by (simp add: exec_fetch_def pn Let_def)
  moreover have "volume (io E) view img (fat32_close True f2) d2" using rd(2) by (simp add: close_volume)
  moreover have "same_volume (disk s) (fat32_close True f2)"
    using same_volume_trans [OF same_volume_trans [OF o(3) rd(3)] close_volume(2)] .
  ultimately show ?thesis by blast
qed

subsection \<open>The console leaves the drive alone\<close>

definition video_apart :: "'d bus \<Rightarrow> ('d \<Rightarrow> 'v) \<Rightarrow> bool" where
  "video_apart bus view \<longleftrightarrow> (\<forall>v d. view (outb bus 0x3D4 v d) = view d \<and> view (outb bus 0x3D5 v d) = view d)"

lemma console_apart:
  assumes "video_apart (io E) view"
  shows "view (snd (kputs E t x)) = view (snd x)" and "view (snd (kputhex E n x)) = view (snd x)"
    and "disk (fst (kputs E t x)) = disk (fst x)" and "disk (fst (kputhex E n x)) = disk (fst x)"
proof -
  have c: "view (fst (vga_putchar (io E) c s d)) = view d" for c s d
    using assms by (simp add: vga_putchar_def vga_update_cursor_def video_apart_def Let_def)
  then have p: "view (fst (vga_puts (io E) t s d)) = view d" for t s d
    by (induction t arbitrary: s d) (auto simp: case_prod_beta)
  then show "view (snd (kputs E t x)) = view (snd x)" "view (snd (kputhex E n x)) = view (snd x)"
    by (simp_all add: kputs_def kputhex_def vga_puthex_puts case_prod_beta Let_def)
  show "disk (fst (kputs E t x)) = disk (fst x)" "disk (fst (kputhex E n x)) = disk (fst x)"
    by (simp_all add: kputs_def kputhex_def case_prod_beta Let_def)
qed

lemma trap_exec_disk:
  assumes "eax (user s) = 9" and f: "exec_fetch E (ebx (user s)) (s, d) = Some (None, s0, d0)" and "trap E (s, d) = Some (s1, d1)"
    and v: "video_apart (io E) view"
  shows "disk s1 = disk s0" and "view d1 = view d0"
proof -
  have u: "disk (map_user_pages t) = disk t" for t :: kernel using kview_frame(3) [of t] by (simp add: kview_def)
  have e: "disk (fst y) = disk (fst x) \<and> view (snd y) = view (snd x)" if "elf_load_and_exec E who a x = Some (ok, y)" for who a x ok y
    using that by (auto simp: elf_load_and_exec_def Let_def u case_prod_beta console_apart [OF v] split: bind_splits if_split_asm)
  obtain ok y where y: "elf_load_and_exec E (In_Program (user s0)) (exec_buffer E)
      (s0\<lparr>mem := memcpy_loop (mem s0) (saved_program E) 0x200000 0x101000\<rparr>, d0) = Some (ok, y)"
    using assms(1-3) by (auto simp: trap_def isr_handler_def syscall_handler_def sys_exec_def Let_def split: bind_splits)
  then show "disk s1 = disk s0" "view d1 = view d0"
    using assms(1-3) e [OF y]
    by (auto simp: trap_def isr_handler_def syscall_handler_def sys_exec_def Let_def case_prod_beta split: if_splits)
qed

lemma volume_view: "volume bus view img st d \<Longrightarrow> view d' = view d \<Longrightarrow> volume bus view img st d'"
  by (simp add: volume_def mounted_def disk_image_def)

lemma exec_file_starts:
  assumes r: "runnable E view img data (s, d)" and v: "video_apart (io E) view" and num: "eax (user s) = 9" and depth: "exec_depth s < 8"
    and ok: "ring3_ok s" and lay: "exec_layout E s"
  shows "\<exists>s0 s1 d1. trap E (s, d) = Some (s1, d1) \<and> started E s s0 s1 \<and> mem s0 = store_bytes (mem s) (exec_buffer E) data
    \<and> volume (io E) view img (disk s1) d1 \<and> same_volume (disk s) (disk s1)
    \<and> (\<exists>d0. exec_fetch E (ebx (user s)) (s, d) = Some (None, s0, d0) \<and> program_ok (mem s0) (exec_buffer E))"
proof -
  obtain as f d0 where f: "exec_fetch E (ebx (user s)) (s, d) =
      Some (None, s\<lparr>current_program_args := as, disk := f, mem := store_bytes (mem s) (exec_buffer E) data\<rparr>, d0)" (is "_ = Some (None, ?s0, d0)")
    "volume (io E) view img f d0" "same_volume (disk s) f"
    using fetch_file [OF r] by blast
  have prog: "program_ok (mem ?s0) (exec_buffer E)" using r by (auto simp: runnable_def)
  obtain s1 d1 where s1: "trap E (s, d) = Some (s1, d1)" "started E s ?s0 s1" using exec_starts [OF f(1) num prog depth ok lay] by blast
  have "disk s1 = f" "view d1 = view d0" using trap_exec_disk [OF num f(1) s1(1) v] by simp_all
  moreover have "volume (io E) view img f d1" by (rule volume_view [OF f(2) \<open>view d1 = view d0\<close>])
  moreover have "mem ?s0 = store_bytes (mem s) (exec_buffer E) data" by simp
  ultimately show ?thesis using s1 f(1,3) prog by metis
qed

lemma runnable_can_exec:
  assumes "runnable E view img data (s, d)" and "eax (user s) = 9" and "exec_depth s < 8" and "length (exec_stack s) = 8"
    and "ring3_ok s" and "exec_layout E s"
  shows "can_exec E (s, d)"
proof -
  obtain as f d0 where f: "exec_fetch E (ebx (user s)) (s, d) =
      Some (None, s\<lparr>current_program_args := as, disk := f, mem := store_bytes (mem s) (exec_buffer E) data\<rparr>, d0)"
    using fetch_file [OF assms(1)] by blast
  moreover have "program_ok (store_bytes (mem s) (exec_buffer E) data) (exec_buffer E)" using assms(1) by (auto simp: runnable_def)
  ultimately show ?thesis unfolding can_exec_def using assms(2-6) by simp
qed


subsection \<open>A caller of exec\<close>

text \<open>
  The state of a program that asks for \<open>prog.elf\<close>: the command line is at 0x300100, behind it there is a
  byte 1 that belongs to the program.
\<close>

definition pc_env :: "(ata \<times> u8 list) env" where
  "pc_env = \<lparr>io = pc_bus, next_irq = (\<lambda>d. None), binary_buffer = 0x4000, exec_buffer = 0x14000, saved_program = 0x24000,
     shell_esp = 0x8FF00, exec_stack_use = 0x200, kernel_end = 0x126000, kernel_main_at = 0x1000, gdt_at = 0x3000, tss_at = 0x3100,
     idt_at = 0x3200, isr_at = (\<lambda>n. 0x1800 + of_nat (16 * n))\<rparr>"

definition pc_paging :: paging where
  "pc_paging = map_user_pages boot_paging"

definition pc_kernel :: kernel where
  "pc_kernel = power_on\<lparr>mem := store_bytes (mem pc_paging) 0x300100 (str ''prog.elf'' @ [0, 1]), bitmap := bitmap pc_paging,
     kernel_page_directory := kernel_page_directory pc_paging, disk := demo_fs, exec_depth := 1,
     segments := tss_set_kernel_stack 0x90000 (segments power_on), user := zero_regs\<lparr>eax := 9, ebx := 0x300100\<rparr>\<rparr>"

lemma pc_paging: "fenced pc_paging" "user_page pc_paging w = in_user w" "table_addr pc_paging a \<Longrightarrow> 0x127000 \<le> unat a \<and> unat a < 0x12C000"
  using map_user_pages_fenced [OF boot_fenced] boot_tables unfolding pc_paging_def by simp_all

lemma length_command: "length (str ''prog.elf'' @ [0, 1]) = 10"
  by (simp add: str_def)

lemma pc_kernel_tables: "fenced pc_kernel" "table_addr pc_kernel a = table_addr pc_paging a" "user_page pc_kernel w = user_page pc_paging w"
proof -
  have m: "mem pc_kernel a = mem pc_paging a" if "table_addr pc_paging a" for a
    using pc_paging(3) [OF that] length_command by (simp add: pc_kernel_def store_bytes_apply del: store_bytes.simps)
  note c = fenced_cong [OF pc_paging(1) m]
  show "fenced pc_kernel" "table_addr pc_kernel a = table_addr pc_paging a" "user_page pc_kernel w = user_page pc_paging w"
    by (rule c(1-3); simp add: pc_kernel_def)+
qed

lemma pc_ring3: "ring3_ok pc_kernel"
  using pc_kernel_tables(1) by (simp add: ring3_ok_def alone_def handle_ok_def pc_kernel_def power_on_def demo_fs_def)

lemma pc_layout: "exec_layout pc_env pc_kernel"
  using pc_kernel_tables(2) pc_paging(3) by (fastforce simp: exec_layout_def pc_env_def apart_from_def within_def)

lemma pc_video: "video_apart (io pc_env) fst"
  by (simp add: video_apart_def pc_env_def pc_bus_def outb_def)

lemma pc_byte: "store_bytes m 0x14000 demo_elf a = (let k = unat (a - 0x14000) in if k < 88 then demo_elf ! k else m a)"
proof -
  have l: "length demo_elf = 88" by (simp add: demo_elf_def)
  show ?thesis
  proof (cases "0x14000 \<le> unat a")
    case True
    then have "unat (a - 0x14000) = unat a - 0x14000" by (subst unat_sub) (simp_all add: word_le_nat_alt)
    then show ?thesis using True by (auto simp: store_bytes_apply l Let_def)
  next
    case False
    have "unat (a - 0x14000 + 0x14000) < 0x14000" using False by simp
    then have "\<not> unat (a - 0x14000) < 88" using unat_add_small [of "a - 0x14000" "0x14000"] by (cases "unat (a - 0x14000) < 88") simp_all
    then show ?thesis using False by (simp add: store_bytes_apply l)
  qed
qed

lemma pc_loads:
  defines "e m \<equiv> store_bytes m 0x14000 demo_elf"
  shows "loads (e m) 0x14000 = [\<lparr>p_type = 1, p_offset = 84, p_vaddr = 0x200000, p_paddr = 0x200000, p_filesz = 4, p_memsz = 8, p_flags = 5, p_align = 0x1000\<rparr>]"
    and "program_ok (e m) 0x14000" and "e_entry (ehdr_of (e m) 0x14000) = 0x200000"
proof -
  have b: "e m a = (let k = unat (a - 0x14000) in if k < 88 then demo_elf ! k else m a)" for a by (simp only: e_def pc_byte)
  have h: "e_phoff (ehdr_of (e m) 0x14000) = 52" "e_phnum (ehdr_of (e m) 0x14000) = 1" "e_entry (ehdr_of (e m) 0x14000) = 0x200000"
    "e_machine (ehdr_of (e m) 0x14000) = 3" "e_type (ehdr_of (e m) 0x14000) = 2"
    by (simp_all add: ehdr_of_def ld32_def ld16_def b demo_elf_def)
  have i: "e_ident (ehdr_of (e m) 0x14000) ! k = demo_elf ! k" if "k < 16" for k
    using that by (simp add: ehdr_of_def b unat_of_nat_u32)
  show l: "loads (e m) 0x14000 = [\<lparr>p_type = 1, p_offset = 84, p_vaddr = 0x200000, p_paddr = 0x200000, p_filesz = 4, p_memsz = 8, p_flags = 5, p_align = 0x1000\<rparr>]"
    by (simp add: loads_def phdrs_def h phdr_of_def ld32_def b demo_elf_def)
  have "elf_validate_header (ehdr_of (e m) 0x14000) = 0"
    unfolding elf_validate_header_def h by (simp add: i demo_elf_def ord_c_def of_char_def)
  moreover have "loadable (e m) 0x14000 88" by (simp add: loadable_def h l seg_len_def)
  ultimately show "program_ok (e m) 0x14000" unfolding program_ok_def l by (auto simp: covers_def seg_len_def in_user_unat intro: exI [of _ 88])
  show "e_entry (ehdr_of (e m) 0x14000) = 0x200000" by (rule h)
qed

lemma pc_image:
  assumes "unat a < 0x200000 \<or> 0x200008 \<le> unat a"
  shows "fold (overlay (store_bytes m 0x14000 demo_elf) 0x14000) (phdrs (store_bytes m 0x14000 demo_elf) 0x14000) m' a = m' a"
  using assms by (simp add: fold_overlay loads_def [symmetric] pc_loads(1)) (auto simp: covers_def seg_len_def)

definition holds_command :: "memory \<Rightarrow> bool" where
  "holds_command m \<longleftrightarrow> (\<forall>k < 9. m (0x300100 + of_nat k) = (str ''prog.elf'' @ [0]) ! k)"

lemma read_command:
  assumes "holds_command m"
  shows "read_str m 0x300100 = Some (str ''prog.elf'')"
proof (rule read_str_spec(1))
  show "m (0x300100 + of_nat k) = (str ''prog.elf'' @ [0]) ! k" if "k \<le> length (str ''prog.elf'')" for k
    using that assms by (simp add: holds_command_def str_def)
qed (simp_all add: str_def ord_c_def of_char_def described_def)

lemma command_word: "word_ok w \<Longrightarrow> pieces w = [w]"
  using pieces_unwords [of "[w]"] by simp

lemma prog_elf_name: "pieces (str ''prog.elf'') = [str ''prog.elf'']" "length (str ''prog.elf'') \<le> 11"
  "fat32_string_to_name (map to_upper (str ''prog.elf'')) = name83 (str ''PROG'') (str ''ELF'')"
proof -
  show "pieces (str ''prog.elf'') = [str ''prog.elf'']"
    by (rule command_word) (simp add: word_ok_def str_def ord_c_def of_char_def)
  have "map to_upper (str ''prog.elf'') = str ''PROG.ELF''" by (simp add: str_def to_upper_def ord_c_def of_char_def)
  then show "fat32_string_to_name (map to_upper (str ''prog.elf'')) = name83 (str ''PROG'') (str ''ELF'')"
    using string_to_name_name83 [of "str ''PROG''" "str ''ELF''"] by (simp add: plain_def) (simp add: str_def ord_c_def of_char_def)
qed (simp add: str_def)

text \<open>Any state with that command line, these registers and the volume can start the program.\<close>

lemma pc_runnable:
  assumes "volume pc_bus fst pc_sector (disk s) d" and "same_volume demo_fs (disk s)" and "holds_command (mem s)" and "ebx (user s) = 0x300100"
  shows "runnable pc_env fst pc_sector demo_elf (s, d)"
proof -
  have "file_on pc_sector (disk s) (name83 (str ''PROG'') (str ''ELF'')) demo_elf" using pc_files(1) file_on_same [OF assms(2)] by simp
  moreover have "demo_elf \<noteq> []" "length demo_elf \<le> 0x10000" by (simp_all add: demo_elf_def)
  ultimately show ?thesis using assms(1,4) read_command [OF assms(3)] pc_loads(2) prog_elf_name
    by (simp add: runnable_def) (simp add: pc_env_def)
qed

lemma pc_kernel_facts:
  "volume pc_bus fst pc_sector (disk pc_kernel) pc_drive" "same_volume demo_fs (disk pc_kernel)" "holds_command (mem pc_kernel)"
  "ebx (user pc_kernel) = 0x300100" "eax (user pc_kernel) = 9" "exec_depth pc_kernel = 1" "length (exec_stack pc_kernel) = 8"
  "mem pc_kernel 0x300109 = 1"
proof -
  show "volume pc_bus fst pc_sector (disk pc_kernel) pc_drive" using pc_volume by (simp add: pc_kernel_def)
  show "same_volume demo_fs (disk pc_kernel)" by (auto simp: same_volume_def pc_kernel_def intro!: exI [of _ "sector_buffer demo_fs"] exI [of _ "fs_file demo_fs"])
  have "mem pc_kernel (0x300100 + of_nat k) = (str ''prog.elf'' @ [0, 1]) ! k" if "k < 10" for k
  proof -
    have "unat (0x300100 + of_nat k :: u32) = 0x300100 + k" using that unat_add_le [of "0x300100" 10 k] by simp
    then show ?thesis using that by (simp add: pc_kernel_def store_bytes_apply str_def del: store_bytes.simps)
  qed
  note b = this
  have l: "length (str ''prog.elf'') = 8" by (simp add: str_def)
  show "mem pc_kernel 0x300109 = 1" using b [of 9] l by (simp add: nth_append)
  show "holds_command (mem pc_kernel)" unfolding holds_command_def using b l by (simp add: nth_append nth_Cons split: nat.split)
  show "ebx (user pc_kernel) = 0x300100" "eax (user pc_kernel) = 9" "exec_depth pc_kernel = 1" "length (exec_stack pc_kernel) = 8"
    by (simp_all add: pc_kernel_def power_on_def)
qed

text \<open>The states in which the caller, or a program it has started, makes this call.\<close>

definition pc_ready :: "kernel \<Rightarrow> ata \<times> u8 list \<Rightarrow> bool" where
  "pc_ready s d \<longleftrightarrow> volume pc_bus fst pc_sector (disk s) d \<and> same_volume demo_fs (disk s) \<and> holds_command (mem s)
     \<and> ebx (user s) = 0x300100 \<and> eax (user s) = 9 \<and> exec_depth s < 8 \<and> length (exec_stack s) = 8 \<and> ring3_ok s \<and> exec_layout pc_env s"

lemma pc_kernel_ready: "pc_ready pc_kernel pc_drive"
  using pc_kernel_facts pc_ring3 pc_layout by (simp add: pc_ready_def)

lemma pc_can_exec: "pc_ready s d \<Longrightarrow> can_exec pc_env (s, d)"
  by (rule runnable_can_exec [OF pc_runnable]) (simp_all add: pc_ready_def)

lemma command_addr: "k < 10 \<Longrightarrow> unat (0x300100 + of_nat k :: u32) = 0x300100 + k"
  using unat_add_le [of "0x300100" 10 k] by simp

lemma pc_start:
  assumes "pc_ready s d"
  shows "\<exists>s1 d1. trap pc_env (s, d) = Some (s1, d1) \<and> (exec_depth s < 7 \<longrightarrow> pc_ready s1 d1) \<and> mem s1 0x300109 = mem s 0x300109
    \<and> user_page s1 0x300109 \<and> eip (user s1) = 0x200000"
proof -
  let ?m = "store_bytes (mem s) 0x14000 demo_elf"
  have run: "runnable pc_env fst pc_sector demo_elf (s, d)" by (rule pc_runnable) (use assms in \<open>simp_all add: pc_ready_def\<close>)
  have buf: "exec_buffer pc_env = 0x14000" "io pc_env = pc_bus" by (simp_all add: pc_env_def)
  obtain s0 s1 d1 where s1: "trap pc_env (s, d) = Some (s1, d1)" "started pc_env s s0 s1" "mem s0 = ?m"
      "volume pc_bus fst pc_sector (disk s1) d1" "same_volume (disk s) (disk s1)"
    using exec_file_starts [OF run pc_video] assms unfolding pc_ready_def buf by blast
  have mem: "mem s1 (0x300100 + of_nat k) = mem s (0x300100 + of_nat k)" if "k < 10" for k
    using s1(2) command_addr [OF that] that pc_image [of "0x300100 + of_nat k" "mem s" "mem s"]
    by (simp add: started_def s1(3) buf in_user_unat)
  have user: "user s1 = (user s)\<lparr>eip := 0x200000, esp := 0x301000, interrupts := True\<rparr>"
    using s1(2) pc_loads(3) by (simp add: started_def s1(3) buf)
  have w: "waiting pc_env s s1" using can_exec_waiting [OF pc_can_exec [OF assms]] s1(1) by auto
  have "holds_command (mem s1)" using assms mem by (simp add: pc_ready_def holds_command_def)
  then have "exec_depth s < 7 \<longrightarrow> pc_ready s1 d1"
    using assms w user s1(4,5) same_volume_trans [of demo_fs "disk s" "disk s1"] by (simp add: pc_ready_def waiting_def)
  moreover have "user_page s1 0x300109" using s1(2) by (simp add: started_def in_user_def)
  ultimately show ?thesis using s1(1) mem [of 9] user by auto
qed

lemma pc_poke:
  assumes "pc_ready s d" and "user_page s 0x300109"
  shows "program_step pc_env (s, d) (s\<lparr>mem := (mem s)(0x300109 := v)\<rparr>, d)" and "pc_ready (s\<lparr>mem := (mem s)(0x300109 := v)\<rparr>) d"
proof -
  let ?s = "s\<lparr>mem := (mem s)(0x300109 := v)\<rparr>"
  have ok: "ring3_ok s" "fenced s" using assms(1) by (simp_all add: pc_ready_def ring3_ok_def)
  have "paging_get_phys 0x300109 s = 0x300109" using ok(2) assms(2) by (simp add: fenced_def user_page_def)
  then show st: "program_step pc_env (s, d) (?s, d)" using p_store [OF assms(2), of pc_env d v] by simp
  have c: "confined s ?s" "ring3_ok ?s" using program_step_confined [OF st] ok(1) by simp_all
  have "table_addr ?s a = table_addr s a" for a by (rule confined_tables [OF c(1) ok(2)])
  moreover have "0x300100 + of_nat k \<noteq> (0x300109 :: u32)" if "k < 9" for k
    using command_addr [of k] that by (auto simp: u32_eq_unat)
  ultimately show "pc_ready ?s d" using assms(1) c(2) by (simp add: pc_ready_def holds_command_def exec_layout_def)
qed

lemma pc_exit_step: "(program_step E)\<^sup>*\<^sup>* (s, d) (s\<lparr>user := (user s)\<lparr>eax := 2\<rparr>\<rparr>, d)"
  by (rule r_into_rtranclp) (rule p_regs)

subsection \<open>Results\<close>

text \<open>
  C2: a program in ring 3 is confined while it behaves as follows: it stores wherever its pages let
  it, computes, and makes any call except exec and exit, as long as the buffers it passes are in its
  own region and the size of a read does not wrap around; interrupts may arrive at any time, but no
  other process is ready. Then the memory outside the region 0x200000-0x300FFF that the model keeps
  as bytes, the page tables among it, the process table, the segments and the saved contexts keep
  their values, and the fence stays in place. (Not bytes, but fields of the state, are the variables
  of the kernel and the video memory: of them the screen, the keyboard, the file handle, the timer
  and the arguments change by the calls and interrupts.)
\<close>

theorem program_confined:
  assumes "(program_step E)\<^sup>*\<^sup>* (s, d) (s', d')" and "fenced s" and "alone s" and "handle_ok s"
  shows "(\<forall>a. \<not> in_user a \<longrightarrow> mem s' a = mem s a) \<and> fenced s' \<and> (\<forall>a. user_page s' a \<longleftrightarrow> user_page s a)
    \<and> proc_table s' = proc_table s \<and> segments s' = segments s \<and> exec_stack s' = exec_stack s \<and> exec_depth s' = exec_depth s"
proof -
  have c: "confined s s'" "ring3_ok s'" using program_run_confined [OF assms(1)] assms(2-4) by (simp_all add: ring3_ok_def)
  have "mem s' a = mem s a" if "table_addr s a" for a using that c(1) assms(2) unfolding fenced_def confined_def by blast
  then have "user_page s' a \<longleftrightarrow> user_page s a" for a
    using c(1) by (intro fenced_cong(3) [OF assms(2)]) (simp_all add: confined_def kside_def)
  then show ?thesis using c by (simp add: confined_def kside_def ring3_ok_def)
qed

text \<open>
  Where stores are not kept: the video memory and the ROM of the machine. The buffer in which exec
  saves its caller may cover them.
\<close>

definition not_ram :: "u32 \<Rightarrow> bool" where
  "not_ram a \<longleftrightarrow> 0xA0000 \<le> a \<and> a < 0x100000"

text \<open>
  C4: the exec call gives its caller back. If a program asks for a loadable file, the new program is
  started; if that program runs as described for \<open>program_step\<close> (it makes any calls but exec, with
  buffers of its own region), then when it exits the caller goes on with 0 in eax, all other registers
  unchanged, the nesting as before, and every byte of its region unchanged whose place in the save
  buffer is in RAM. The kernel stack pointer for entries from ring 3 is lower by what the call has
  used.
\<close>

theorem exec_restores_caller:
  assumes "can_exec E (s, d)"
  shows "\<exists>s1 d1. trap E (s, d) = Some (s1, d1) \<and> exec_depth s1 = exec_depth s + 1 \<and>
    (\<forall>s2 d2. (program_step E)\<^sup>*\<^sup>* (s1, d1) (s2, d2) \<longrightarrow> eax (user s2) = 2 \<longrightarrow>
      (\<exists>s3 d3. trap E (s2, d2) = Some (s3, d3) \<and> user s3 = (user s)\<lparr>eax := 0\<rparr>
        \<and> (\<forall>a. in_user a \<longrightarrow> \<not> not_ram (saved_program E + (a - 0x200000)) \<longrightarrow> mem s3 a = mem s a)
        \<and> exec_depth s3 = exec_depth s \<and> (\<forall>i < exec_depth s. exec_stack s3 ! i = exec_stack s ! i)
        \<and> tss_esp0 (tss (segments s3)) = tss_esp0 (tss (segments s)) - exec_stack_use E))"
proof -
  obtain s1 d1 where s1: "trap E (s, d) = Some (s1, d1)" "waiting E s s1" using can_exec_waiting [OF assms] by blast
  have "\<exists>s3 d3. trap E (s2, d2) = Some (s3, d3) \<and> resumed E s s3" if "(program_step E)\<^sup>*\<^sup>* (s1, d1) (s2, d2)" "eax (user s2) = 2" for s2 d2
    using waiting_exit [OF waiting_run [OF s1(2) that(1), simplified] that(2)] by blast
  moreover have "exec_depth s1 = exec_depth s + 1" using s1(2) by (simp add: waiting_def)
  ultimately show ?thesis using s1(1) unfolding resumed_def by (metis (no_types, lifting))
qed

text \<open>
  C9: nested exec loses the memory of the outermost caller. The kernel saves the caller of exec in one
  buffer only. If the program started by \<open>(s, d)\<close> starts another one itself, from the state \<open>sb\<close>, then
  when both are over the first caller goes on with its own registers but with the memory that \<open>sb\<close> had
  in place of its own.
\<close>

theorem nested_exec_loses_memory:
  assumes "can_exec E (s, d)" and "trap E (s, d) = Some x1" and "(program_step E)\<^sup>*\<^sup>* x1 (sb, db)"
    and "can_exec E (sb, db)" and "trap E (sb, db) = Some x2" and "(program_step E)\<^sup>*\<^sup>* x2 (sc, dc)" and "eax (user sc) = 2"
    and "trap E (sc, dc) = Some x3" and "(program_step E)\<^sup>*\<^sup>* x3 (se, de)" and "eax (user se) = 2"
  shows "\<exists>s4 d4. trap E (se, de) = Some (s4, d4) \<and> user s4 = (user s)\<lparr>eax := 0\<rparr> \<and> exec_depth s4 = exec_depth s
    \<and> (\<forall>a. in_user a \<longrightarrow> mem s4 a = mem sb a)"
proof -
  obtain s1 d1 where x1: "x1 = (s1, d1)" "waiting E s s1" using can_exec_waiting [OF assms(1)] assms(2) by auto
  have b: "waiting E s sb" using waiting_run [OF x1(2), of d1 "(sb, db)"] assms(3) x1(1) by simp
  obtain s2 d2 where x2: "x2 = (s2, d2)" "waiting E sb s2" using can_exec_waiting [OF assms(4)] assms(5) by auto
  have c: "waiting E sb sc" using waiting_run [OF x2(2), of d2 "(sc, dc)"] assms(6) x2(1) by simp
  obtain s3 d3 where x3: "x3 = (s3, d3)" "resumed E sb s3" "\<forall>a. \<not> in_user a \<longrightarrow> mem s3 a = mem sc a"
    using waiting_exit [OF c assms(7), of dc] assms(8) by auto
  have "waiting E (s\<lparr>mem := mem sb\<rparr>) s3"
    using b c x3(2,3) saved_not_user [of E sc] unfolding waiting_def resumed_def by simp
  then have "waiting E (s\<lparr>mem := mem sb\<rparr>) se" using waiting_run [of E _ s3 d3 "(se, de)"] assms(9) x3(1) by simp
  then show ?thesis using waiting_exit [OF _ assms(10), of E _ de] unfolding resumed_def by fastforce
qed

text \<open>
  C1: a file on the volume becomes the program that runs. If the first word of the command has at
  most 11 characters and names a file of at most 64 KiB that is a program for the program region, and
  fewer than 8 programs are nested, the exec call finds and reads it, and the new program starts at
  its entry point with the stack at 0x301000; it can access exactly the region 0x200000-0x300FFF,
  which holds the segments of the file over what was there before.
\<close>

theorem exec_runs_file:
  assumes "runnable E view img data (s, d)" and "video_apart (io E) view" and "eax (user s) = 9" and "exec_depth s < 8"
    and "ring3_ok s" and "exec_layout E s"
  shows "let elf = exec_buffer E; m = store_bytes (mem s) elf data in
    \<exists>s1 d1. trap E (s, d) = Some (s1, d1) \<and> eip (user s1) = e_entry (ehdr_of m elf) \<and> esp (user s1) = 0x301000
      \<and> exec_depth s1 = exec_depth s + 1 \<and> (\<forall>a. user_page s1 a \<longleftrightarrow> in_user a)
      \<and> (\<forall>a. in_user a \<longrightarrow> mem s1 a = fold (overlay m elf) (phdrs m elf) (mem s) a)"
proof -
  obtain s0 s1 d1 where "trap E (s, d) = Some (s1, d1)" "started E s s0 s1" "mem s0 = store_bytes (mem s) (exec_buffer E) data"
    using exec_file_starts [OF assms] by blast
  then show ?thesis unfolding started_def Let_def by (intro exI [of _ s1] exI [of _ d1]) simp
qed

text \<open>
  C18: every exec call costs kernel stack that is never given back. After \<open>n\<close> programs that a program
  has had executed one after the other, the stack pointer with which the processor enters the kernel
  is lower by \<open>n\<close> times what the call uses, although all of them are over.
\<close>

theorem exec_leaks_kernel_stack:
  assumes "exec_rounds E n x y" and "ring3_ok (fst x)"
  shows "tss_esp0 (tss (segments (fst y))) = tss_esp0 (tss (segments (fst x))) - of_nat n * exec_stack_use E"
  using exec_rounds_stack [OF assms] by simp

text \<open>
  C10: exec looks for the first 11 characters of the name only. If the first word of the command is
  longer and no file has the name cut off there, the call returns -1 to its caller, whatever file
  there is with the full name; a name of eight characters, a dot and three characters has 12.
\<close>

theorem exec_cuts_names:
  assumes "volume (io E) view img (disk s) d" and "read_str (mem s) (ebx (user s)) = Some cmd" and "pieces cmd = w # ws"
    and "is_chain (next_cluster img (disk s)) (root_dir_cluster (disk s)) dcs" and "list_all (addressable (disk s)) dcs"
    and "find (named (fat32_string_to_name (map to_upper (take 11 w)))) (live (dir_entries img (disk s) dcs)) = None"
    and "eax (user s) = 9" and "ebx (user s) \<noteq> 0"
  shows "\<exists>s1 d1. trap E (s, d) = Some (s1, d1) \<and> user s1 = (user s)\<lparr>eax := -1\<rparr> \<and> exec_depth s1 = exec_depth s \<and> mem s1 = mem s"
proof -
  obtain pn as where p: "parse_command_line cmd (replicate 64 0) (current_program_args s) = (pn, as)" by force
  have pn: "cstr pn = w" using exec_name [OF assms(2,3), of "current_program_args s"] p by simp
  obtain f d1 where "fat32_open (io E) (map to_upper (take 11 w)) (disk s) d = Some (False, f, d1)"
    using open_missing [OF assms(1,4,5,6)] by blast
  then have "exec_fetch E (ebx (user s)) (s, d) = Some (Some (-1), s\<lparr>current_program_args := as, disk := f\<rparr>, d1)"
    using assms(2,8) p pn by (simp add: exec_fetch_def Let_def)
  then show ?thesis using assms(7) by (simp add: trap_def isr_handler_def syscall_handler_def sys_exec_def Let_def)
qed

subsection \<open>Witnesses\<close>

theorem program_confined_witness:
  "fenced (pc_kernel\<lparr>mem := (mem pc_kernel)(0x300109 := 7)\<rparr>) \<and> mem (pc_kernel\<lparr>mem := (mem pc_kernel)(0x300109 := 7)\<rparr>) 0x127000 = mem pc_kernel 0x127000"
proof -
  have "user_page pc_kernel 0x300109" using pc_kernel_tables(3) pc_paging(2) by (simp add: in_user_def)
  note st = pc_poke(1) [OF pc_kernel_ready this, of 7]
  have "ring3_ok pc_kernel" by (rule pc_ring3)
  then show ?thesis using program_confined [OF r_into_rtranclp [of "program_step pc_env", OF st]]
    by (simp add: ring3_ok_def in_user_def)
qed

theorem exec_restores_caller_witness:
  "\<exists>s1 d1 s3 d3. trap pc_env (pc_kernel, pc_drive) = Some (s1, d1) \<and> eip (user s1) = 0x200000
    \<and> trap pc_env (s1\<lparr>user := (user s1)\<lparr>eax := 2\<rparr>\<rparr>, d1) = Some (s3, d3) \<and> eip (user s3) = 0 \<and> eax (user s3) = 0 \<and> mem s3 0x300109 = 1"
proof -
  obtain s1 d1 where s1: "trap pc_env (pc_kernel, pc_drive) = Some (s1, d1)" "eip (user s1) = 0x200000"
    using pc_start [OF pc_kernel_ready] by blast
  have k: "eip (user pc_kernel) = 0" "mem pc_kernel 0x300109 = 1" using pc_kernel_facts(8) by (simp_all add: pc_kernel_def zero_regs_def)
  have "\<exists>s3 d3. trap pc_env (s1\<lparr>user := (user s1)\<lparr>eax := 2\<rparr>\<rparr>, d1) = Some (s3, d3) \<and> user s3 = (user pc_kernel)\<lparr>eax := 0\<rparr>
      \<and> (\<forall>a. in_user a \<longrightarrow> \<not> not_ram (saved_program pc_env + (a - 0x200000)) \<longrightarrow> mem s3 a = mem pc_kernel a)"
    using exec_restores_caller [OF pc_can_exec [OF pc_kernel_ready]] s1(1) pc_exit_step [of pc_env s1 d1] by fastforce
  then obtain s3 d3 where s3: "trap pc_env (s1\<lparr>user := (user s1)\<lparr>eax := 2\<rparr>\<rparr>, d1) = Some (s3, d3)" "user s3 = (user pc_kernel)\<lparr>eax := 0\<rparr>"
      "\<forall>a. in_user a \<longrightarrow> \<not> not_ram (saved_program pc_env + (a - 0x200000)) \<longrightarrow> mem s3 a = mem pc_kernel a" by blast
  have "mem s3 0x300109 = 1" using s3(3) k(2) by (simp add: in_user_def not_ram_def pc_env_def)
  then show ?thesis using s1 s3(1,2) k(1) by (intro exI [of _ s1] exI [of _ d1] exI [of _ s3] exI [of _ d3]) simp
qed

theorem nested_exec_loses_memory_witness:
  "\<exists>s1 d1 s2 d2 s3 d3 s4 d4. mem pc_kernel 0x300109 = 1 \<and> trap pc_env (pc_kernel, pc_drive) = Some (s1, d1)
    \<and> trap pc_env (s1\<lparr>mem := (mem s1)(0x300109 := 7)\<rparr>, d1) = Some (s2, d2)
    \<and> trap pc_env (s2\<lparr>user := (user s2)\<lparr>eax := 2\<rparr>\<rparr>, d2) = Some (s3, d3)
    \<and> trap pc_env (s3\<lparr>user := (user s3)\<lparr>eax := 2\<rparr>\<rparr>, d3) = Some (s4, d4)
    \<and> exec_depth s4 = exec_depth pc_kernel \<and> mem s4 0x300109 = 7"
proof -
  obtain s1 d1 where s1: "trap pc_env (pc_kernel, pc_drive) = Some (s1, d1)" "pc_ready s1 d1" "user_page s1 0x300109"
    using pc_start [OF pc_kernel_ready] pc_kernel_facts(6) by auto
  define sb where "sb = s1\<lparr>mem := (mem s1)(0x300109 := 7)\<rparr>"
  note b = pc_poke [OF s1(2,3), of 7, folded sb_def]
  obtain s2 d2 where s2: "trap pc_env (sb, d1) = Some (s2, d2)" using pc_start [OF b(2)] by blast
  define sc where "sc = s2\<lparr>user := (user s2)\<lparr>eax := 2\<rparr>\<rparr>"
  have w: "waiting pc_env sb s2" using can_exec_waiting [OF pc_can_exec [OF b(2)]] s2 by auto
  have wc: "waiting pc_env sb sc" using waiting_run [OF w pc_exit_step [of pc_env s2 d2]] by (simp add: sc_def)
  obtain s3 d3 where s3: "trap pc_env (sc, d2) = Some (s3, d3)" using waiting_exit [OF wc, of d2] by (auto simp: sc_def)
  define se where "se = s3\<lparr>user := (user s3)\<lparr>eax := 2\<rparr>\<rparr>"
  have "eax (user sc) = 2" "eax (user se) = 2" by (simp_all add: sc_def se_def)
  then obtain s4 d4 where s4: "trap pc_env (se, d3) = Some (s4, d4)" "exec_depth s4 = exec_depth pc_kernel" "\<forall>a. in_user a \<longrightarrow> mem s4 a = mem sb a"
    using nested_exec_loses_memory [OF pc_can_exec [OF pc_kernel_ready] s1(1) r_into_rtranclp [of "program_step pc_env", OF b(1)]
        pc_can_exec [OF b(2)] s2 pc_exit_step [of pc_env s2 d2, folded sc_def] _ s3 pc_exit_step [of pc_env s3 d3, folded se_def]] by blast
  have "mem s4 0x300109 = 7" using s4(3) by (simp add: in_user_def sb_def)
  then show ?thesis using pc_kernel_facts(8) s1(1) s2 s3 s4(1,2) unfolding sb_def sc_def se_def
    by (intro exI [of _ s1] exI [of _ d1] exI [of _ s2] exI [of _ d2] exI [of _ s3] exI [of _ d3] exI [of _ s4] exI [of _ d4]) simp
qed

theorem exec_runs_file_witness:
  "\<exists>s1 d1. trap pc_env (pc_kernel, pc_drive) = Some (s1, d1) \<and> eip (user s1) = 0x200000 \<and> user_page s1 0x200000 \<and> mem s1 0x200000 = 0xB8"
proof -
  have run: "runnable pc_env fst pc_sector demo_elf (pc_kernel, pc_drive)" by (rule pc_runnable) (simp_all add: pc_kernel_facts)
  have buf: "exec_buffer pc_env = 0x14000" by (simp add: pc_env_def)
  let ?m = "store_bytes (mem pc_kernel) 0x14000 demo_elf"
  have "fold (overlay ?m 0x14000) (phdrs ?m 0x14000) (mem pc_kernel) 0x200000 = 0xB8"
    by (simp add: fold_overlay loads_def [symmetric] pc_loads(1)) (simp add: covers_def seg_len_def seg_byte_def pc_byte, simp add: demo_elf_def)
  then show ?thesis
    using exec_runs_file [OF run pc_video] pc_kernel_facts(5,6) pc_ring3 pc_layout pc_loads(3) unfolding buf Let_def
    by (auto simp: in_user_def)
qed

theorem exec_leaks_kernel_stack_witness:
  "\<exists>y. exec_rounds pc_env 1 (pc_kernel, pc_drive) y \<and> tss_esp0 (tss (segments (fst y))) = tss_esp0 (tss (segments pc_kernel)) - 0x200"
proof -
  obtain s1 d1 where s1: "trap pc_env (pc_kernel, pc_drive) = Some (s1, d1)" using pc_start [OF pc_kernel_ready] by blast
  define s2 where "s2 = s1\<lparr>user := (user s1)\<lparr>eax := 2\<rparr>\<rparr>"
  have w: "waiting pc_env pc_kernel s1" using can_exec_waiting [OF pc_can_exec [OF pc_kernel_ready]] s1 by auto
  have w2: "waiting pc_env pc_kernel s2" using waiting_run [OF w pc_exit_step [of pc_env s1 d1]] by (simp add: s2_def)
  obtain s3 d3 where s3: "trap pc_env (s2, d1) = Some (s3, d3)" using waiting_exit [OF w2, of d1] by (auto simp: s2_def)
  have "exec_rounds pc_env (Suc 0) (pc_kernel, pc_drive) (s3, d3)"
    by (rule e_round [OF e_none _ pc_can_exec [OF pc_kernel_ready] s1 _ _ s3]) (use pc_exit_step in \<open>simp_all add: s2_def\<close>)
  then show ?thesis using exec_leaks_kernel_stack [of pc_env 1 "(pc_kernel, pc_drive)" "(s3, d3)"] pc_ring3
    by (intro exI [of _ "(s3, d3)"]) (simp add: pc_env_def)
qed

definition pc_long :: kernel where
  "pc_long = pc_kernel\<lparr>mem := store_bytes (mem pc_kernel) 0x300200 (str ''longname.elf'' @ [0]), user := zero_regs\<lparr>eax := 9, ebx := 0x300200\<rparr>\<rparr>"

theorem exec_cuts_names_witness:
  "file_on pc_sector (disk pc_long) (fat32_string_to_name (str ''LONGNAME.ELF'')) demo_elf
    \<and> (\<exists>s1 d1. trap pc_env (pc_long, pc_drive) = Some (s1, d1) \<and> eax (user s1) = -1)"
proof -
  have n: "fat32_string_to_name (str ''LONGNAME.ELF'') = name83 (str ''LONGNAME'') (str ''ELF'')"
    using string_to_name_name83 [of "str ''LONGNAME''" "str ''ELF''"] by (simp add: plain_def) (simp add: str_def ord_c_def of_char_def)
  have u: "map to_upper (take 11 (str ''longname.elf'')) = str ''LONGNAME'' @ [46] @ str ''EL''"
    by (simp add: str_def to_upper_def ord_c_def of_char_def)
  have n': "fat32_string_to_name (map to_upper (take 11 (str ''longname.elf''))) = name83 (str ''LONGNAME'') (str ''EL'')"
    using string_to_name_name83 [of "str ''LONGNAME''" "str ''EL''"] unfolding u by (simp add: plain_def) (simp add: str_def ord_c_def of_char_def)
  have v: "volume (io pc_env) fst pc_sector (disk pc_long) pc_drive" "disk pc_long = demo_fs"
    using pc_volume by (simp_all add: pc_long_def pc_kernel_def pc_env_def)
  have r: "read_str (mem pc_long) (ebx (user pc_long)) = Some (str ''longname.elf'')"
  proof (rule read_str_spec(1))
    have l: "length (str ''longname.elf'') = 12" by (simp add: str_def)
    show "is_cstring (str ''longname.elf'')" by (simp add: str_def ord_c_def of_char_def)
    show "described (ebx (user pc_long)) (length (str ''longname.elf'') + 1)" by (simp add: l pc_long_def described_def)
    fix k assume "k \<le> length (str ''longname.elf'')"
    then show "mem pc_long (ebx (user pc_long) + of_nat k) = (str ''longname.elf'' @ [0]) ! k"
      using unat_add_le [of "0x300200" 13 k] by (simp add: l pc_long_def store_bytes_apply del: store_bytes.simps)
  qed
  have c: "pieces (str ''longname.elf'') = [str ''longname.elf'']"
    by (rule command_word) (simp add: word_ok_def str_def ord_c_def of_char_def)
  have d: "is_chain (next_cluster pc_sector demo_fs) (root_dir_cluster demo_fs) [2]" "list_all (addressable demo_fs) [2]"
    using addressable_demo by (simp_all add: pc_chains demo_root_dir)
  have f: "find (named (name83 (str ''LONGNAME'') (str ''EL''))) (live (dir_entries pc_sector demo_fs [2])) = None"
    by (simp add: pc_root named_def direntry_of_def bytes_def pc_entry_def name83_def str_def ord_c_def of_char_def nth_append)
  show ?thesis using exec_cuts_names [OF v(1) r c, of "[2]", unfolded v(2) n', OF d f] pc_files(3) n
    by (auto simp: v(2)) (auto simp: pc_long_def)
qed

end
