(* ===== verification/Userland.thy ===== *)
theory Userland
  imports Args Fat32
begin

text \<open>
  The programs of userspace/: each as a function over the calls of libmagnos.h, which are passed as a
  record. A string argument of a call is the string the pointer leads to, a buffer that a call fills
  is returned. None is a call that does not return: the program waits forever, or the kernel has
  halted the machine. The programs run from call to call; interrupts between the calls are not part
  of these functions.
\<close>

subsection \<open>The calls\<close>

record 's calls =
  c_print :: "cstring \<Rightarrow> 's \<Rightarrow> 's option"
  c_file_open :: "cstring \<Rightarrow> 's \<Rightarrow> (int \<times> 's) option"
  c_file_read :: "u32 \<Rightarrow> 's \<Rightarrow> (int \<times> u8 list \<times> 's) option"
  c_file_close :: "'s \<Rightarrow> (int \<times> 's) option"
  c_list_dir :: "u32 \<Rightarrow> 's \<Rightarrow> (int \<times> fat32_dirinfo list \<times> 's) option"
  c_get_argc :: "'s \<Rightarrow> (int \<times> 's) option"
  c_get_arg :: "int \<Rightarrow> u32 \<Rightarrow> 's \<Rightarrow> (int \<times> cstring \<times> 's) option"
  c_getchar :: "'s \<Rightarrow> (u8 \<times> 's) option"
  c_clear :: "'s \<Rightarrow> 's option"
  c_exec :: "cstring \<Rightarrow> 's \<Rightarrow> (int \<times> 's) option"
  c_meminfo :: "u32 \<Rightarrow> 's \<Rightarrow> (u32 \<times> 's) option"
  c_heap_stats :: "u32 \<Rightarrow> 's \<Rightarrow> (u32 \<times> 's) option"
  c_sleep :: "u32 \<Rightarrow> 's \<Rightarrow> 's option"
  c_uptime :: "'s \<Rightarrow> (u32 \<times> 's) option"
  c_load :: "u32 \<Rightarrow> 's \<Rightarrow> (u32 \<times> 's) option" \<comment> \<open>reading \<open>*(volatile unsigned int *)a\<close>\<close>
  c_store :: "u32 \<Rightarrow> u32 \<Rightarrow> 's \<Rightarrow> 's option" \<comment> \<open>writing it\<close>

text \<open>Several strings printed one after the other.\<close>

fun prints :: "'s calls \<Rightarrow> cstring list \<Rightarrow> 's \<Rightarrow> 's option" where
  "prints C [] s = Some s"
| "prints C (t # ts) s = do { s \<leftarrow> c_print C t s; prints C ts s }"

subsection \<open>Small programs\<close>

definition hello_main :: "'s calls \<Rightarrow> 's \<Rightarrow> (int \<times> 's) option" where
  "hello_main C s = do {
     s \<leftarrow> prints C [str ''Hello, world!'' @ [10], str ''This is a user-space program running on MagnOS!'' @ [10]] s;
     Some (0, s) }"

definition print_main :: "'s calls \<Rightarrow> 's \<Rightarrow> (int \<times> 's) option" where
  "print_main C s = do { s \<leftarrow> c_print C (str ''Printer!'' @ [10]) s; Some (0, s) }"

text \<open>The loop of count.c from i on; the digit is \<open>'0' + i\<close>.\<close>

function count_loop :: "'s calls \<Rightarrow> nat \<Rightarrow> 's \<Rightarrow> 's option" where
  "count_loop C i s =
    (if i \<le> 5 then do {
       s \<leftarrow> prints C [[48 + of_nat i], [10]] s;
       s \<leftarrow> (if i < 5 then c_sleep C 1000 s else Some s);
       count_loop C (i + 1) s }
     else Some s)"
  by auto
termination
  by (relation "measure (\<lambda>(C, i, s). 6 - i)") auto

declare count_loop.simps [simp del]

definition count_main :: "'s calls \<Rightarrow> 's \<Rightarrow> (int \<times> 's) option" where
  "count_main C s = do { s \<leftarrow> count_loop C 1 s; Some (0, s) }"

definition uptime_main :: "'s calls \<Rightarrow> 's \<Rightarrow> (int \<times> 's) option" where
  "uptime_main C s = do {
     (ms, s) \<leftarrow> c_uptime C s;
     let seconds = ms div 1000;
     let minutes = seconds div 60;
     let hours = minutes div 60;
     s \<leftarrow> c_print C (str ''Uptime: '') s;
     s \<leftarrow> (if hours > 0 then prints C [uint_to_str hours, str ''h ''] s else Some s);
     s \<leftarrow> prints C [uint_to_str (minutes mod 60), str ''m ''] s;
     s \<leftarrow> prints C [uint_to_str (seconds mod 60), str ''s'' @ [10]] s;
     Some (0, s) }"

definition ring3_main :: "'s calls \<Rightarrow> 's \<Rightarrow> (int \<times> 's) option" where
  "ring3_main C s = do {
     s \<leftarrow> prints C [str ''Running in ring 3 (user mode)'' @ [10, 10],
       str ''Test 1: Syscalls work from ring 3'' @ [10], str ''  print() via int 0x80: OK'' @ [10],
       [10] @ str ''Test 2: Reading uptime via syscall'' @ [10]] s;
     (ms, s) \<leftarrow> c_uptime C s;
     s \<leftarrow> prints C [str ''  Uptime: '', uint_to_str (ms div 1000), str ''s OK'' @ [10]] s;
     s \<leftarrow> prints C [[10] @ str ''Test 3: Attempting to read kernel memory (0x1000)...'' @ [10],
       str ''  This should cause a page fault:'' @ [10]] s;
     (val2, s) \<leftarrow> c_load C 0x1000 s;
     s \<leftarrow> c_print C (str ''  ERROR: Should not reach here!'' @ [10]) s;
     Some (0, s) }"

definition pftest_main :: "'s calls \<Rightarrow> 's \<Rightarrow> (int \<times> 's) option" where
  "pftest_main C s = do {
     s \<leftarrow> c_print C (str ''Triggering page fault (writing to 0x2000000 = 32MB)...'' @ [10]) s;
     s \<leftarrow> c_store C 0x2000000 0xDEAD s;
     s \<leftarrow> c_print C (str ''This should never be reached!'' @ [10]) s;
     Some (0, s) }"

subsection \<open>free\<close>

definition free_main :: "'s calls \<Rightarrow> 's \<Rightarrow> (int \<times> 's) option" where
  "free_main C s = do {
     (free_pages, s) \<leftarrow> c_meminfo C 0 s;
     (total_pages, s) \<leftarrow> c_meminfo C 1 s;
     (page_size, s) \<leftarrow> c_meminfo C 2 s;
     let used_pages = total_pages - free_pages;
     let total_kb = total_pages * (page_size div 1024);
     let free_kb = free_pages * (page_size div 1024);
     let used_kb = used_pages * (page_size div 1024);
     s \<leftarrow> prints C [str ''Memory:'' @ [10],
       str ''  Total: '', uint_to_str total_kb, str '' KB'' @ [10],
       str ''  Used:  '', uint_to_str used_kb, str '' KB'' @ [10],
       str ''  Free:  '', uint_to_str free_kb, str '' KB'' @ [10],
       str ''  Pages: '', uint_to_str free_pages, str ''/'', uint_to_str total_pages, str '' free'' @ [10]] s;
     (heap_free, s) \<leftarrow> c_heap_stats C 0 s;
     (heap_used, s) \<leftarrow> c_heap_stats C 1 s;
     (heap_total, s) \<leftarrow> c_heap_stats C 2 s;
     s \<leftarrow> prints C [[10] @ str ''Heap:'' @ [10],
       str ''  Total: '', uint_to_str (heap_total div 1024), str '' KB'' @ [10],
       str ''  Used:  '', uint_to_str (heap_used div 1024), str '' KB'' @ [10],
       str ''  Free:  '', uint_to_str (heap_free div 1024), str '' KB'' @ [10]] s;
     let heap_pages_used = heap_total div page_size;
     let avail_kb = (free_pages + heap_pages_used) * (page_size div 1024);
     s \<leftarrow> prints C [[10] @ str ''Total available: '', uint_to_str avail_kb, str '' KB'' @ [10]] s;
     Some (0, s) }"

subsection \<open>cat\<close>

partial_function (option) cat_loop :: "'s calls \<Rightarrow> 's \<Rightarrow> (int \<times> 's) option" where
  "cat_loop C s = do {
     (bytes_read, buffer, s) \<leftarrow> c_file_read C 1023 s;
     if bytes_read < 0 then do {
       s \<leftarrow> c_print C (str ''cat: Error reading file'' @ [10]) s;
       (r, s) \<leftarrow> c_file_close C s;
       Some (1, s) }
     else if bytes_read = 0 then do {
       (r, s) \<leftarrow> c_file_close C s;
       Some (0, s) }
     else do {
       s \<leftarrow> c_print C (cstr (take (nat bytes_read) buffer)) s;
       cat_loop C s } }"

definition cat_main :: "'s calls \<Rightarrow> 's \<Rightarrow> (int \<times> 's) option" where
  "cat_main C s = do {
     (argc, s) \<leftarrow> c_get_argc C s;
     if argc < 1 then do { s \<leftarrow> c_print C (str ''Usage: cat <filename>'' @ [10]) s; Some (1, s) }
     else do {
       (r, filename, s) \<leftarrow> c_get_arg C 0 64 s;
       if r \<noteq> 0 then do { s \<leftarrow> c_print C (str ''Error: Failed to get filename argument'' @ [10]) s; Some (1, s) }
       else do {
         (result, s) \<leftarrow> c_file_open C filename s;
         if result \<noteq> 0 then do { s \<leftarrow> prints C [str ''cat: '', filename, str '': No such file'' @ [10]] s; Some (1, s) }
         else cat_loop C s } } }"

subsection \<open>ls\<close>

definition print_padded :: "'s calls \<Rightarrow> cstring \<Rightarrow> nat \<Rightarrow> 's \<Rightarrow> 's option" where
  "print_padded C t width s = do {
     s \<leftarrow> c_print C t s;
     prints C (replicate (width - length t) [32]) s }"

definition rule_line :: cstring where
  "rule_line = replicate 50 (ord_c CHR ''-'') @ [10]"

fun ls_loop :: "'s calls \<Rightarrow> fat32_dirinfo list \<Rightarrow> 's \<Rightarrow> 's option" where
  "ls_loop C [] s = Some s"
| "ls_loop C (e # es) s = do {
     s \<leftarrow> print_padded C (di_name e) 16 s;
     s \<leftarrow> c_print C (if di_is_directory e \<noteq> 0 then str ''<DIR>   '' else str ''<FILE>  '') s;
     s \<leftarrow> prints C [uint_to_str (di_size e), str '' bytes'' @ [10]] s;
     ls_loop C es s }"

definition ls_main :: "'s calls \<Rightarrow> 's \<Rightarrow> (int \<times> 's) option" where
  "ls_main C s = do {
     s \<leftarrow> prints C [str ''Directory listing:'' @ [10], rule_line, str ''Name            Type    Size'' @ [10], rule_line] s;
     (count, entries, s) \<leftarrow> c_list_dir C 64 s;
     if count < 0 then do { s \<leftarrow> c_print C (str ''Error: Failed to read directory'' @ [10]) s; Some (1, s) }
     else if count = 0 then do { s \<leftarrow> c_print C (str ''(empty directory)'' @ [10]) s; Some (0, s) }
     else do {
       s \<leftarrow> ls_loop C (take (nat count) entries) s;
       s \<leftarrow> prints C [rule_line, str ''Total entries: '', uint_to_str (of_int count), [10]] s;
       Some (0, s) } }"

subsection \<open>shell\<close>

fun sh_strncmp :: "nat \<Rightarrow> cstring \<Rightarrow> cstring \<Rightarrow> int" where
  "sh_strncmp 0 a b = 0"
| "sh_strncmp (Suc n) a b =
    (if deref a \<noteq> 0 \<and> deref a = deref b then sh_strncmp n (tl a) (tl b)
     else int (unat (deref a)) - int (unat (deref b)))"

definition putchar_custom :: "'s calls \<Rightarrow> u8 \<Rightarrow> 's \<Rightarrow> 's option" where
  "putchar_custom C c s = c_print C (cstr [c, 0]) s"

text \<open>
  One character: the result is the exit code if main returns, or the buffer and the position for the
  next round.
\<close>

definition sh_exec :: "'s calls \<Rightarrow> cstring \<Rightarrow> 's \<Rightarrow> 's option" where
  "sh_exec C cmd s = do {
     (result, s) \<leftarrow> c_exec C cmd s;
     if result = -1 then prints C [str ''Command not found: '', cmd, [10]] s
     else if result = -2 then c_print C (str ''Error: File too large'' @ [10]) s
     else if result = -3 then c_print C (str ''Error: Failed to read file'' @ [10]) s
     else if result = -4 then c_print C (str ''Error: Not an ELF binary'' @ [10]) s
     else if result = -5 then c_print C (str ''Error: Failed to execute'' @ [10]) s
     else Some s }"

definition sh_char :: "'s calls \<Rightarrow> u8 \<Rightarrow> u8 list \<Rightarrow> nat \<Rightarrow> 's \<Rightarrow> ((int + u8 list \<times> nat) \<times> 's) option" where
  "sh_char C c cmd_buf cmd_pos s =
    (if c = 8 then
       (if cmd_pos > 0 then do { s \<leftarrow> c_print C [8, 32, 8] s; Some (Inr (cmd_buf, cmd_pos - 1), s) }
        else Some (Inr (cmd_buf, cmd_pos), s))
     else if c = 10 then do {
       s \<leftarrow> putchar_custom C 10 s;
       let cmd_buf = cmd_buf[cmd_pos := 0];
       if cmd_pos > 0 then
         if sh_strncmp 64 (cstr cmd_buf) (str ''clear'') = 0 then do {
           s \<leftarrow> c_clear C s;
           s \<leftarrow> c_print C (str ''MagnOS> '') s;
           Some (Inr (cmd_buf, 0), s) }
         else if sh_strncmp 64 (cstr cmd_buf) (str ''exit'') = 0 then Some (Inl 0, s)
         else do {
           s \<leftarrow> sh_exec C (cstr cmd_buf) s;
           s \<leftarrow> c_print C (str ''MagnOS> '') s;
           Some (Inr (cmd_buf, 0), s) }
       else do { s \<leftarrow> c_print C (str ''MagnOS> '') s; Some (Inr (cmd_buf, 0), s) } }
     else if cmd_pos < 63 then do {
       s \<leftarrow> putchar_custom C c s;
       Some (Inr (cmd_buf[cmd_pos := c], cmd_pos + 1), s) }
     else Some (Inr (cmd_buf, cmd_pos), s))"

partial_function (option) sh_loop :: "'s calls \<Rightarrow> u8 list \<Rightarrow> nat \<Rightarrow> 's \<Rightarrow> (int \<times> 's) option" where
  "sh_loop C cmd_buf cmd_pos s = do {
     (c, s) \<leftarrow> c_getchar C s;
     (r, s) \<leftarrow> sh_char C c cmd_buf cmd_pos s;
     (case r of Inl code \<Rightarrow> Some (code, s) | Inr (cmd_buf, cmd_pos) \<Rightarrow> sh_loop C cmd_buf cmd_pos s) }"

definition shell_main :: "'s calls \<Rightarrow> u8 list \<Rightarrow> 's \<Rightarrow> (int \<times> 's) option" where
  "shell_main C cmd_buf s = do {
     s \<leftarrow> prints C [[10] @ str ''MagnOS Shell Started'' @ [10], str ''MagnOS> ''] s;
     sh_loop C cmd_buf 0 s }"

end
