(* ===== verification/Programs.thy ===== *)
theory Programs
  imports Userland
begin

text \<open>
  What the programs do, proved from what the system calls promise: \<open>cat\<close> shows the file, \<open>ls\<close> shows the
  directory, and the shell executes the line that was typed.
\<close>

subsection \<open>The interface to the kernel\<close>

text \<open>
  The states are abstract. \<open>shown\<close> is what the user sees, and \<open>put t\<close> what printing \<open>t\<close> makes of it;
  \<open>on_disk\<close> are the files of the volume, \<open>opened s data p\<close> says that the open
  file has these contents and that its position is \<open>p\<close>, \<open>argv\<close> are the arguments of the program, and
  \<open>input\<close> are the characters that have been typed and not been read.
\<close>

definition text_ok :: "cstring \<Rightarrow> bool" where
  "text_ok t \<longleftrightarrow> t \<noteq> [] \<and> is_cstring t \<and> length t < 1024"

locale program_calls =
  fixes C :: "'s calls" and ok :: "'s \<Rightarrow> bool" and shown :: "'s \<Rightarrow> 'o" and put :: "cstring \<Rightarrow> 'o \<Rightarrow> 'o"
    and on_disk :: "cstring \<Rightarrow> u8 list \<Rightarrow> bool" and opened :: "'s \<Rightarrow> u8 list \<Rightarrow> nat \<Rightarrow> bool"
    and argv :: "'s \<Rightarrow> cstring list" and input :: "'s \<Rightarrow> u8 list"
  assumes put_Nil: "put [] v = v" and put_put: "put b (put a v) = put (a @ b) v"
    and print_law: "ok s \<Longrightarrow> text_ok t \<Longrightarrow> \<exists>s'. c_print C t s = Some s' \<and> ok s' \<and> shown s' = put t (shown s)
      \<and> argv s' = argv s \<and> input s' = input s \<and> (\<forall>data p. opened s data p \<longrightarrow> opened s' data p)"
    and open_law: "ok s \<Longrightarrow> on_disk nm data \<Longrightarrow> is_cstring nm \<Longrightarrow> length nm < 64 \<Longrightarrow>
      \<exists>s'. c_file_open C nm s = Some (0, s') \<and> ok s' \<and> shown s' = shown s \<and> opened s' data 0"
    and read_law: "ok s \<Longrightarrow> opened s data p \<Longrightarrow> n < 1024 \<Longrightarrow> c = take (unat n) (drop p data) \<Longrightarrow>
      \<exists>s'. c_file_read C n s = Some (int (length c), c, s') \<and> ok s' \<and> shown s' = shown s \<and> opened s' data (p + length c)"
    and close_law: "ok s \<Longrightarrow> opened s data p \<Longrightarrow> \<exists>s'. c_file_close C s = Some (0, s') \<and> ok s' \<and> shown s' = shown s"
    and argc_law: "ok s \<Longrightarrow> \<exists>s'. c_get_argc C s = Some (int (length (argv s)), s') \<and> ok s' \<and> shown s' = shown s \<and> argv s' = argv s"
    and arg_law: "ok s \<Longrightarrow> argv s = a # as \<Longrightarrow>
      \<exists>s'. c_get_arg C 0 64 s = Some (0, a, s') \<and> is_cstring a \<and> length a < 64 \<and> ok s' \<and> shown s' = shown s"
    and getchar_law: "ok s \<Longrightarrow> input s = ch # cs \<Longrightarrow> \<exists>s'. c_getchar C s = Some (ch, s') \<and> ok s' \<and> shown s' = shown s \<and> input s' = cs"

text \<open>A volume with a directory that can be listed, and commands for which there is no file.\<close>

locale listing_calls = program_calls +
  fixes dir :: "fat32_dirinfo list"
  assumes list_law: "ok s \<Longrightarrow> \<exists>s'. c_list_dir C 64 s = Some (int (length (take 64 dir)), take 64 dir, s') \<and> ok s' \<and> shown s' = shown s"

locale command_calls = program_calls +
  fixes missing :: "cstring \<Rightarrow> bool"
  assumes exec_law: "ok s \<Longrightarrow> missing t \<Longrightarrow> text_ok t \<Longrightarrow>
    \<exists>s'. c_exec C t s = Some (-1, s') \<and> ok s' \<and> shown s' = shown s \<and> input s' = input s"

text \<open>What \<open>ls\<close> is to show: a line per entry, the name padded to 16 columns, the kind, the size.\<close>

definition ls_line :: "fat32_dirinfo \<Rightarrow> cstring" where
  "ls_line e = di_name e @ replicate (16 - length (di_name e)) 32 @
    (if di_is_directory e \<noteq> 0 then str ''<DIR>   '' else str ''<FILE>  '') @ uint_to_str (di_size e) @ str '' bytes'' @ [10]"

definition ls_text :: "fat32_dirinfo list \<Rightarrow> cstring" where
  "ls_text es = str ''Directory listing:'' @ [10] @ rule_line @ str ''Name            Type    Size'' @ [10] @ rule_line @
    (if es = [] then str ''(empty directory)'' @ [10]
     else concat (map ls_line es) @ rule_line @ str ''Total entries: '' @ uint_to_str (of_nat (length es)) @ [10])"

text \<open>What typing does to a line of at most 63 characters, and what is echoed.\<close>

definition edit :: "u8 \<Rightarrow> cstring \<Rightarrow> cstring" where
  "edit c line = (if c = 8 then butlast line else if length line < 63 then line @ [c] else line)"

fun echo :: "cstring \<Rightarrow> cstring \<Rightarrow> cstring" where
  "echo line [] = []"
| "echo line (c # cs) = (if c = 8 then (if line = [] then [] else [8, 32, 8]) else if length line < 63 then [c] else []) @ echo (edit c line) cs"

lemma sh_strncmp_eq:
  assumes "is_cstring a" and "is_cstring b" and "length a < n"
  shows "sh_strncmp n a b = 0 \<longleftrightarrow> a = b"
  using assms
proof (induction n a b rule: sh_strncmp.induct)
  case (2 n a b)
  have z: "int (unat u) - int (unat v) = 0 \<longleftrightarrow> u = v" for u v :: u8 by (metis diff_eq_eq add_0 of_nat_eq_iff word_unat_eq_iff)
  show ?case using 2
    by (cases a; cases b) (auto simp only: sh_strncmp.simps z deref.simps list.sel is_cstring_Cons is_cstring_Nil list.size split: if_splits, auto)
qed simp

lemma text_ok_str:
  "text_ok (str ''Directory listing:'' @ [10])" "text_ok rule_line" "text_ok (str ''Name            Type    Size'' @ [10])"
  "text_ok (str ''(empty directory)'' @ [10])" "text_ok (str ''<DIR>   '')" "text_ok (str ''<FILE>  '')" "text_ok (str '' bytes'' @ [10])"
  "text_ok (str ''Total entries: '')" "text_ok [c] \<longleftrightarrow> c \<noteq> 0" "text_ok [8, 32, 8]" "text_ok (str ''MagnOS> '')" "text_ok (uint_to_str n)"
  using uint_to_str_cstring [of n] dec_digits_last [of n]
  by (auto simp: text_ok_def str_def ord_c_def of_char_def rule_line_def is_cstring_def uint_to_str_def)

context program_calls
begin

lemma prints_law:
  "ok s \<Longrightarrow> list_all text_ok ts \<Longrightarrow> \<exists>s'. prints C ts s = Some s' \<and> ok s' \<and> shown s' = put (concat ts) (shown s)
    \<and> argv s' = argv s \<and> input s' = input s \<and> (\<forall>data p. opened s data p \<longrightarrow> opened s' data p)"
proof (induction ts arbitrary: s)
  case (Cons t ts)
  obtain s1 where s1: "c_print C t s = Some s1" "ok s1" "shown s1 = put t (shown s)" "argv s1 = argv s" "input s1 = input s"
      "\<forall>data p. opened s data p \<longrightarrow> opened s1 data p"
    using print_law [OF Cons.prems(1), of t] Cons.prems(2) by auto
  then show ?case using Cons.IH [OF s1(2)] Cons.prems(2) by (auto simp: put_put)
qed (simp add: put_Nil)

lemma cat_loop_shows:
  assumes "ok s" and "opened s data p" and "p \<le> length data" and "is_cstring data"
  shows "\<exists>s'. cat_loop C s = Some (0, s') \<and> ok s' \<and> shown s' = put (drop p data) (shown s)"
  using assms
proof (induction "length data - p" arbitrary: s p rule: less_induct)
  case less
  define c where "c = take 1023 (drop p data)"
  have c: "c = take (unat (1023 :: u32)) (drop p data)" by (simp add: c_def)
  obtain s1 where s1: "c_file_read C 1023 s = Some (int (length c), c, s1)" "ok s1" "shown s1 = shown s" "opened s1 data (p + length c)"
    using read_law [OF less.prems(1,2) _ c] by auto
  show ?case
  proof (cases "c = []")
    case True
    then have e: "drop p data = []" by (simp add: c_def)
    obtain s2 where "c_file_close C s1 = Some (0, s2)" "ok s2" "shown s2 = shown s1" using close_law [OF s1(2,4)] by blast
    then show ?thesis using s1 True e by (subst cat_loop.simps) (simp add: put_Nil)
  next
    case False
    have cs: "is_cstring c" using less.prems(4) by (auto simp: c_def is_cstring_def dest: in_set_takeD in_set_dropD)
    then have t: "text_ok c" using False by (simp add: text_ok_def c_def)
    have cc: "cstr (take (nat (int (length c))) c) = c" using cs by (simp add: cstr_def is_cstring_def takeWhile_eq_all_conv) metis
    obtain s2 where s2: "c_print C c s1 = Some s2" "ok s2" "shown s2 = put c (shown s)" "opened s2 data (p + length c)"
      using print_law [OF s1(2) t] s1(3,4) by auto
    have "p + length c \<le> length data" "length data - (p + length c) < length data - p"
      using False less.prems(3) by (auto simp: c_def)
    then obtain s3 where s3: "cat_loop C s2 = Some (0, s3)" "ok s3" "shown s3 = put (drop (p + length c) data) (shown s2)"
      using less.hyps [OF _ s2(2,4)] less.prems(4) by blast
    have "take (length c) (drop p data) = c" "drop (length c) (drop p data) = drop (p + length c) data" by (simp_all add: c_def add.commute min_def)
    then have "drop p data = c @ drop (p + length c) data" using append_take_drop_id [of "length c" "drop p data"] by simp
    then show ?thesis using s1(1) s2(1,3) s3 False cc by (subst cat_loop.simps) (simp add: put_put)
  qed
qed

lemma cat_shows:
  assumes "ok s" and "argv s = nm # as" and "on_disk nm data" and "is_cstring data"
  shows "\<exists>s'. cat_main C s = Some (0, s') \<and> shown s' = put data (shown s)"
proof -
  obtain s1 where s1: "c_get_argc C s = Some (int (length (argv s)), s1)" "ok s1" "shown s1 = shown s" "argv s1 = argv s"
    using argc_law [OF assms(1)] by blast
  obtain s2 where s2: "c_get_arg C 0 64 s1 = Some (0, nm, s2)" "is_cstring nm" "length nm < 64" "ok s2" "shown s2 = shown s"
    using arg_law [OF s1(2), of nm as] s1(3,4) assms(2) by auto
  obtain s3 where s3: "c_file_open C nm s2 = Some (0, s3)" "ok s3" "shown s3 = shown s" "opened s3 data 0"
    using open_law [OF s2(4) assms(3) s2(2,3)] s2(5) by auto
  obtain s4 where "cat_loop C s3 = Some (0, s4)" "shown s4 = put data (shown s)"
    using cat_loop_shows [OF s3(2,4) _ assms(4)] s3(3) by auto
  then show ?thesis using s1(1) s2(1) s3(1) assms(2) by (simp add: cat_main_def)
qed

lemma ls_loop_shows:
  "ok s \<Longrightarrow> list_all (\<lambda>e. text_ok (di_name e)) es \<Longrightarrow> \<exists>s'. ls_loop C es s = Some s' \<and> ok s' \<and> shown s' = put (concat (map ls_line es)) (shown s)"
proof (induction es arbitrary: s)
  case (Cons e es)
  define k where "k = (if di_is_directory e \<noteq> 0 then str ''<DIR>   '' else str ''<FILE>  '')"
  have k: "text_ok k" by (simp add: k_def text_ok_str)
  obtain s1 where s1: "c_print C (di_name e) s = Some s1" "ok s1" "shown s1 = put (di_name e) (shown s)"
    using print_law [OF Cons.prems(1), of "di_name e"] Cons.prems(2) by auto
  obtain s2 where s2: "prints C (replicate (16 - length (di_name e)) [32]) s1 = Some s2" "ok s2"
      "shown s2 = put (di_name e @ replicate (16 - length (di_name e)) 32) (shown s)"
    using prints_law [OF s1(2), of "replicate (16 - length (di_name e)) [32]"] s1(3)
    by (auto simp: text_ok_str list_all_iff put_put concat_replicate_single)
  obtain s3 where s3: "c_print C k s2 = Some s3" "ok s3" "shown s3 = put k (shown s2)" using print_law [OF s2(2) k] by auto
  obtain s4 where s4: "prints C [uint_to_str (di_size e), str '' bytes'' @ [10]] s3 = Some s4" "ok s4"
      "shown s4 = put (uint_to_str (di_size e) @ str '' bytes'' @ [10]) (shown s3)"
    using prints_law [OF s3(2), of "[uint_to_str (di_size e), str '' bytes'' @ [10]]"] text_ok_str by auto
  obtain s5 where "ls_loop C es s4 = Some s5" "ok s5" "shown s5 = put (concat (map ls_line es)) (shown s4)"
    using Cons.IH [OF s4(2)] Cons.prems(2) by auto
  moreover have "ls_line e = di_name e @ replicate (16 - length (di_name e)) 32 @ k @ uint_to_str (di_size e) @ str '' bytes'' @ [10]"
    by (simp add: ls_line_def k_def)
  ultimately show ?case using s1 s2 s3 s4 unfolding ls_loop.simps print_padded_def k_def [symmetric] by (simp add: put_put del: prints.simps)
qed (simp add: put_Nil)

end

context listing_calls
begin

lemma ls_shows:
  assumes "ok s" and "list_all (\<lambda>e. text_ok (di_name e)) dir"
  shows "\<exists>s'. ls_main C s = Some (0, s') \<and> shown s' = put (ls_text (take 64 dir)) (shown s)"
proof -
  define hs where "hs = [str ''Directory listing:'' @ [10], rule_line, str ''Name            Type    Size'' @ [10], rule_line]"
  define es where "es = take 64 dir"
  obtain s1 where s1: "prints C hs s = Some s1" "ok s1" "shown s1 = put (concat hs) (shown s)"
    using prints_law [OF assms(1), of hs] text_ok_str by (auto simp: hs_def)
  obtain s2 where s2: "c_list_dir C 64 s1 = Some (int (length es), es, s2)" "ok s2" "shown s2 = shown s1"
    using list_law [OF s1(2)] by (auto simp: es_def)
  show ?thesis
  proof (cases "es = []")
    case True
    obtain s3 where "c_print C (str ''(empty directory)'' @ [10]) s2 = Some s3" "shown s3 = put (str ''(empty directory)'' @ [10]) (shown s2)"
      using print_law [OF s2(2) text_ok_str(4)] by auto
    then show ?thesis using s1 s2 True by (simp add: ls_main_def hs_def [symmetric] es_def [symmetric] ls_text_def put_put del: prints.simps) (simp add: hs_def)
  next
    case False
    have a: "list_all (\<lambda>e. text_ok (di_name e)) es" using assms(2) by (auto simp: es_def list_all_iff dest: in_set_takeD)
    obtain s3 where s3: "ls_loop C es s2 = Some s3" "ok s3" "shown s3 = put (concat (map ls_line es)) (shown s2)"
      using ls_loop_shows [OF s2(2) a] by blast
    let ?ts = "[rule_line, str ''Total entries: '', uint_to_str (of_nat (length es)), [10]]"
    obtain s4 where "prints C ?ts s3 = Some s4" "shown s4 = put (concat ?ts) (shown s3)"
      using prints_law [OF s3(2), of ?ts] text_ok_str by auto
    then show ?thesis using s1 s2 s3 False
      by (simp add: ls_main_def hs_def [symmetric] es_def [symmetric] ls_text_def put_put del: prints.simps) (simp add: hs_def)
  qed
qed

end

context program_calls
begin

lemma sh_char_edits:
  assumes "ok s" and "c \<noteq> 10" and "c \<noteq> 0" and "length buf = 64" and "length line \<le> 63" and "take (length line) buf = line"
  shows "\<exists>s' buf'. sh_char C c buf (length line) s = Some (Inr (buf', length (edit c line)), s') \<and> length buf' = 64
    \<and> take (length (edit c line)) buf' = edit c line \<and> length (edit c line) \<le> 63
    \<and> ok s' \<and> shown s' = put (echo line [c]) (shown s) \<and> input s' = input s"
proof -
  have "text_ok [c]" using assms(3) by (simp add: text_ok_str)
  then obtain s1 where s1: "c_print C [c] s = Some s1" "ok s1" "shown s1 = put [c] (shown s)" "input s1 = input s"
    using print_law [OF assms(1)] by blast
  obtain s2 where s2: "c_print C [8, 32, 8] s = Some s2" "ok s2" "shown s2 = put [8, 32, 8] (shown s)" "input s2 = input s"
    using print_law [OF assms(1) text_ok_str(10)] by blast
  have b: "take (length (butlast line)) buf = butlast line" using assms(6) by (metis butlast_take diff_le_self length_butlast length_take nat_le_linear take_all take_butlast butlast_conv_take)
  have p: "take (length line + 1) (buf[length line := c]) = line @ [c]" if "length line < 63"
    using that assms(4,6) by (simp add: take_Suc_conv_app_nth)
  consider "c = 8" "line = []" | "c = 8" "line \<noteq> []" | "c \<noteq> 8" "length line < 63" | "c \<noteq> 8" "\<not> length line < 63" by blast
  then show ?thesis
  proof cases
    case 1
    then show ?thesis using assms(1,4) by (intro exI [of _ s] exI [of _ buf]) (simp add: sh_char_def edit_def put_Nil)
  next
    case 2
    then show ?thesis using assms(2,4,5) s2 b by (intro exI [of _ s2] exI [of _ buf]) (simp add: sh_char_def edit_def)
  next
    case 3
    then show ?thesis using assms(2-5) s1 p
      by (intro exI [of _ s1] exI [of _ "buf[length line := c]"]) (simp add: sh_char_def edit_def putchar_custom_def cstr_def)
  next
    case 4
    then show ?thesis using assms by (intro exI [of _ s] exI [of _ buf]) (simp add: sh_char_def edit_def put_Nil)
  qed
qed

text \<open>The line that is typed, character by character.\<close>

lemma sh_loop_edits:
  assumes "ok s" and "input s = cs @ rest" and "10 \<notin> set cs" and "is_cstring cs" and "length buf = 64" and "length line \<le> 63"
    and "take (length line) buf = line"
  shows "\<exists>s' buf'. sh_loop C buf (length line) s = sh_loop C buf' (length (fold edit cs line)) s' \<and> length buf' = 64
    \<and> take (length (fold edit cs line)) buf' = fold edit cs line \<and> length (fold edit cs line) \<le> 63
    \<and> ok s' \<and> shown s' = put (echo line cs) (shown s) \<and> input s' = rest"
  using assms
proof (induction cs arbitrary: s buf line)
  case Nil
  then show ?case by (intro exI [of _ s] exI [of _ buf]) (simp add: put_Nil)
next
  case (Cons c cs)
  obtain s1 where s1: "c_getchar C s = Some (c, s1)" "ok s1" "shown s1 = shown s" "input s1 = cs @ rest"
    using getchar_law [OF Cons.prems(1), of c "cs @ rest"] Cons.prems(2) by auto
  obtain s2 buf2 where s2: "sh_char C c buf (length line) s1 = Some (Inr (buf2, length (edit c line)), s2)" "length buf2 = 64"
      "take (length (edit c line)) buf2 = edit c line" "length (edit c line) \<le> 63" "ok s2" "shown s2 = put (echo line [c]) (shown s)" "input s2 = cs @ rest"
    using sh_char_edits [OF s1(2), of c buf line] Cons.prems(3-7) s1(3,4) by auto
  have step: "sh_loop C buf (length line) s = sh_loop C buf2 (length (edit c line)) s2"
    using s1(1) s2(1) by (subst sh_loop.simps) simp
  obtain s3 buf3 where s3: "sh_loop C buf2 (length (edit c line)) s2 = sh_loop C buf3 (length (fold edit cs (edit c line))) s3" "length buf3 = 64"
      "take (length (fold edit cs (edit c line))) buf3 = fold edit cs (edit c line)" "length (fold edit cs (edit c line)) \<le> 63"
      "ok s3" "shown s3 = put (echo (edit c line) cs) (shown s2)" "input s3 = rest"
    using Cons.IH [OF s2(5,7) _ _ s2(2,4,3)] Cons.prems(3,4) by auto
  have "put (echo (edit c line) cs) (put (echo line [c]) (shown s)) = put (echo line (c # cs)) (shown s)" by (simp add: put_put)
  then show ?case using step s3 s2(6) by (intro exI [of _ s3] exI [of _ buf3]) simp
qed

lemma sh_line:
  assumes "ok s" and "input s = cs @ 10 # rest" and "10 \<notin> set cs" and "is_cstring cs" and "length buf = 64"
    and "line = fold edit cs []" and "line \<notin> {[], str ''clear'', str ''exit''}"
  shows "\<exists>s' buf'. sh_loop C buf 0 s = do { t \<leftarrow> sh_exec C line s'; t \<leftarrow> c_print C (str ''MagnOS> '') t; sh_loop C buf' 0 t }
    \<and> ok s' \<and> shown s' = put (echo [] cs @ [10]) (shown s) \<and> input s' = rest \<and> length buf' = 64 \<and> text_ok line"
proof -
  obtain s1 buf1 where s1: "sh_loop C buf 0 s = sh_loop C buf1 (length line) s1" "length buf1 = 64" "take (length line) buf1 = line"
      "length line \<le> 63" "ok s1" "shown s1 = put (echo [] cs) (shown s)" "input s1 = 10 # rest"
    using sh_loop_edits [OF assms(1-5), of "[]"] assms(6) by auto
  obtain s2 where s2: "c_getchar C s1 = Some (10, s2)" "ok s2" "shown s2 = shown s1" "input s2 = rest" using getchar_law [OF s1(5,7)] by auto
  obtain s3 where s3: "c_print C [10] s2 = Some s3" "ok s3" "shown s3 = put [10] (shown s2)" "input s3 = rest"
    using print_law [OF s2(2), of "[10]"] s2(4) by (auto simp: text_ok_str)
  define buf' where "buf' = buf1[length line := 0]"
  have edits: "is_cstring (fold edit cs l)" if "is_cstring l" for l
    using assms(4) that by (induction cs arbitrary: l) (auto simp: edit_def is_cstring_def dest: in_set_butlastD)
  have l: "is_cstring line" using edits [of "[]"] assms(6) by simp
  have "buf' = line @ 0 # drop (length line + 1) buf1" using s1(2-4) by (simp add: buf'_def upd_conv_take_nth_drop)
  then have c: "cstr buf' = line" using cstr_word [OF l] by simp
  have k: "is_cstring (str ''clear'')" "is_cstring (str ''exit'')" by (simp_all add: str_def ord_c_def of_char_def)
  have n: "sh_strncmp 64 line (str ''clear'') \<noteq> 0" "sh_strncmp 64 line (str ''exit'') \<noteq> 0"
    using sh_strncmp_eq [OF l k(1), of 64] sh_strncmp_eq [OF l k(2), of 64] s1(4) assms(7) by simp_all
  have "sh_loop C buf1 (length line) s1 = do { t \<leftarrow> sh_exec C line s3; t \<leftarrow> c_print C (str ''MagnOS> '') t; sh_loop C buf' 0 t }"
    using s2(1) s3(1) n c assms(7)
    by (subst sh_loop.simps) (simp add: sh_char_def putchar_custom_def cstr_def [of "[10, 0]"] buf'_def [symmetric] Let_def bind_assoc)
  moreover have "text_ok line" using l s1(4) assms(7) by (simp add: text_ok_def)
  ultimately show ?thesis using s1(1,2,6) s2(3) s3 by (intro exI [of _ s3] exI [of _ buf']) (simp add: put_put buf'_def)
qed

end

context command_calls
begin

lemma sh_missing:
  assumes "ok s" and "input s = cs @ 10 # rest" and "10 \<notin> set cs" and "is_cstring cs" and "length buf = 64"
    and "line = fold edit cs []" and "line \<notin> {[], str ''clear'', str ''exit''}" and "missing line"
  shows "\<exists>s' buf'. sh_loop C buf 0 s = sh_loop C buf' 0 s' \<and> length buf' = 64 \<and> ok s' \<and> input s' = rest
    \<and> shown s' = put (echo [] cs @ [10] @ str ''Command not found: '' @ line @ [10] @ str ''MagnOS> '') (shown s)"
proof -
  obtain s1 buf' where s1: "sh_loop C buf 0 s = do { t \<leftarrow> sh_exec C line s1; t \<leftarrow> c_print C (str ''MagnOS> '') t; sh_loop C buf' 0 t }"
      "ok s1" "shown s1 = put (echo [] cs @ [10]) (shown s)" "input s1 = rest" "length buf' = 64" "text_ok line"
    using sh_line [OF assms(1-7)] by blast
  obtain s2 where s2: "c_exec C line s1 = Some (-1, s2)" "ok s2" "shown s2 = shown s1" "input s2 = rest"
    using exec_law [OF s1(2) assms(8) s1(6)] s1(4) by auto
  let ?ts = "[str ''Command not found: '', line, [10]]"
  have "list_all text_ok ?ts" using s1(6) text_ok_str(9) [of 10] by (simp add: text_ok_def str_def ord_c_def of_char_def)
  then obtain s3 where s3: "prints C ?ts s2 = Some s3" "ok s3" "shown s3 = put (concat ?ts) (shown s2)" "input s3 = rest"
    using prints_law [OF s2(2)] s2(4) by metis
  obtain s4 where s4: "c_print C (str ''MagnOS> '') s3 = Some s4" "ok s4" "shown s4 = put (str ''MagnOS> '') (shown s3)" "input s4 = rest"
    using print_law [OF s3(2) text_ok_str(11)] s3(4) by metis
  have "sh_exec C line s1 = Some s3" using s2(1) s3(1) by (simp add: sh_exec_def del: prints.simps)
  then show ?thesis using s1(1,3,5) s2(3) s3(3) s4 by (intro exI [of _ s4] exI [of _ buf']) (simp add: put_put)
qed

end

end
