(* ===== verification/Kernel_Calls.thy ===== *)
theory Kernel_Calls
  imports Exec_File Programs
begin

text \<open>
  The calls of libmagnos.h on the modelled kernel: int 0x80 with the registers set, strings and
  buffers in the memory of the program. They keep the promises of the interface \<open>program_calls\<close>, so
  that what \<open>cat\<close>, \<open>ls\<close> and the shell do holds on the kernel.
\<close>

subsection \<open>libmagnos\<close>

text \<open>
  Where the strings and the buffers of a program are that it passes to a call (the compiler decides
  it; a string is put there before the call, in place of the code that has put it there), and what a
  program that is started by exec does up to its exit call.
\<close>

record 'd layout =
  str_at :: u32
  buf_at :: u32
  run_child :: "'d sys \<Rightarrow> 'd sys option"

definition lib_syscall :: "'d env \<Rightarrow> u32 \<Rightarrow> u32 \<Rightarrow> u32 \<Rightarrow> u32 \<Rightarrow> 'd sys \<Rightarrow> (u32 \<times> 'd sys) option" where
  "lib_syscall E num a1 a2 a3 x = do {
     let (s, d) = x;
     (s, d) \<leftarrow> trap E (s\<lparr>user := (user s)\<lparr>eax := num, ebx := a1, ecx := a2, edx := a3\<rparr>\<rparr>, d);
     Some (eax (user s), s, d) }"

definition with_str :: "'d layout \<Rightarrow> cstring \<Rightarrow> 'd sys \<Rightarrow> 'd sys" where
  "with_str L t x = (case x of (s, d) \<Rightarrow> (s\<lparr>mem := store_bytes (mem s) (str_at L) (t @ [0])\<rparr>, d))"

definition load_bytes :: "memory \<Rightarrow> u32 \<Rightarrow> nat \<Rightarrow> u8 list" where
  "load_bytes m a n = map (\<lambda>i. m (a + of_nat i)) [0 ..< n]"

definition load_dirinfo :: "memory \<Rightarrow> u32 \<Rightarrow> fat32_dirinfo" where
  "load_dirinfo m a = \<lparr>di_name = cstr (load_bytes m a 13), di_size = ld32 m (a + 16), di_is_directory = m (a + 20)\<rparr>"

definition lib_print :: "'d env \<Rightarrow> 'd layout \<Rightarrow> cstring \<Rightarrow> 'd sys \<Rightarrow> 'd sys option" where
  "lib_print E L t x = do { (r, x) \<leftarrow> lib_syscall E 1 (str_at L) 0 0 (with_str L t x); Some x }"

definition lib_exit :: "'d env \<Rightarrow> int \<Rightarrow> 'd sys \<Rightarrow> 'd sys option" where
  "lib_exit E code x = do { (r, x) \<leftarrow> lib_syscall E 2 (of_int code) 0 0 x; Some x }"

definition lib_file_open :: "'d env \<Rightarrow> 'd layout \<Rightarrow> cstring \<Rightarrow> 'd sys \<Rightarrow> (int \<times> 'd sys) option" where
  "lib_file_open E L filename x = do { (r, x) \<leftarrow> lib_syscall E 3 (str_at L) 0 0 (with_str L filename x); Some (sint r, x) }"

definition lib_file_read :: "'d env \<Rightarrow> 'd layout \<Rightarrow> u32 \<Rightarrow> 'd sys \<Rightarrow> (int \<times> u8 list \<times> 'd sys) option" where
  "lib_file_read E L sz x = do {
     (r, x) \<leftarrow> lib_syscall E 4 (buf_at L) sz 0 x;
     Some (sint r, load_bytes (mem (fst x)) (buf_at L) (nat (sint r)), x) }"

definition lib_file_close :: "'d env \<Rightarrow> 'd sys \<Rightarrow> (int \<times> 'd sys) option" where
  "lib_file_close E x = do { (r, x) \<leftarrow> lib_syscall E 5 0 0 0 x; Some (sint r, x) }"

definition lib_list_dir :: "'d env \<Rightarrow> 'd layout \<Rightarrow> u32 \<Rightarrow> 'd sys \<Rightarrow> (int \<times> fat32_dirinfo list \<times> 'd sys) option" where
  "lib_list_dir E L max_entries x = do {
     (r, x) \<leftarrow> lib_syscall E 6 (buf_at L) max_entries 0 x;
     Some (sint r, map (\<lambda>i. load_dirinfo (mem (fst x)) (buf_at L + 24 * of_nat i)) [0 ..< nat (sint r)], x) }"

definition lib_get_argc :: "'d env \<Rightarrow> 'd sys \<Rightarrow> (int \<times> 'd sys) option" where
  "lib_get_argc E x = do { (r, x) \<leftarrow> lib_syscall E 7 (-1) 0 0 x; Some (sint r, x) }"

definition lib_get_arg :: "'d env \<Rightarrow> 'd layout \<Rightarrow> int \<Rightarrow> u32 \<Rightarrow> 'd sys \<Rightarrow> (int \<times> cstring \<times> 'd sys) option" where
  "lib_get_arg E L index buf_size x = do {
     (r, x) \<leftarrow> lib_syscall E 7 (of_int index) (buf_at L) buf_size x;
     Some (sint r, cstr (load_bytes (mem (fst x)) (buf_at L) (unat buf_size)), x) }"

definition lib_getchar :: "'d env \<Rightarrow> 'd sys \<Rightarrow> (u8 \<times> 'd sys) option" where
  "lib_getchar E x = do { (r, x) \<leftarrow> lib_syscall E 8 0 0 0 x; Some (ucast r, x) }"

definition lib_clear :: "'d env \<Rightarrow> 'd sys \<Rightarrow> 'd sys option" where
  "lib_clear E x = do { (r, x) \<leftarrow> lib_syscall E 10 0 0 0 x; Some x }"

text \<open>
  When exec has started a program, the call returns in the caller only after that program has made its
  exit call.
\<close>

definition lib_exec :: "'d env \<Rightarrow> 'd layout \<Rightarrow> cstring \<Rightarrow> 'd sys \<Rightarrow> (int \<times> 'd sys) option" where
  "lib_exec E L cmdline x = do {
     (r, y) \<leftarrow> lib_syscall E 9 (str_at L) 0 0 (with_str L cmdline x);
     if exec_depth (fst y) = exec_depth (fst x) then Some (sint r, y)
     else do {
       y \<leftarrow> run_child L y;
       (s, d) \<leftarrow> trap E y;
       Some (sint (eax (user s)), s, d) } }"

definition lib_meminfo :: "'d env \<Rightarrow> u32 \<Rightarrow> 'd sys \<Rightarrow> (u32 \<times> 'd sys) option" where
  "lib_meminfo E info_type = lib_syscall E 13 info_type 0 0"

definition lib_heap_stats :: "'d env \<Rightarrow> u32 \<Rightarrow> 'd sys \<Rightarrow> (u32 \<times> 'd sys) option" where
  "lib_heap_stats E info_type = lib_syscall E 14 info_type 0 0"

definition lib_sleep :: "'d env \<Rightarrow> u32 \<Rightarrow> 'd sys \<Rightarrow> 'd sys option" where
  "lib_sleep E ms x = do { (r, x) \<leftarrow> lib_syscall E 11 ms 0 0 x; Some x }"

definition lib_uptime :: "'d env \<Rightarrow> 'd sys \<Rightarrow> (u32 \<times> 'd sys) option" where
  "lib_uptime E = lib_syscall E 12 0 0 0"

definition lib_getpid :: "'d env \<Rightarrow> 'd sys \<Rightarrow> (u32 \<times> 'd sys) option" where
  "lib_getpid E = lib_syscall E 15 0 0 0"

text \<open>An access of a program to memory; a page that is not open to ring 3 is a page fault, and the kernel halts.\<close>

definition user_load :: "u32 \<Rightarrow> 'd sys \<Rightarrow> (u32 \<times> 'd sys) option" where
  "user_load a x = (if user_page (fst x) a then Some (ld32 (mem (fst x)) (paging_get_phys a (fst x)), x) else None)"

definition user_store :: "u32 \<Rightarrow> u32 \<Rightarrow> 'd sys \<Rightarrow> 'd sys option" where
  "user_store a v x = (if user_page (fst x) a then Some ((fst x)\<lparr>mem := st32 (mem (fst x)) (paging_get_phys a (fst x)) v\<rparr>, snd x) else None)"

definition kernel_calls :: "'d env \<Rightarrow> 'd layout \<Rightarrow> 'd sys calls" where
  "kernel_calls E L = \<lparr>c_print = lib_print E L, c_file_open = lib_file_open E L, c_file_read = lib_file_read E L,
     c_file_close = lib_file_close E, c_list_dir = lib_list_dir E L, c_get_argc = lib_get_argc E, c_get_arg = lib_get_arg E L,
     c_getchar = lib_getchar E, c_clear = lib_clear E, c_exec = lib_exec E L, c_meminfo = lib_meminfo E,
     c_heap_stats = lib_heap_stats E, c_sleep = lib_sleep E, c_uptime = lib_uptime E, c_load = user_load, c_store = user_store\<rparr>"

text \<open>crt0.c: main, then exit with its result.\<close>

definition crt0_start :: "'d env \<Rightarrow> ('d sys \<Rightarrow> (int \<times> 'd sys) option) \<Rightarrow> 'd sys \<Rightarrow> 'd sys option" where
  "crt0_start E main x = do { (ret, x) \<leftarrow> main x; lib_exit E ret x }"

subsection \<open>Memory of a program\<close>

definition layout_ok :: "'d layout \<Rightarrow> bool" where
  "layout_ok L \<longleftrightarrow> user_range (str_at L) 1024 \<and> user_range (buf_at L) 1536"

lemma layout_bounds:
  assumes "layout_ok L"
  shows "str_at L \<noteq> 0" "buf_at L \<noteq> 0" "n \<le> 1024 \<Longrightarrow> described (str_at L) n" "n \<le> 1536 \<Longrightarrow> described (buf_at L) n"
  using assms by (auto simp: layout_ok_def user_range_def described_def)

lemma load_store_bytes: "unat a + length bs \<le> 2 ^ 32 \<Longrightarrow> load_bytes (store_bytes m a bs) a (length bs) = bs"
  by (rule nth_equalityI) (simp_all add: load_bytes_def store_bytes_apply unat_add_le)

lemma read_with_str:
  assumes "layout_ok L" and "is_cstring t" and "length t < 1024"
  shows "read_str (mem (fst (with_str L t x))) (str_at L) = Some t" "length t \<le> n \<Longrightarrow> read_strn n (mem (fst (with_str L t x))) (str_at L) = Some t"
proof -
  have b: "described (str_at L) (length t + 1)" using layout_bounds(3) [OF assms(1)] assms(3) by simp
  have "store_bytes m (str_at L) (t @ [0]) (str_at L + of_nat k) = (t @ [0]) ! k" if "k \<le> length t" for k m
    using that b by (simp add: described_def store_bytes_apply unat_add_le [of "str_at L" "length t + 1"])
  then show "read_str (mem (fst (with_str L t x))) (str_at L) = Some t" "length t \<le> n \<Longrightarrow> read_strn n (mem (fst (with_str L t x))) (str_at L) = Some t"
    using read_str_spec [OF assms(2) b] by (simp_all add: with_str_def split: prod.split)
qed

lemma st32_far: "unat (a :: u32) + 4 \<le> 2 ^ 32 \<Longrightarrow> unat x < unat a \<or> unat a + 4 \<le> unat x \<Longrightarrow> st32 m a v x = m x"
proof (rule st32_other, rule ccontr)
  assume a: "unat a + 4 \<le> 2 ^ 32" "unat x < unat a \<or> unat a + 4 \<le> unat x" and "\<not> 4 \<le> x - a"
  then have k: "unat (x - a) < 4" by (simp add: word_le_nat_alt)
  then have "unat (a + (x - a)) = unat a + unat (x - a)" using a(1) by (subst unat_add_small) simp_all
  then show False using a(2) k by simp
qed

text \<open>The entries of a listing, as the kernel stores them and as the program reads them.\<close>

lemma stored_dirinfo:
  assumes b: "unat a + 24 \<le> 0x1000000" and nm: "is_cstring (di_name i)" "length (di_name i) \<le> 12"
    and m: "\<And>k. k < 24 \<Longrightarrow> m (a + of_nat k) =
      ((st32 (store_bytes m0 a (di_name i @ [0])) (a + 16) (di_size i))(a + 20 := di_is_directory i)) (a + of_nat k)"
  shows "load_dirinfo m a = i"
proof -
  let ?m1 = "store_bytes m0 a (di_name i @ [0])"
  have u: "unat (a + of_nat k) = unat a + k" if "k < 24" for k using that b unat_add_le [of a 24 k] by simp
  have ne: "a + of_nat k \<noteq> a + 20" if "k < 20" for k using that u [of k] u [of 20] by (auto simp: u32_eq_unat)
  have "m (a + of_nat k) = ?m1 (a + of_nat k)" if "k < 13" for k
  proof -
    have "unat (a + 16) = unat a + 16" using u [of 16] by simp
    then have "st32 ?m1 (a + 16) (di_size i) (a + of_nat k) = ?m1 (a + of_nat k)"
      using that b u [of k] by (intro st32_far) simp_all
    then show ?thesis using m [of k] ne [of k] that by simp
  qed
  then have "m (a + of_nat k) = (di_name i @ [0]) ! k" if "k < length (di_name i) + 1" for k
    using that nm b u [of k] by (simp add: store_bytes_apply)
  then have "take (length (di_name i) + 1) (load_bytes m a 13) = di_name i @ [0]"
    using nm by (intro nth_equalityI) (simp_all add: load_bytes_def)
  then have "load_bytes m a 13 = di_name i @ 0 # drop (length (di_name i) + 1) (load_bytes m a 13)"
    by (metis append_take_drop_id append.assoc append_Cons append_Nil)
  then have "cstr (load_bytes m a 13) = di_name i" using cstr_word [OF nm(1)] by metis
  moreover have "ld32 m (a + 16) = di_size i"
  proof -
    have "m (a + 16 + k) = st32 ?m1 (a + 16) (di_size i) (a + 16 + k)" if "k \<in> {0, 1, 2, 3}" for k
      using that m [of 16] m [of 17] m [of 18] m [of 19] ne [of 16] ne [of 17] ne [of 18] ne [of 19] by (auto simp: add.assoc)
    from this [of 0] this [of 1] this [of 2] this [of 3]
    have "ld32 m (a + 16) = ld32 (st32 ?m1 (a + 16) (di_size i)) (a + 16)" unfolding ld32_def by simp
    then show ?thesis by (simp only: ld32_st32_same)
  qed
  moreover have "m (a + 20) = di_is_directory i" using m [of 20] by simp
  ultimately show ?thesis by (simp add: load_dirinfo_def)
qed

lemma store_dirinfos_load:
  assumes "described a (24 * length is)" and "list_all (\<lambda>i. is_cstring (di_name i) \<and> length (di_name i) \<le> 12) is"
  shows "\<exists>m. store_dirinfos a is s = Some (s\<lparr>mem := m\<rparr>) \<and> map (\<lambda>i. load_dirinfo m (a + 24 * of_nat i)) [0 ..< length is] = is
    \<and> (\<forall>x. unat x < unat a \<longrightarrow> m x = mem s x)"
  using assms
proof (induction "is" arbitrary: a s)
  case (Cons i "is")
  define m1 where "m1 = (st32 (store_bytes (mem s) a (di_name i @ [0])) (a + 16) (di_size i))(a + 20 := di_is_directory i)"
  have b: "0x200000 \<le> unat a" "unat a + 24 \<le> 0x1000000" using Cons.prems(1) by (simp_all add: described_def)
  have u: "unat (a + 24) = unat a + 24" using b(2) by (subst unat_add_small) simp_all
  obtain m where m: "store_dirinfos (a + 24) is (s\<lparr>mem := m1\<rparr>) = Some (s\<lparr>mem := m\<rparr>)"
      "map (\<lambda>i. load_dirinfo m (a + 24 + 24 * of_nat i)) [0 ..< length is] = is" "\<forall>x. unat x < unat a + 24 \<longrightarrow> m x = m1 x"
    using Cons.IH [of "a + 24" "s\<lparr>mem := m1\<rparr>"] Cons.prems u by (auto simp: described_def)
  have "m (a + of_nat k) = m1 (a + of_nat k)" if "k < 24" for k using m(3) unat_add_le [of a 24 k] that b by simp
  then have i: "load_dirinfo m a = i" using stored_dirinfo [OF b(2), of i m "mem s"] Cons.prems(2) by (simp add: m1_def)
  have low: "m x = mem s x" if "unat x < unat a" for x
  proof -
    have "m x = m1 x" using m(3) that by simp
    moreover have "unat (a + 16) = unat a + 16" "unat (a + 20) = unat a + 20" using b by (simp_all add: unat_add_small)
    then have "m1 x = store_bytes (mem s) a (di_name i @ [0]) x" using that b by (auto simp: m1_def intro!: st32_far)
    moreover have "\<dots> = mem s x" using that b Cons.prems(2) by (subst store_bytes_apply) auto
    ultimately show ?thesis by simp
  qed
  have "[0 ..< length (i # is)] = 0 # map Suc [0 ..< length is]" by (simp add: map_Suc_upt upt_conv_Cons del: upt_Suc)
  then have "map (\<lambda>i. load_dirinfo m (a + 24 * of_nat i)) [0 ..< length (i # is)] = i # is"
    using i m(2) by (simp add: comp_def algebra_simps)
  moreover have "store_dirinfos a (i # is) s = Some (s\<lparr>mem := m\<rparr>)" using m(1) b by (simp add: m1_def Let_def described_def)
  ultimately show ?case using low by (intro exI [of _ m]) simp
next
  case Nil
  then show ?case by (intro exI [of _ "mem s"]) simp
qed

subsection \<open>The state that a program relies on\<close>

text \<open>
  The volume is mounted, and no call changes which one it is (\<open>F\<close> is the state of the file system at the
  start); the screen and the keyboard buffer are well-formed, and the arguments are terminated.
\<close>

definition serving :: "'d env \<Rightarrow> ('d \<Rightarrow> ata) \<Rightarrow> (nat \<Rightarrow> u8 list) \<Rightarrow> fat32 \<Rightarrow> 'd sys \<Rightarrow> bool" where
  "serving E view img F x \<longleftrightarrow> (case x of (s, d) \<Rightarrow>
     volume (io E) view img (disk s) d \<and> same_volume F (disk s) \<and> vga_ok (screen s) \<and> kb_ok (keyb s) \<and> is_cstring (kb_contents (keyb s))
     \<and> args_ok (current_program_args s) \<and> count (current_program_args s) \<le> 16
     \<and> (\<forall>b \<in> set (args (current_program_args s)). length (cstr b) < 64))"

definition k_shown :: "'d sys \<Rightarrow> terminal" where "k_shown x = terminal_of (screen (fst x))"

definition k_put :: "cstring \<Rightarrow> terminal \<Rightarrow> terminal" where
  "k_put t T = (if t = [] then T else fold t_put t (T\<lparr>t_color := vga_entry_color VGA_COLOR_WHITE VGA_COLOR_BLACK\<rparr>))"

definition k_argv :: "'d sys \<Rightarrow> cstring list" where
  "k_argv x = (let a = current_program_args (fst x) in map cstr (take (count a) (args a)))"

definition k_input :: "'d sys \<Rightarrow> u8 list" where "k_input x = kb_contents (keyb (fst x))"

definition k_on_disk :: "(nat \<Rightarrow> u8 list) \<Rightarrow> fat32 \<Rightarrow> cstring \<Rightarrow> u8 list \<Rightarrow> bool" where
  "k_on_disk img F nm data \<longleftrightarrow> file_on img F (fat32_string_to_name (map to_upper nm)) data \<and> length data < 0x40000000"

definition k_opened :: "(nat \<Rightarrow> u8 list) \<Rightarrow> 'd sys \<Rightarrow> u8 list \<Rightarrow> nat \<Rightarrow> bool" where
  "k_opened img x data p \<longleftrightarrow> current_file (fst x) \<and> reading img (disk (fst x)) data p \<and> length data < 0x40000000"

lemma t_color_put: "t_color (fold t_put t T) = t_color T"
  by (induction t arbitrary: T) (simp_all add: t_put_def t_goto_def t_newline_def t_back_def t_set_def)

lemma k_put_put: "k_put b (k_put a T) = k_put (a @ b) T"
proof -
  have w: "(fold t_put a (T\<lparr>t_color := c\<rparr>))\<lparr>t_color := c\<rparr> = fold t_put a (T\<lparr>t_color := c\<rparr>)" for c
    using t_color_put [of a "T\<lparr>t_color := c\<rparr>"] by (cases "fold t_put a (T\<lparr>t_color := c\<rparr>)") simp
  show ?thesis by (simp add: k_put_def w)
qed

definition serial_apart :: "'d bus \<Rightarrow> ('d \<Rightarrow> 'v) \<Rightarrow> bool" where
  "serial_apart bus view \<longleftrightarrow> (\<forall>d. view (snd (inb bus (SERIAL_COM1 + SERIAL_LINE_STATUS) d)) = view d)
     \<and> (\<forall>c d. view (outb bus (SERIAL_COM1 + SERIAL_DATA) c d) = view d)"

lemma serial_wait_apart:
  assumes "serial_tx_wait bus SERIAL_COM1 d = Some d'" and "serial_apart bus view"
  shows "view d' = view d"
proof -
  have "SERIAL_COM1 = SERIAL_COM1 \<longrightarrow> serial_apart bus view \<longrightarrow> view d' = view d"
    by (rule serial_tx_wait.raw_induct [where P = "\<lambda>bus p d d'. p = SERIAL_COM1 \<longrightarrow> serial_apart bus view \<longrightarrow> view d' = view d", OF _ assms(1)])
      (auto simp: serial_is_transmit_empty_def serial_apart_def case_prod_beta Let_def split: if_splits)
  then show ?thesis using assms(2) by blast
qed

lemma serial_puts_apart:
  assumes "serial_apart bus view"
  shows "serial_puts bus SERIAL_COM1 t d = Some d' \<Longrightarrow> view d' = view d"
proof -
  have c: "view d' = view d" if "serial_putchar bus SERIAL_COM1 c d = Some d'" for c d d'
    using that serial_wait_apart [OF _ assms, of d] assms by (auto simp: serial_putchar_def serial_apart_def split: bind_splits)
  show "serial_puts bus SERIAL_COM1 t d = Some d' \<Longrightarrow> view d' = view d"
    by (induction t arbitrary: d) (fastforce dest: c split: bind_splits if_splits)+
qed

lemma lib_syscall_returned:
  assumes "syscall_handler E num a1 a2 a3 (s\<lparr>user := (user s)\<lparr>eax := num, ebx := a1, ecx := a2, edx := a3\<rparr>\<rparr>, d) = Some (Returned r, s', d')"
  shows "lib_syscall E num a1 a2 a3 (s, d) = Some (r, s'\<lparr>user := (user s')\<lparr>eax := r\<rparr>\<rparr>, d')"
  using assms by (simp add: lib_syscall_def trap_def isr_handler_def Let_def)

lemma sys_print_shows:
  assumes "read_str (mem s) a = Some t" and "a \<noteq> 0" and "vga_ok (screen s)" and "is_cstring t"
    and "video_apart (io E) view" and "serial_apart (io E) view" and "uart_tx (io E) SERIAL_COM1 busy sent"
  shows "\<exists>v d'. sys_print E a (s, d) = Some (Returned 0, s\<lparr>screen := v\<rparr>, d') \<and> vga_ok v \<and> view d' = view d
    \<and> terminal_of v = fold t_put t ((terminal_of (screen s))\<lparr>t_color := vga_entry_color VGA_COLOR_WHITE VGA_COLOR_BLACK\<rparr>)"
proof -
  let ?w = "vga_set_color VGA_COLOR_WHITE VGA_COLOR_BLACK (screen s)"
  obtain d1 v where v: "vga_puts (io E) t ?w d = (d1, v)" by force
  have ok: "vga_ok ?w" using assms(3) by (simp add: vga_ok_def vga_set_color_def)
  have t: "vga_ok v" "terminal_of v = fold t_put t (terminal_of ?w)" using vga_puts_refines [OF ok assms(4), of "io E" d] v by simp_all
  have k: "kputs E t (kcolor VGA_COLOR_WHITE (s, d)) = (s\<lparr>screen := v\<rparr>, d1)" using v by (simp add: kputs_def kcolor_def)
  then have d1: "view d1 = view d" using console_apart(1) [OF assms(5), of t "kcolor VGA_COLOR_WHITE (s, d)"] by (simp add: kcolor_def)
  obtain d2 where d2: "serial_puts (io E) SERIAL_COM1 t d1 = Some d2" using serial_puts_spec [OF assms(7,4)] by blast
  have "view d2 = view d1" by (rule serial_puts_apart [OF assms(6) d2])
  moreover have "terminal_of ?w = (terminal_of (screen s))\<lparr>t_color := vga_entry_color VGA_COLOR_WHITE VGA_COLOR_BLACK\<rparr>"
    by (simp add: terminal_of_def vga_set_color_def)
  ultimately show ?thesis using assms(1,2) k d2 d1 t by (intro exI [of _ v] exI [of _ d2]) (simp add: sys_print_def kserial_def)
qed

lemma print_keeps:
  assumes "layout_ok L" and "serving E view img F x" and "text_ok t"
    and "video_apart (io E) view" and "serial_apart (io E) view" and "uart_tx (io E) SERIAL_COM1 busy sent"
  shows "\<exists>x'. lib_print E L t x = Some x' \<and> serving E view img F x' \<and> k_shown x' = k_put t (k_shown x)
    \<and> k_argv x' = k_argv x \<and> k_input x' = k_input x \<and> (\<forall>data p. k_opened img x data p \<longrightarrow> k_opened img x' data p)"
proof -
  obtain s d where x: "x = (s, d)" by force
  let ?s = "s\<lparr>mem := store_bytes (mem s) (str_at L) (t @ [0]), user := (user s)\<lparr>eax := 1, ebx := str_at L, ecx := 0, edx := 0\<rparr>\<rparr>"
  have t: "t \<noteq> []" "is_cstring t" "length t < 1024" using assms(3) by (simp_all add: text_ok_def)
  have "read_str (mem ?s) (str_at L) = Some t" using read_with_str(1) [OF assms(1) t(2,3), of x] by (simp add: x with_str_def)
  moreover have "vga_ok (screen ?s)" using assms(2) by (simp add: serving_def x)
  ultimately obtain v d' where v: "sys_print E (str_at L) (?s, d) = Some (Returned 0, ?s\<lparr>screen := v\<rparr>, d')" "vga_ok v" "view d' = view d"
      "terminal_of v = fold t_put t ((terminal_of (screen s))\<lparr>t_color := vga_entry_color VGA_COLOR_WHITE VGA_COLOR_BLACK\<rparr>)"
    using sys_print_shows [OF _ layout_bounds(1) [OF assms(1)] _ t(2) assms(4-6), of ?s d] by auto
  then have "lib_syscall E 1 (str_at L) 0 0 (with_str L t x) = Some (0, ?s\<lparr>screen := v, user := (user ?s)\<lparr>eax := 0\<rparr>\<rparr>, d')"
    using lib_syscall_returned [of E 1 "str_at L" 0 0 "s\<lparr>mem := store_bytes (mem s) (str_at L) (t @ [0])\<rparr>" d 0 "?s\<lparr>screen := v\<rparr>" d']
    by (simp add: x with_str_def syscall_handler_def)
  then show ?thesis using assms(2) v(2-4) volume_view [of "io E" view img "disk s" d d'] t(1)
    by (simp add: lib_print_def serving_def x k_shown_def k_put_def k_argv_def k_input_def k_opened_def)
qed

text \<open>A call that changes at most memory, registers, the file system's buffer and handle, and the drive.\<close>

lemma serving_disk:
  assumes "serving E view img F (s, d)" and "volume (io E) view img f d'" and "same_volume (disk s) f"
    and "screen s' = screen s" and "keyb s' = keyb s" and "current_program_args s' = current_program_args s" and "disk s' = f"
  shows "serving E view img F (s', d')" and "k_shown (s', d') = k_shown (s, d)" and "k_argv (s', d') = k_argv (s, d)" and "k_input (s', d') = k_input (s, d)"
  using assms same_volume_trans [of F "disk s" f] by (simp_all add: serving_def k_shown_def k_argv_def k_input_def)

lemma file_open_opens:
  assumes "layout_ok L" and x: "serving E view img F x" and on: "k_on_disk img F nm data" and nm: "is_cstring nm" "length nm < 64"
  shows "\<exists>x'. lib_file_open E L nm x = Some (0, x') \<and> serving E view img F x' \<and> k_shown x' = k_shown x \<and> k_opened img x' data 0"
proof -
  obtain s d where x': "x = (s, d)" by force
  let ?s = "s\<lparr>mem := store_bytes (mem s) (str_at L) (nm @ [0]), user := (user s)\<lparr>eax := 3, ebx := str_at L, ecx := 0, edx := 0\<rparr>\<rparr>"
  define f0 where "f0 = (if current_file s then fat32_close True (disk s) else disk s)"
  have v: "volume (io E) view img (disk s) d" "same_volume F (disk s)" using x by (simp_all add: x' serving_def)
  have "disk s = (disk s)\<lparr>sector_buffer := sector_buffer (disk s), fs_file := fs_file (disk s)\<rparr>" by simp
  then have refl: "same_volume (disk s) (disk s)" unfolding same_volume_def by blast
  have f0: "volume (io E) view img f0 d" "same_volume (disk s) f0" using v(1) refl by (auto simp: f0_def close_volume)
  have "file_on img f0 (fat32_string_to_name (map to_upper nm)) data"
    using on file_on_same [OF same_volume_trans [OF v(2) f0(2)]] by (simp add: k_on_disk_def)
  from open_file [OF f0(1) this] obtain f1 d1 where f1: "fat32_open (io E) (map to_upper nm) f0 d = Some (True, f1, d1)"
      "volume (io E) view img f1 d1" "same_volume f0 f1" "reading img f1 data 0" by blast
  have "read_strn 255 (mem ?s) (str_at L) = Some nm" using read_with_str(2) [OF assms(1) nm(1), of 255 x] nm(2) by (simp add: x' with_str_def)
  then have "sys_file_open E (str_at L) (?s, d) = Some (Returned 0, ?s\<lparr>disk := f1, current_file := True\<rparr>, d1)"
    using f1(1) layout_bounds(1) [OF assms(1)] by (simp add: sys_file_open_def f0_def split: if_splits)
  then have "lib_file_open E L nm x = Some (0, ?s\<lparr>disk := f1, current_file := True, user := (user ?s)\<lparr>eax := 0\<rparr>\<rparr>, d1)"
    using lib_syscall_returned [of E 3 "str_at L" 0 0 "s\<lparr>mem := store_bytes (mem s) (str_at L) (nm @ [0])\<rparr>" d 0 "?s\<lparr>disk := f1, current_file := True\<rparr>" d1]
    by (simp add: x' with_str_def syscall_handler_def lib_file_open_def)
  then show ?thesis using serving_disk(1,2) [OF x [unfolded x'] f1(2) same_volume_trans [OF f0(2) f1(3)]] f1(4) on
    by (simp add: x' k_opened_def k_on_disk_def)
qed

lemma file_read_reads:
  assumes "layout_ok L" and x: "serving E view img F x" and o: "k_opened img x data p" and n: "n < 1024" and c: "c = take (unat n) (drop p data)"
  shows "\<exists>x'. lib_file_read E L n x = Some (int (length c), c, x') \<and> serving E view img F x' \<and> k_shown x' = k_shown x
    \<and> k_opened img x' data (p + length c)"
proof -
  obtain s d where x': "x = (s, d)" by force
  let ?s = "s\<lparr>user := (user s)\<lparr>eax := 4, ebx := buf_at L, ecx := n, edx := 0\<rparr>\<rparr>"
  have v: "volume (io E) view img (disk s) d" using x by (simp add: x' serving_def)
  have r: "reading img (disk s) data p" "current_file s" "length data < 0x40000000" using o by (simp_all add: x' k_opened_def)
  have n': "unat n < 1024" using n by (simp add: word_less_nat_alt)
  obtain f d1 where f: "fat32_read (io E) True n (disk s) d = Some (int (length c), c, f, d1)" "volume (io E) view img f d1"
      "same_volume (disk s) f" "reading img f data (p + length c)"
    using read_file [OF v r(1), of n] r(3) n' unfolding c [symmetric] by auto
  have len: "length c < 1024" using n' by (simp add: c)
  let ?t = "?s\<lparr>disk := f, mem := store_bytes (mem s) (buf_at L) c\<rparr>"
  have "copy_out (buf_at L) c (?s\<lparr>disk := f\<rparr>) = Some ?t" using layout_bounds(4) [OF assms(1), of "length c"] len by (simp add: copy_out_def)
  then have "sys_file_read E (buf_at L) n (?s, d) = Some (Returned (of_nat (length c)), ?t, d1)"
    using f(1) r(2) layout_bounds(2) [OF assms(1)] by (simp add: sys_file_read_def)
  then have "lib_syscall E 4 (buf_at L) n 0 x = Some (of_nat (length c), ?t\<lparr>user := (user ?s)\<lparr>eax := of_nat (length c)\<rparr>\<rparr>, d1)"
    using lib_syscall_returned [of E 4 "buf_at L" n 0 s d "of_nat (length c)" ?t d1] by (simp add: x' syscall_handler_def)
  moreover have "load_bytes (store_bytes (mem s) (buf_at L) c) (buf_at L) (length c) = c"
    using layout_bounds(4) [OF assms(1), of "length c"] len by (intro load_store_bytes) (simp add: described_def)
  ultimately have "lib_file_read E L n x = Some (int (length c), c, ?t\<lparr>user := (user ?s)\<lparr>eax := of_nat (length c)\<rparr>\<rparr>, d1)"
    using len by (simp add: lib_file_read_def sint_of_nat_u32)
  then show ?thesis using serving_disk(1,2) [OF x [unfolded x'] f(2,3)] f(4) r by (simp add: x' k_opened_def)
qed

lemma file_close_closes:
  assumes x: "serving E view img F x" and o: "k_opened img x data p"
  shows "\<exists>x'. lib_file_close E x = Some (0, x') \<and> serving E view img F x' \<and> k_shown x' = k_shown x"
proof -
  obtain s d where x': "x = (s, d)" by force
  let ?s = "s\<lparr>user := (user s)\<lparr>eax := 5, ebx := 0, ecx := 0, edx := 0\<rparr>\<rparr>"
  let ?t = "?s\<lparr>disk := fat32_close True (disk s), current_file := False\<rparr>"
  have "sys_file_close (?s, d) = (Returned 0, ?t, d)" using o by (simp add: sys_file_close_def k_opened_def x')
  then have "lib_file_close E x = Some (0, ?t\<lparr>user := (user ?s)\<lparr>eax := 0\<rparr>\<rparr>, d)"
    using lib_syscall_returned [of E 5 0 0 0 s d 0 ?t d] by (simp add: x' lib_file_close_def syscall_handler_def)
  moreover have "volume (io E) view img (fat32_close True (disk s)) d" using x by (simp add: x' serving_def close_volume)
  ultimately show ?thesis using serving_disk(1,2) [OF x [unfolded x'] _ close_volume(2)] by (simp add: x')
qed

lemma get_argc_counts:
  assumes x: "serving E view img F x"
  shows "\<exists>x'. lib_get_argc E x = Some (int (length (k_argv x)), x') \<and> serving E view img F x' \<and> k_shown x' = k_shown x \<and> k_argv x' = k_argv x"
proof -
  obtain s d where x': "x = (s, d)" by force
  let ?s = "s\<lparr>user := (user s)\<lparr>eax := 7, ebx := -1, ecx := 0, edx := 0\<rparr>\<rparr>" and ?n = "count (current_program_args s)"
  have n: "?n \<le> 16" "length (k_argv x) = ?n" using x by (simp_all add: x' serving_def k_argv_def Let_def args_ok_def)
  have "sys_get_args (-1) 0 0 (?s, d) = Some (Returned (of_nat ?n), ?s, d)" by (simp add: sys_get_args_def Let_def)
  then have "lib_get_argc E x = Some (int ?n, ?s\<lparr>user := (user ?s)\<lparr>eax := of_nat ?n\<rparr>\<rparr>, d)"
    using lib_syscall_returned [of E 7 "-1" 0 0 s d "of_nat ?n" ?s d] n(1) by (simp add: x' lib_get_argc_def syscall_handler_def sint_of_nat_u32)
  then show ?thesis using x n by (simp add: x' serving_def k_shown_def k_argv_def)
qed

lemma get_arg_copies:
  assumes "layout_ok L" and x: "serving E view img F x" and a: "k_argv x = a # as"
  shows "\<exists>x'. lib_get_arg E L 0 64 x = Some (0, a, x') \<and> is_cstring a \<and> length a < 64 \<and> serving E view img F x' \<and> k_shown x' = k_shown x"
proof -
  obtain s d where x': "x = (s, d)" by force
  let ?s = "s\<lparr>user := (user s)\<lparr>eax := 7, ebx := 0, ecx := buf_at L, edx := 64\<rparr>\<rparr>" and ?p = "current_program_args s"
  have n: "0 < count ?p" "args ?p \<noteq> []" "a = cstr (args ?p ! 0)"
    using a by (cases "args ?p"; cases "count ?p"; simp add: x' k_argv_def Let_def)+
  then have l: "length a < 64" using x by (cases "args ?p") (simp_all add: x' serving_def)
  have cs: "is_cstring a" using n(3) is_cstring_cstr by simp
  have b: "described (buf_at L) (length a + 1)" "buf_at L \<noteq> 0" using layout_bounds(2,4) [OF assms(1)] l by simp_all
  let ?m = "store_bytes (mem s) (buf_at L) (a @ [0])"
  have "take (unat (64 - 1 :: u32)) a = a" using l by simp
  then have "sys_get_args 0 (buf_at L) 64 (?s, d) = Some (Returned 0, ?s\<lparr>mem := ?m\<rparr>, d)"
    using n b by (simp add: sys_get_args_def Let_def copy_out_def del: store_bytes.simps)
  then have "lib_syscall E 7 0 (buf_at L) 64 x = Some (0, ?s\<lparr>mem := ?m, user := (user ?s)\<lparr>eax := 0\<rparr>\<rparr>, d)"
    using lib_syscall_returned [of E 7 0 "buf_at L" 64 s d 0 "?s\<lparr>mem := ?m\<rparr>" d] by (simp add: x' syscall_handler_def)
  moreover have "load_bytes ?m (buf_at L) 64 = a @ 0 # drop (length a + 1) (load_bytes ?m (buf_at L) 64)"
  proof -
    have "take (length a + 1) (load_bytes ?m (buf_at L) 64) = load_bytes ?m (buf_at L) (length a + 1)" using l by (simp add: load_bytes_def take_map)
    also have "\<dots> = a @ [0]" using load_store_bytes [of "buf_at L" "a @ [0]"] b(1) by (simp add: described_def del: store_bytes.simps)
    finally show ?thesis by (metis append_take_drop_id append.assoc append_Cons append_Nil)
  qed
  then have "cstr (load_bytes ?m (buf_at L) 64) = a" using cstr_word [OF cs] by metis
  ultimately have "lib_get_arg E L 0 64 x = Some (0, a, ?s\<lparr>mem := ?m, user := (user ?s)\<lparr>eax := 0\<rparr>\<rparr>, d)" by (simp add: lib_get_arg_def del: store_bytes.simps)
  then show ?thesis using x l cs by (simp add: x' serving_def k_shown_def del: store_bytes.simps)
qed

lemma getchar_takes:
  assumes x: "serving E view img F x" and i: "k_input x = ch # cs"
  shows "\<exists>x'. lib_getchar E x = Some (ch, x') \<and> serving E view img F x' \<and> k_shown x' = k_shown x \<and> k_input x' = cs"
proof -
  obtain s d where x': "x = (s, d)" by force
  let ?s = "s\<lparr>user := (user s)\<lparr>eax := 8, ebx := 0, ecx := 0, edx := 0\<rparr>\<rparr>"
  obtain c k where k: "keyboard_getchar (keyb s) = (c, k)" by force
  have kb: "kb_ok (keyb s)" "kb_contents (keyb s) = ch # cs" "is_cstring (kb_contents (keyb s))" using x i by (simp_all add: x' serving_def k_input_def)
  have c: "c = ch" "kb_contents k = cs" "ch \<noteq> 0" using kb_contents_get [OF kb(1,2)] k kb(2,3) by simp_all
  have ok: "kb_ok k" using kbq.get_invar [OF kb(1)] k by simp
  have "getchar_loop E (?s, d) = Some (ucast ch, ?s\<lparr>keyb := k\<rparr>, d)" using k c by (subst getchar_loop.simps) simp
  moreover have "ucast (ucast ch :: u32) = ch" by (rule bit_word_eqI) (auto simp: bit_simps)
  ultimately have "lib_getchar E x = Some (ch, ?s\<lparr>keyb := k, user := (user ?s)\<lparr>eax := ucast ch\<rparr>\<rparr>, d)"
    using lib_syscall_returned [of E 8 0 0 0 s d "ucast ch" "?s\<lparr>keyb := k\<rparr>" d] by (simp add: x' lib_getchar_def syscall_handler_def)
  then show ?thesis using x ok c kb(2,3) by (simp add: x' serving_def k_shown_def k_input_def)
qed

lemma list_dir_lists:
  assumes "layout_ok L" and x: "serving E view img F x" and dir: "dir_on img F infos" and nm: "list_all (\<lambda>i. is_cstring (di_name i)) infos"
  shows "\<exists>x'. lib_list_dir E L 64 x = Some (int (length (take 64 infos)), take 64 infos, x') \<and> serving E view img F x' \<and> k_shown x' = k_shown x"
proof -
  obtain s d where x': "x = (s, d)" by force
  let ?s = "s\<lparr>user := (user s)\<lparr>eax := 6, ebx := buf_at L, ecx := 64, edx := 0\<rparr>\<rparr>"
  define js where "js = take 64 infos"
  have v: "volume (io E) view img (disk s) d" "same_volume F (disk s)" using x by (simp_all add: x' serving_def)
  have b: "buf_at L \<noteq> 0" using layout_bounds(2) [OF assms(1)] .
  have "dir_on img (disk s) infos" using dir dir_on_same [OF v(2)] by simp
  from list_files [OF v(1) this b, of 64] obtain f d1 where f: "fat32_list_dir (io E) (buf_at L) 64 (disk s) d = Some (int (length js), js, f, d1)"
      "volume (io E) view img f d1" "same_volume (disk s) f" by (auto simp: js_def)
  have len: "length js \<le> 64" by (simp add: js_def)
  have "length (di_name i) \<le> 12" if "i \<in> set infos" for i using that dir length_name_to_string by (auto simp: dir_on_def dirinfo_of_def)
  then have names: "list_all (\<lambda>i. is_cstring (di_name i) \<and> length (di_name i) \<le> 12) js" using nm by (auto simp: js_def list_all_iff dest: in_set_takeD)
  have "described (buf_at L) (24 * length js)" using layout_bounds(4) [OF assms(1)] len by simp
  from store_dirinfos_load [OF this names, of "?s\<lparr>disk := f\<rparr>"]
  obtain m where m: "store_dirinfos (buf_at L) js (?s\<lparr>disk := f\<rparr>) = Some (?s\<lparr>disk := f, mem := m\<rparr>)"
      "map (\<lambda>i. load_dirinfo m (buf_at L + 24 * of_nat i)) [0 ..< length js] = js" by auto
  have "sys_list_dir E (buf_at L) 64 (?s, d) = Some (Returned (of_nat (length js)), ?s\<lparr>disk := f, mem := m\<rparr>, d1)"
    using f(1) m(1) b by (simp add: sys_list_dir_def)
  then have "lib_syscall E 6 (buf_at L) 64 0 x = Some (of_nat (length js), ?s\<lparr>disk := f, mem := m, user := (user ?s)\<lparr>eax := of_nat (length js)\<rparr>\<rparr>, d1)"
    using lib_syscall_returned [of E 6 "buf_at L" 64 0 s d "of_nat (length js)" "?s\<lparr>disk := f, mem := m\<rparr>" d1] by (simp add: x' syscall_handler_def)
  then have "lib_list_dir E L 64 x = Some (int (length js), js, ?s\<lparr>disk := f, mem := m, user := (user ?s)\<lparr>eax := of_nat (length js)\<rparr>\<rparr>, d1)"
    using m(2) len by (simp add: lib_list_dir_def sint_of_nat_u32)
  then show ?thesis using serving_disk(1,2) [OF x [unfolded x'] f(2,3)] by (simp add: x' js_def [symmetric])
qed

text \<open>Commands whose first word, cut after 11 characters, is not in the directory.\<close>

definition k_missing :: "(nat \<Rightarrow> u8 list) \<Rightarrow> fat32 \<Rightarrow> cstring \<Rightarrow> bool" where
  "k_missing img F t \<longleftrightarrow> (\<exists>w ws dcs. pieces t = w # ws \<and> is_chain (next_cluster img F) (root_dir_cluster F) dcs \<and> list_all (addressable F) dcs
     \<and> find (named (fat32_string_to_name (map to_upper (take 11 w)))) (live (dir_entries img F dcs)) = None)"

lemma k_missing_same:
  assumes "same_volume st st'"
  shows "k_missing img st' t = k_missing img st t"
proof -
  obtain b f where "st' = st\<lparr>sector_buffer := b, fs_file := f\<rparr>" using assms by (auto simp: same_volume_def)
  then show ?thesis by (simp add: k_missing_def dir_entries_def with_file)
qed

lemma exec_missing_returns:
  assumes "layout_ok L" and x: "serving E view img F x" and m: "k_missing img F t" and t: "text_ok t"
  shows "\<exists>x'. lib_exec E L t x = Some (-1, x') \<and> serving E view img F x' \<and> k_shown x' = k_shown x \<and> k_input x' = k_input x"
proof -
  obtain s d where x': "x = (s, d)" by force
  let ?s = "s\<lparr>mem := store_bytes (mem s) (str_at L) (t @ [0]), user := (user s)\<lparr>eax := 9, ebx := str_at L, ecx := 0, edx := 0\<rparr>\<rparr>"
  have v: "volume (io E) view img (disk s) d" "same_volume F (disk s)" "args_ok (current_program_args s)" using x by (simp_all add: x' serving_def)
  have t': "is_cstring t" "length t < 1024" using t by (simp_all add: text_ok_def)
  obtain w ws dcs where w: "pieces t = w # ws" "is_chain (next_cluster img (disk s)) (root_dir_cluster (disk s)) dcs" "list_all (addressable (disk s)) dcs"
      "find (named (fat32_string_to_name (map to_upper (take 11 w)))) (live (dir_entries img (disk s) dcs)) = None"
    using m k_missing_same [OF v(2)] unfolding k_missing_def by blast
  obtain f d1 where f: "fat32_open (io E) (map to_upper (take 11 w)) (disk s) d = Some (False, f, d1)" "volume (io E) view img f d1" "same_volume (disk s) f"
    using open_missing [OF v(1) w(2-4)] by blast
  obtain pn as where p: "parse_command_line t (replicate 64 0) (current_program_args s) = (pn, as)" by force
  note q = parse_command_line_spec [OF t'(1) length_replicate v(3) p]
  have as: "args_ok as" "count as \<le> 16" "\<forall>b \<in> set (args as). length (cstr b) < 64"
  proof -
    show "args_ok as" "count as \<le> 16" using q(4,5) by simp_all
    have "cstr b \<in> set (pieces t) \<or> cstr b = []" if "b \<in> set (args as)" for b
      using arg_cong [OF q(6), of set] that by (cases "pieces t") (auto dest: in_set_takeD simp: set_eq_iff)
    then show "\<forall>b \<in> set (args as). length (cstr b) < 64" using pieces_length by fastforce
  qed
  have rd: "read_str (mem ?s) (str_at L) = Some t" using read_with_str(1) [OF assms(1) t', of x] by (simp add: x' with_str_def)
  let ?t = "?s\<lparr>current_program_args := as, disk := f\<rparr>"
  have "exec_fetch E (str_at L) (?s, d) = Some (Some (-1), ?t, d1)"
    using rd f(1) p q(2) w(1) layout_bounds(1) [OF assms(1)] by (simp add: exec_fetch_def Let_def)
  then have "sys_exec E (str_at L) (?s, d) = Some (Returned (-1), ?t, d1)" by (simp add: sys_exec_def)
  then have "lib_syscall E 9 (str_at L) 0 0 (with_str L t x) = Some (-1, ?t\<lparr>user := (user ?s)\<lparr>eax := -1\<rparr>\<rparr>, d1)"
    using lib_syscall_returned [of E 9 "str_at L" 0 0 "s\<lparr>mem := store_bytes (mem s) (str_at L) (t @ [0])\<rparr>" d "-1" ?t d1]
    by (simp add: x' with_str_def syscall_handler_def)
  then have "lib_exec E L t x = Some (-1, ?t\<lparr>user := (user ?s)\<lparr>eax := -1\<rparr>\<rparr>, d1)" by (simp add: lib_exec_def x')
  then show ?thesis using x as f(2) same_volume_trans [OF v(2) f(3)] by (simp add: x' serving_def k_shown_def k_input_def)
qed

subsection \<open>The kernel keeps its promises\<close>

definition attached :: "'d env \<Rightarrow> ('d \<Rightarrow> ata) \<Rightarrow> bool" where
  "attached E view \<longleftrightarrow> video_apart (io E) view \<and> serial_apart (io E) view \<and> (\<exists>busy sent. uart_tx (io E) SERIAL_COM1 busy sent)"

lemma kernel_program_calls:
  assumes "layout_ok L" and "attached E view"
  shows "program_calls (kernel_calls E L) (serving E view img F) k_shown k_put (k_on_disk img F) (k_opened img) k_argv k_input"
proof -
  obtain busy sent where p: "video_apart (io E) view" "serial_apart (io E) view" "uart_tx (io E) SERIAL_COM1 busy sent"
    using assms(2) by (auto simp: attached_def)
  show ?thesis
    by (rule program_calls.intro)
      (simp_all only: kernel_calls_def calls.simps print_keeps [OF assms(1) _ _ p] file_open_opens [OF assms(1)] file_read_reads [OF assms(1)]
        file_close_closes get_argc_counts get_arg_copies [OF assms(1)] getchar_takes k_put_put, simp add: k_put_def)
qed

lemma kernel_listing_calls:
  assumes "layout_ok L" and "attached E view" and "dir_on img F infos" and "list_all (\<lambda>i. is_cstring (di_name i)) infos"
  shows "listing_calls (kernel_calls E L) (serving E view img F) k_shown k_put (k_on_disk img F) (k_opened img) k_argv k_input infos"
  by (rule listing_calls.intro [OF kernel_program_calls [OF assms(1,2)] listing_calls_axioms.intro])
    (simp only: kernel_calls_def calls.simps list_dir_lists [OF assms(1) _ assms(3,4)])

lemma kernel_command_calls:
  assumes "layout_ok L" and "attached E view"
  shows "command_calls (kernel_calls E L) (serving E view img F) k_shown k_put (k_on_disk img F) (k_opened img) k_argv k_input (k_missing img F)"
  by (rule command_calls.intro [OF kernel_program_calls [OF assms(1,2)] command_calls_axioms.intro])
    (simp only: kernel_calls_def calls.simps exec_missing_returns [OF assms(1)])

subsection \<open>A program on the concrete machine\<close>

text \<open>A program with the argument \<open>a.txt\<close>, for which \<open>hi\<close> and Enter have been typed.\<close>

definition pc_strings :: "(ata \<times> u8 list) layout" where
  "pc_strings = \<lparr>str_at = 0x300200, buf_at = 0x300800, run_child = (\<lambda>x. None)\<rparr>"

definition pc_program :: kernel where
  "pc_program = pc_kernel\<lparr>current_program_args := \<lparr>args = (str ''a.txt'' @ replicate 59 0) # replicate 15 (replicate 64 0), count = 1\<rparr>,
     keyb := (keyb pc_kernel)\<lparr>kb_buffer := str ''hi'' @ [10] @ replicate 253 0, kb_head := 3\<rparr>\<rparr>"

definition pc_listing :: "fat32_dirinfo list" where
  "pc_listing = [\<lparr>di_name = str ''PROG.ELF'', di_size = 88, di_is_directory = 0\<rparr>, \<lparr>di_name = str ''A.TXT'', di_size = 14, di_is_directory = 0\<rparr>,
     \<lparr>di_name = str ''LONGNAME.ELF'', di_size = 88, di_is_directory = 0\<rparr>]"

lemma pc_strings_ok: "layout_ok pc_strings"
  by (simp add: layout_ok_def pc_strings_def user_range_def)

lemma pc_attached: "attached pc_env fst"
  using pc_video pc_bus_uart by (auto simp: attached_def pc_env_def serial_apart_def) (auto simp: pc_bus_def inb_def outb_def)

lemma pc_root_chain: "is_chain (next_cluster pc_sector demo_fs) (root_dir_cluster demo_fs) [2]" "list_all (addressable demo_fs) [2]"
  using addressable_demo by (simp_all add: pc_chains demo_root_dir)

lemma pc_dir: "dir_on pc_sector demo_fs pc_listing"
proof -
  have r: "replicate 4 x = [x, x, x, x]" "replicate 7 x = [x, x, x, x, x, x, x]" for x :: u8 by (simp_all add: numeral_eq_Suc)
  show ?thesis unfolding dir_on_def pc_listing_def
    by (rule exI [of _ "[2]"], intro conjI, rule pc_root_chain(1), rule pc_root_chain(2))
      (simp add: pc_root dirinfo_of_def direntry_of_def bytes_def pc_entry_def name83_def str_def ord_c_def
        of_char_def le16_def le32_def bytes_word_def fat32_name_to_string_def r)
qed

lemma pc_names: "list_all (\<lambda>i. text_ok (di_name i)) pc_listing"
  by (simp add: pc_listing_def text_ok_def str_def ord_c_def of_char_def)

lemma pc_program_args: "k_argv (pc_program, d) = [str ''a.txt'']" "k_input (pc_program, d) = str ''hi'' @ 10 # []"
proof -
  have u: "[0 ..< 3] = [0, 1, 2 :: nat]" by (simp add: numeral_eq_Suc)
  show "k_argv (pc_program, d) = [str ''a.txt'']" "k_input (pc_program, d) = str ''hi'' @ 10 # []"
    by (simp_all add: k_argv_def k_input_def pc_program_def pc_kernel_def power_on_def kb_contents_def kb_count_def str_def cstr_def ord_c_def of_char_def u)
qed

lemma pc_serving: "serving pc_env fst pc_sector demo_fs (pc_program, pc_drive)"
proof -
  have "volume pc_bus fst pc_sector (disk pc_program) pc_drive" "same_volume demo_fs (disk pc_program)"
    using pc_kernel_facts(1,2) by (simp_all add: pc_program_def)
  moreover have "vga_ok (screen pc_program)" "kb_ok (keyb pc_program)"
    by (simp_all add: pc_program_def pc_kernel_def power_on_def vga_ok_def kb_ok_def str_def)
  moreover have "is_cstring (kb_contents (keyb pc_program))"
    using pc_program_args(2) by (simp add: k_input_def str_def ord_c_def of_char_def)
  moreover have "args_ok (current_program_args pc_program)" "count (current_program_args pc_program) \<le> 16"
    "\<forall>b \<in> set (args (current_program_args pc_program)). length (cstr b) < 64"
    by (simp_all add: pc_program_def args_ok_def str_def cstr_def ord_c_def of_char_def)
  ultimately show ?thesis by (simp add: serving_def pc_env_def)
qed

interpretation pcp: program_calls "kernel_calls pc_env pc_strings" "serving pc_env fst pc_sector demo_fs" k_shown k_put "k_on_disk pc_sector demo_fs"
  "k_opened pc_sector" k_argv k_input
  by (rule kernel_program_calls [OF pc_strings_ok pc_attached])

interpretation pcl: listing_calls "kernel_calls pc_env pc_strings" "serving pc_env fst pc_sector demo_fs" k_shown k_put "k_on_disk pc_sector demo_fs"
  "k_opened pc_sector" k_argv k_input pc_listing
  by (rule kernel_listing_calls [OF pc_strings_ok pc_attached pc_dir]) (use pc_names in \<open>simp add: list_all_iff text_ok_def\<close>)

interpretation pcc: command_calls "kernel_calls pc_env pc_strings" "serving pc_env fst pc_sector demo_fs" k_shown k_put "k_on_disk pc_sector demo_fs"
  "k_opened pc_sector" k_argv k_input "k_missing pc_sector demo_fs"
  by (rule kernel_command_calls [OF pc_strings_ok pc_attached])

subsection \<open>Results\<close>

text \<open>
  C12: \<open>cat\<close> shows the file. On a machine with a mounted volume, with no interrupt between its calls, if the first argument names a file on the
  volume (in any case) whose contents have no NUL and that is smaller than 1 GiB, the program ends with 0
  and the screen shows the contents, all of them, behind what was there, as the console shows text.
\<close>

theorem cat_shows_file:
  assumes "layout_ok L" and "attached E view" and "serving E view img F x" and "k_argv x = nm # as"
    and "file_on img F (fat32_string_to_name (map to_upper nm)) data" and "length data < 0x40000000" and "is_cstring data"
  shows "\<exists>x'. cat_main (kernel_calls E L) x = Some (0, x') \<and> k_shown x' = k_put data (k_shown x)"
  using program_calls.cat_shows [OF kernel_program_calls [OF assms(1,2)] assms(3,4) _ assms(7)] assms(5,6) by (simp add: k_on_disk_def)

text \<open>
  C25: \<open>ls\<close> shows the directory. On a machine with a mounted volume whose root directory has the entries
  \<open>infos\<close>, with names that are not empty and have no NUL, and with no interrupt between its calls, the program ends with 0 and the screen shows the heading, a line with
  name, kind and decimal size for each of the first 64 of them in their order, and their number.
\<close>

theorem ls_shows_directory:
  assumes "layout_ok L" and "attached E view" and "serving E view img F x" and "dir_on img F infos"
    and "list_all (\<lambda>i. text_ok (di_name i)) infos"
  shows "\<exists>x'. ls_main (kernel_calls E L) x = Some (0, x') \<and> k_shown x' = k_put (ls_text (take 64 infos)) (k_shown x)"
proof -
  have "list_all (\<lambda>i. is_cstring (di_name i)) infos" using assms(5) by (simp add: list_all_iff text_ok_def)
  then show ?thesis using listing_calls.ls_shows [OF kernel_listing_calls [OF assms(1,2,4)] assms(3,5)] by blast
qed

text \<open>
  C13: the shell edits the line and refuses an unknown command. When the characters \<open>cs\<close> and Enter have been
  typed and no interrupt arrives between its calls, the shell echoes them, removes a character for each backspace, drops what is beyond 63 characters,
  and if the resulting line is not empty, \<open>clear\<close> or \<open>exit\<close> and there is no file with the name of its first
  word, cut after 11 characters, it says so with exactly this line, prompts again, and goes on with the
  rest of the input.
\<close>

theorem shell_refuses_unknown:
  assumes "layout_ok L" and "attached E view" and "serving E view img F x" and "k_input x = cs @ 10 # rest" and "10 \<notin> set cs"
    and "length buf = 64" and "line = fold edit cs []" and "line \<notin> {[], str ''clear'', str ''exit''}" and "k_missing img F line"
  shows "\<exists>x' buf'. sh_loop (kernel_calls E L) buf 0 x = sh_loop (kernel_calls E L) buf' 0 x' \<and> length buf' = 64
    \<and> serving E view img F x' \<and> k_input x' = rest
    \<and> k_shown x' = k_put (echo [] cs @ [10] @ str ''Command not found: '' @ line @ [10] @ str ''MagnOS> '') (k_shown x)"
proof -
  have "is_cstring cs" using assms(3,4) by (cases x) (auto simp: serving_def k_input_def)
  then show ?thesis by (rule command_calls.sh_missing [OF kernel_command_calls [OF assms(1,2)] assms(3-5) _ assms(6-9)])
qed

subsection \<open>Witnesses\<close>

theorem cat_shows_file_witness:
  "\<exists>x'. cat_main (kernel_calls pc_env pc_strings) (pc_program, pc_drive) = Some (0, x')
    \<and> k_shown x' = k_put (str ''Hello, magnos!'') (k_shown (pc_program, pc_drive))"
proof -
  have "map to_upper (str ''a.txt'') = str ''A.TXT''" by (simp add: str_def to_upper_def ord_c_def of_char_def)
  then have "fat32_string_to_name (map to_upper (str ''a.txt'')) = name83 (str ''A'') (str ''TXT'')"
    using string_to_name_name83 [of "str ''A''" "str ''TXT''"] by (simp add: plain_def) (simp add: str_def ord_c_def of_char_def)
  then have "file_on pc_sector demo_fs (fat32_string_to_name (map to_upper (str ''a.txt''))) (str ''Hello, magnos!'')" using pc_files(2) by simp
  moreover have "length (str ''Hello, magnos!'') < 0x40000000" "is_cstring (str ''Hello, magnos!'')" by (simp_all add: str_def ord_c_def of_char_def)
  ultimately show ?thesis by (rule cat_shows_file [OF pc_strings_ok pc_attached pc_serving pc_program_args(1)])
qed

theorem ls_shows_directory_witness:
  "\<exists>x'. ls_main (kernel_calls pc_env pc_strings) (pc_program, pc_drive) = Some (0, x')
    \<and> k_shown x' = k_put (ls_text pc_listing) (k_shown (pc_program, pc_drive))"
  using ls_shows_directory [OF pc_strings_ok pc_attached pc_serving pc_dir pc_names] by (simp add: pc_listing_def)

theorem shell_refuses_unknown_witness:
  "\<exists>x' buf'. sh_loop (kernel_calls pc_env pc_strings) (replicate 64 0) 0 (pc_program, pc_drive) = sh_loop (kernel_calls pc_env pc_strings) buf' 0 x'
    \<and> k_shown x' = k_put (str ''hi'' @ [10] @ str ''Command not found: hi'' @ [10] @ str ''MagnOS> '') (k_shown (pc_program, pc_drive))"
proof -
  have e: "fold edit (str ''hi'') [] = str ''hi''" "echo [] (str ''hi'') = str ''hi''" by (simp_all add: edit_def str_def ord_c_def of_char_def)
  have n: "10 \<notin> set (str ''hi'')" "str ''hi'' \<notin> {[], str ''clear'', str ''exit''}" "length (replicate 64 (0 :: u8)) = 64"
    by (simp_all add: str_def ord_c_def of_char_def)
  have r: "replicate 11 x = [x, x, x, x, x, x, x, x, x, x, x]" for x :: u8 by (simp add: numeral_eq_Suc)
  have "fat32_string_to_name (map to_upper (take 11 (str ''hi''))) = [72, 73, 32, 32, 32, 32, 32, 32, 32, 32, 32]"
    by (simp add: fat32_string_to_name_def put_at_def str_def to_upper_def ord_c_def of_char_def r Let_def)
  then have "find (named (fat32_string_to_name (map to_upper (take 11 (str ''hi''))))) (live (dir_entries pc_sector demo_fs [2])) = None"
    by (simp add: pc_root named_def direntry_of_def bytes_def pc_entry_def name83_def str_def ord_c_def of_char_def)
  moreover have "pieces (str ''hi'') = [str ''hi'']" by (rule command_word) (simp add: word_ok_def str_def ord_c_def of_char_def)
  ultimately have m: "k_missing pc_sector demo_fs (str ''hi'')" using pc_root_chain unfolding k_missing_def by blast
  have t: "echo [] (str ''hi'') @ [10] @ str ''Command not found: '' @ str ''hi'' @ [10] @ str ''MagnOS> '' =
      str ''hi'' @ [10] @ str ''Command not found: hi'' @ [10] @ str ''MagnOS> ''" unfolding e by (simp add: str_def)
  show ?thesis
    using shell_refuses_unknown [OF pc_strings_ok pc_attached pc_serving pc_program_args(2) n(1,3) e(1) [symmetric] n(2) m]
    unfolding t by blast
qed

end
