(* ===== verification/Spec2Isabelle.thy ===== *)
theory Spec2Isabelle
  imports Process Kernel_Calls
begin

text \<open>
  MagnOS, a small operating system for 32-bit x86: a kernel with a memory manager, paging, a scheduler,
  drivers, a FAT32 file system, a loader and system calls, and programs that run in ring 3. This
  library models the C code under kernel/ and userspace/, and the assembly code of the context switch,
  of the table loads and of the entry to the kernel, as functions on explicit states, and proves what
  makes the parts correct.


  The parts and how they interact. \<open>kernel_main\<close> (kernel.c) sets up the console, the segments, the
  interrupts, the memory, the scheduler and the disk, starts the program \<open>shell\<close> of the volume and, if
  that is not there or is over, runs its own prompt. A program is read from the volume by fat32.c through ide.c, laid out by elf.c,
  and runs in ring 3 on the pages that paging.c opens. It comes back to the kernel with int 0x80
  (isr.asm, idt.c), where syscall.c serves it: printing goes to vga.c and serial.c, reading keys to
  keyboard.c, files to fat32.c, exec to elf.c again.


  Conventions. \<open>C_Prelude\<close> holds the integer types (words of 8, 16 and 32 bits, whose arithmetic wraps)
  and strings as C has them. Memory is a function from addresses to bytes (\<open>Machine\<close>). The state is a
  record that every theory extends: memory, then the bitmap of pmm.c, the heap of heap.c, the page
  directory of paging.c, the process table of process.c, and all other static variables (\<open>kernel\<close> in
  \<open>Syscall\<close>). Devices are behind a bus (\<open>Bus\<close>), a record of port functions on a device state; what the
  code relies on of a device is a named predicate (\<open>ata_ok\<close>, \<open>uart_tx\<close>, \<open>crtc_ok\<close>, ...) that the witnesses
  instantiate with concrete devices. Addresses that the linker assigns, the interrupts that arrive and
  the stack use of compiled code are fields of \<open>env\<close>. Errors are the result codes of the source. A loop
  that may run forever is a partial function into option, and None means that it does not return; where
  a result says that an operation returns, it states Some. No fuel is used: the polling loops with a
  limit count down the source's limit, and all other recursion is on the data or has a termination
  proof.


  The theories:

  \<^item> \<open>Pmm\<close>: kernel/pmm.c. First fit on the bitmap, and the interface \<open>page_allocator\<close> for its clients.
  \<^item> \<open>Kheap\<close>, \<open>Heap_Safety\<close>: kernel/heap.c. The block headers in memory refine a list of free blocks; what
    a client that frees only what it holds can rely on, for every sequence of calls; the overflow of the
    rounding is part of \<open>kmalloc_fresh\<close>.
  \<^item> \<open>Paging\<close>: kernel/paging.c. The tables in memory; mapping changes one page. The kernel addresses
    its tables by physical addresses, which is right as long as they lie in the identity-mapped 16 MiB;
    the model reads and writes them so, without going through the translation.
  \<^item> \<open>Process\<close>: kernel/process.c, kernel/switch.asm. The stack of a process that is not running, round
    robin, fairness, and that a process goes on where it was.
  \<^item> \<open>Keyboard\<close>, \<open>Vga\<close>, \<open>Serial\<close>, \<open>Ide\<close>: the drivers. The key buffer is a bounded queue; the screen refines
    an abstract terminal; sectors that were written are read back.
  \<^item> \<open>Fat32\<close>, \<open>Fat32_Bounds\<close>, \<open>Fat32_Volume\<close>, \<open>Files\<close>: kernel/fat32.c. Opening, reading and listing
    against the volume as a mathematical object: cluster chains, directory entries, contents.
  \<^item> \<open>Args\<close>: kernel/args.c. The words of a command line. \<open>Decimal\<close>: the decimal numbers of ls.c and
    its copies.
  \<^item> \<open>Gdt\<close>, \<open>Idt\<close>: kernel/gdt.c, gdt_flush.asm, idt.c. The tables as the processor reads them,
    with the bits that loading a selector sets in its descriptor.
  \<^item> \<open>Elf\<close>: kernel/elf.c. The image that the segments of a file give, and the pages that are opened.
  \<^item> \<open>Syscall\<close>, \<open>Kernel\<close>: kernel/syscall.c, the rest of elf.c, kernel.c, isr.asm. All handlers on
    the state of the whole kernel, the shell of the kernel, booting, and the step relation \<open>kstep\<close>.
  \<^item> \<open>Kernel_Inv\<close>: the invariant of all reachable states, and booting without a disk.
  \<^item> \<open>Exec\<close>, \<open>Exec_File\<close>: what holds while programs run: a program is confined to its region; exec starts
    the file and gives the caller back; and where it does not: nested exec, the kernel stack, long names.
  \<^item> \<open>Userland\<close>, \<open>Programs\<close>, \<open>Kernel_Calls\<close>: userspace/. The programs over the record of calls, what they do
    given what the calls promise (locales \<open>program_calls\<close>, \<open>listing_calls\<close>, \<open>command_calls\<close>), and that the
    modelled kernel keeps these promises, so that \<open>cat\<close>, \<open>ls\<close> and the shell are right on it.
  \<^item> \<open>Pc\<close>: a concrete machine with a volume, for the witnesses of the results about the whole system.


  Limits of the model. The variables of the kernel, its stack and the video memory are fields of the
  state and not bytes of memory. So the code never reads or overwrites them through memory in the
  model; a pointer of a program, or a segment of a file, that leads below 0x200000 has no next state
  (\<open>described\<close>), although the kernel does not check it. Results about all programs therefore are about
  those that pass pointers into 0x200000-0xFFFFFF. The buffer in which exec saves its caller is modelled
  as memory throughout, while on the machine a part of it may be video memory or ROM
  (0xA0000-0xFFFFF); \<open>exec_restores_caller\<close> claims nothing of the bytes saved there. In \<open>irq_handler\<close> the
  scheduler acts on the process table and the saved stacks, but the registers of a program in ring 3
  (\<open>user\<close>) are not exchanged with it: the results about programs suppose that no other process is ready
  (\<open>alone\<close>), as it is in the kernel, which has one process only, except in the builds with
  \<open>TEST_KERNEL_THREADS\<close>. The programs of \<open>Userland\<close> run from
  call to call, without interrupts between them.


  Not modelled: the boot sector, the entry code and the linker script (they run before, or define, the
  first modelled state), the data segment registers at the entry to the kernel, the code of
  kernel.c that its feature flags leave out of the build, and the two test programs.
\<close>

end
